(* ===== verification/Tiering_Prelude.thy ===== *)
theory Tiering_Prelude
  imports Complex_Main "HOL-Library.AList" "HOL-Library.Product_Lexorder"
begin

text \<open>
  What the component theories share: the types that stand for Python's values
  (\<open>bytes\<close> keys, \<open>str\<close> identifiers, clock readings, exceptions), dictionaries as
  association lists in insertion order, the slice \<open>xs[:n]\<close>, the truth value of an
  optional float, and the contract of a component whose operations keep an invariant.
\<close>

text \<open>Lookups stay lookups: the simplifier is not to turn them into list membership.\<close>

declare map_of_eq_Some_iff [simp del] Some_eq_map_of_iff [simp del]

section \<open>Types\<close>

text \<open>
  An \<open>OffloadKey\<close> is a \<open>bytes\<close> object and is only compared for equality; a
  \<open>char\<close> of HOL is a byte. A reading of \<open>time.monotonic()\<close> is a rational number:
  floats are rationals, and the rounding of a sum or difference of two of them is not
  modelled. Each operation takes the readings it makes as arguments.
\<close>

type_synonym offload_key = string
type_synonym req_id = string
type_synonym session_id = string
type_synonym instant = rat

text \<open>The exceptions that the modelled code raises, with the message where it is a literal.\<close>

datatype py_error =
    ValueError string
  | KeyError
  | IndexError
  | AssertionError
  | AttributeError
  | OSError string
  | FileNotFoundError nat
  | RuntimeError
  | TypeError
  | OverflowError
  | ZeroDivisionError

type_synonym 'a result = "py_error + 'a"

named_theorems dict_simps
named_theorems inv_intros
named_theorems eval_defs

text \<open>Running a fallible computation after another one.\<close>

definition bind_result :: "'a result \<Rightarrow> ('a \<Rightarrow> 'b result) \<Rightarrow> 'b result" where
  "bind_result x f = (case x of Inl e \<Rightarrow> Inl e | Inr a \<Rightarrow> f a)"

section \<open>Values\<close>

text \<open>
  What a configuration or request dictionary holds. A float is a finite number, an
  infinity or not-a-number; the comparisons with not-a-number are false.
\<close>

datatype pyfloat = Finite rat | PosInf | NegInf | NaN

datatype py_value = PBool bool | PInt int | PFloat pyfloat | PStr string | PNone

fun pf_isfinite :: "pyfloat \<Rightarrow> bool" where
  "pf_isfinite (Finite _) = True"
| "pf_isfinite _ = False"

fun pf_less :: "pyfloat \<Rightarrow> pyfloat \<Rightarrow> bool" where
  "pf_less NaN _ = False"
| "pf_less _ NaN = False"
| "pf_less (Finite a) (Finite b) = (a < b)"
| "pf_less NegInf y = (y \<noteq> NegInf)"
| "pf_less x PosInf = (x \<noteq> PosInf)"
| "pf_less _ _ = False"

fun pf_le :: "pyfloat \<Rightarrow> pyfloat \<Rightarrow> bool" where
  "pf_le NaN _ = False"
| "pf_le _ NaN = False"
| "pf_le x y = (x = y \<or> (case (x, y) of (Finite a, Finite b) \<Rightarrow> a \<le> b | _ \<Rightarrow> pf_less x y))"

fun pf_rat :: "pyfloat \<Rightarrow> rat" where
  "pf_rat (Finite r) = r"
| "pf_rat _ = 0"

text \<open>The two attributes of a request context that the code reads.\<close>

record req_context =
  req_id :: req_id
  kv_transfer_params :: "(string \<times> py_value) list option"

text \<open>\<open>xs[:n]\<close>: a negative bound counts from the end.\<close>

definition py_take :: "int \<Rightarrow> 'a list \<Rightarrow> 'a list" where
  "py_take n xs = (if 0 \<le> n then take (nat n) xs else take (length xs - nat (- n)) xs)"

text \<open>\<open>x or d\<close> for an optional float \<open>x\<close>: both \<open>None\<close> and \<open>0.0\<close> are falsy.\<close>

definition float_or :: "rat option \<Rightarrow> rat \<Rightarrow> rat" where
  "float_or x d = (case x of None \<Rightarrow> d | Some v \<Rightarrow> if v = 0 then d else v)"

lemma set_py_take: "set (py_take n xs) \<subseteq> set xs"
  by (auto simp: py_take_def dest: in_set_takeD)

lemma distinct_py_take: "distinct xs \<Longrightarrow> distinct (py_take n xs)"
  by (simp add: py_take_def)

lemma length_py_take: "0 \<le> n \<Longrightarrow> length (py_take n xs) = min (nat n) (length xs)"
  by (simp add: py_take_def min.commute)

lemma py_take_map: "py_take n (map f xs) = map f (py_take n xs)"
  by (simp add: py_take_def take_map)

lemma py_take_empty_iff: "0 < n \<Longrightarrow> py_take n xs = [] \<longleftrightarrow> xs = []"
  by (simp add: py_take_def)

lemma sort_key_empty_iff: "sort_key f xs = [] \<longleftrightarrow> xs = []"
  by (metis length_0_conv length_sort)

lemma py_take_prefix: "\<exists>zs. xs = py_take n xs @ zs"
  unfolding py_take_def by (metis append_take_drop_id)

lemma sorted_py_take: "sorted (map f xs) \<Longrightarrow> sorted (map f (py_take n xs))"
  by (simp add: py_take_def sorted_wrt_take flip: take_map)

text \<open>
  Selecting the first entries of a stable sort: whatever is left out is no smaller than
  anything that is selected.
\<close>

lemma py_take_sort_least:
  assumes "x \<in> set xs" "x \<notin> set (py_take n (sort_key f xs))" "y \<in> set (py_take n (sort_key f xs))"
  shows "f y \<le> f x"
proof -
  obtain zs where zs: "sort_key f xs = py_take n (sort_key f xs) @ zs"
    using py_take_prefix by blast
  then have "x \<in> set zs" using assms(1,2) by (metis Un_iff set_append set_sort)
  moreover have "sorted (map f (py_take n (sort_key f xs) @ zs))"
    using zs sorted_sort_key by metis
  ultimately show ?thesis using assms(3) by (auto simp: sorted_append)
qed

lemma py_take_sort_subset: "set (py_take n (sort_key f xs)) \<subseteq> set xs"
  using set_py_take [of n "sort_key f xs"] by simp

section \<open>Dictionaries in insertion order\<close>

text \<open>
  A Python dictionary is an association list: \<open>AList.update\<close> overwrites in place or
  appends, as \<open>d[k] = v\<close> does, \<open>AList.delete\<close> is \<open>d.pop(k, None)\<close> and
  \<open>map_of d k\<close> is \<open>d.get(k)\<close>. \<open>dict_map\<close> rewrites the values in place.
\<close>

definition dict_map :: "('k \<Rightarrow> 'v \<Rightarrow> 'v) \<Rightarrow> ('k \<times> 'v) list \<Rightarrow> ('k \<times> 'v) list" where
  "dict_map f d = map (\<lambda>(k, v). (k, f k v)) d"

definition dict_get :: "('k \<times> 'v) list \<Rightarrow> 'k \<Rightarrow> 'v \<Rightarrow> 'v" where
  "dict_get d k v = (case map_of d k of None \<Rightarrow> v | Some w \<Rightarrow> w)"

definition setdefault :: "'k \<Rightarrow> 'v \<Rightarrow> ('k \<times> 'v) list \<Rightarrow> ('k \<times> 'v) list" where
  "setdefault k v d = (case map_of d k of None \<Rightarrow> AList.update k v d | Some _ \<Rightarrow> d)"

text \<open>\<open>d.update(rows)\<close>, and rows that a database writes with their primary key.\<close>

definition update_all :: "('k \<times> 'v) list \<Rightarrow> ('k \<times> 'v) list \<Rightarrow> ('k \<times> 'v) list" where
  "update_all rows d = fold (\<lambda>(k, v) d. AList.update k v d) rows d"

lemma map_of_update [dict_simps]:
  "map_of (AList.update k v d) k' = (if k' = k then Some v else map_of d k')"
  by (simp add: update_conv')

lemma map_of_delete_key [dict_simps]:
  "map_of (AList.delete k d) k' = (if k' = k then None else map_of d k')"
  by (simp add: delete_conv')

lemma map_of_dict_map [dict_simps]: "map_of (dict_map f d) k = map_option (f k) (map_of d k)"
  by (induction d) (auto simp: dict_map_def)

lemma keys_dict_map [dict_simps]: "map fst (dict_map f d) = map fst d"
  by (induction d) (auto simp: dict_map_def)

lemma map_of_setdefault [dict_simps]:
  "map_of (setdefault k v d) k' =
     (if k' = k \<and> map_of d k = None then Some v else map_of d k')"
  by (auto simp: setdefault_def dict_simps split: option.splits)

lemma distinct_setdefault [dict_simps]:
  "distinct (map fst d) \<Longrightarrow> distinct (map fst (setdefault k v d))"
  by (auto simp: setdefault_def distinct_update split: option.splits)

lemmas distinct_keys [dict_simps] = distinct_update distinct_delete

lemma dict_get_None [simp]: "map_of d k = None \<Longrightarrow> dict_get d k v = v"
  by (simp add: dict_get_def)

lemma dict_get_Some [simp]: "map_of d k = Some w \<Longrightarrow> dict_get d k v = w"
  by (simp add: dict_get_def)

lemma dict_get_update [dict_simps]:
  "dict_get (AList.update k w d) k' v = (if k' = k then w else dict_get d k' v)"
  by (simp add: dict_get_def dict_simps)

lemma dict_get_delete [dict_simps]:
  "dict_get (AList.delete k d) k' v = (if k' = k then v else dict_get d k' v)"
  by (simp add: dict_get_def dict_simps)

lemma dict_get_setdefault [dict_simps]: "dict_get (setdefault k v d) k' v = dict_get d k' v"
  by (auto simp: dict_get_def dict_simps split: option.splits)

lemma keys_update_present:
  "map_of d k = Some w \<Longrightarrow> map fst (AList.update k v d) = map fst d"
  by (force simp: update_keys dest: map_of_SomeD)

lemma update_all_simps [simp]:
  "update_all [] d = d"
  "update_all ((k, v) # rows) d = update_all rows (AList.update k v d)"
  by (simp_all add: update_all_def)

lemma map_of_update_all:
  "distinct (map fst rows) \<Longrightarrow>
     map_of (update_all rows d) k = (case map_of rows k of None \<Rightarrow> map_of d k | Some v \<Rightarrow> Some v)"
proof (induction rows arbitrary: d)
  case (Cons r rows)
  obtain k0 v0 where r: "r = (k0, v0)" by (cases r)
  have "map_of rows k0 = None" using Cons.prems r by (simp add: map_of_eq_None_iff)
  with Cons r show ?case by (auto simp: map_of_update split: option.splits)
qed simp

lemma distinct_update_all: "distinct (map fst d) \<Longrightarrow> distinct (map fst (update_all rows d))"
  by (induction rows arbitrary: d) (auto simp: distinct_update)

lemma update_absent: "map_of d k = None \<Longrightarrow> AList.update k v d = d @ [(k, v)]"
  by (induction d) (auto split: if_splits)

lemma map_of_filter_keys:
  "map_of (filter (\<lambda>(k, _). P k) d) k = (if P k then map_of d k else None)"
  by (induction d) auto

lemma in_values_iff:
  assumes "distinct (map fst d)"
  shows "v \<in> snd ` set d \<longleftrightarrow> (\<exists>k. map_of d k = Some v)"
  using assms by (force simp: map_of_eq_Some_iff)

text \<open>
  A loop over a Python set visits its elements in an unspecified order. Where its body
  rewrites only the entry of the element it visits, every order gives the same
  dictionary: the one \<open>dict_map\<close> computes from the set.
\<close>

fun visit_entries :: "('k \<Rightarrow> 'v \<Rightarrow> 'v) \<Rightarrow> 'k list \<Rightarrow> ('k \<times> 'v) list \<Rightarrow> ('k \<times> 'v) list" where
  "visit_entries f [] d = d"
| "visit_entries f (k # ks) d =
     visit_entries f ks (case map_of d k of None \<Rightarrow> d | Some v \<Rightarrow> AList.update k (f k v) d)"

lemma update_as_dict_map:
  assumes "distinct (map fst d)" and "map_of d k = Some v"
  shows "AList.update k (f k v) d = dict_map (\<lambda>k' w. if k' = k then f k' w else w) d"
  using assms
proof (induction d)
  case (Cons p d)
  obtain k0 v0 where p: "p = (k0, v0)" by (cases p)
  show ?case
  proof (cases "k0 = k")
    case True
    with Cons.prems p have "k \<notin> fst ` set d" and "v0 = v" by auto
    then have "dict_map (\<lambda>k' w. if k' = k then f k' w else w) d = d"
      unfolding dict_map_def by (intro map_idI) force
    with True \<open>v0 = v\<close> p show ?thesis by (simp add: dict_map_def)
  next
    case False
    with Cons p show ?thesis by (auto simp: dict_map_def)
  qed
qed simp

theorem visit_entries_any_order:
  assumes "distinct (map fst d)" and "distinct ks"
  shows "visit_entries f ks d = dict_map (\<lambda>k v. if k \<in> set ks then f k v else v) d"
  using assms
proof (induction ks arbitrary: d)
  case Nil
  show ?case by (simp add: dict_map_def)
next
  case (Cons k ks)
  show ?case
  proof (cases "map_of d k")
    case None
    then have "k \<notin> fst ` set d" by (simp add: map_of_eq_None_iff)
    with Cons None show ?thesis by (force simp: dict_map_def)
  next
    case (Some v)
    note upd = update_as_dict_map [OF Cons.prems(1) Some, of f]
    have "distinct (map fst (dict_map (\<lambda>k' w. if k' = k then f k' w else w) d))"
      using Cons.prems(1) by (simp add: dict_simps)
    with Cons Some upd show ?thesis by (auto simp: dict_map_def)
  qed
qed

section \<open>Components whose operations keep an invariant\<close>

text \<open>
  A component is a step function over its operations; its invariant holds after any
  sequence of operations if every operation keeps it.
\<close>

locale guarded_component =
  fixes step :: "'op \<Rightarrow> 's \<Rightarrow> 's"
    and inv :: "'s \<Rightarrow> bool"
    and allowed :: "'op \<Rightarrow> bool"
  assumes step_inv: "allowed op \<Longrightarrow> inv s \<Longrightarrow> inv (step op s)"
begin

lemma run_inv: "inv s \<Longrightarrow> list_all allowed ops \<Longrightarrow> inv (fold step ops s)"
  by (induction ops arbitrary: s) (auto intro: step_inv)

lemma every_state_inv: "inv s \<Longrightarrow> list_all allowed ops \<Longrightarrow> inv (fold step (take n ops) s)"
  by (rule run_inv) (auto simp: list_all_iff dest: in_set_takeD)

text \<open>A frame property of every step is a frame property of every run.\<close>

lemma run_frame:
  assumes "\<And>op s. f (step op s) = f s"
  shows "f (fold step ops s) = f s"
  by (induction ops arbitrary: s) (simp_all add: assms)

end

text \<open>The same for operations that can raise: no allowed operation does, in any sequence.\<close>

locale fallible_component =
  fixes step :: "'op \<Rightarrow> 's \<Rightarrow> 's result"
    and inv :: "'s \<Rightarrow> bool"
    and allowed :: "'op \<Rightarrow> bool"
  assumes step_ok: "allowed op \<Longrightarrow> inv s \<Longrightarrow> \<exists>s'. step op s = Inr s' \<and> inv s'"
begin

lemma run_ok:
  "inv s \<Longrightarrow> list_all allowed ops \<Longrightarrow>
     \<exists>s'. fold (\<lambda>op r. bind_result r (step op)) ops (Inr s) = Inr s' \<and> inv s'"
proof (induction ops arbitrary: s)
  case (Cons op ops)
  then obtain s' where "step op s = Inr s'" "inv s'" using step_ok by fastforce
  with Cons show ?case by (simp add: bind_result_def)
qed simp

end

text \<open>
  Machines that finish: every step keeps an invariant and lowers a bound on the work that is
  left, and until the machine is done it can make a step.
\<close>

locale finishing_machine =
  fixes step :: "'s \<Rightarrow> 's \<Rightarrow> bool"
    and inv :: "'s \<Rightarrow> bool"
    and final :: "'s \<Rightarrow> bool"
    and work :: "'s \<Rightarrow> nat"
  assumes inv_step: "inv s \<Longrightarrow> step s s' \<Longrightarrow> inv s'"
    and work_step: "inv s \<Longrightarrow> step s s' \<Longrightarrow> work s' < work s"
    and not_stuck: "inv s \<Longrightarrow> \<not> final s \<Longrightarrow> \<exists>s'. step s s'"
begin

lemma steps_inv: "inv s \<Longrightarrow> (step ^^ n) s s' \<Longrightarrow> inv s'"
  by (induction n arbitrary: s') (auto intro: inv_step)

lemma steps_work: "inv s \<Longrightarrow> (step ^^ n) s s' \<Longrightarrow> n + work s' \<le> work s"
proof (induction n arbitrary: s')
  case (Suc n)
  then obtain s1 where 1: "(step ^^ n) s s1" "step s1 s'" by auto
  with Suc.IH [OF Suc.prems(1) 1(1)] work_step [OF steps_inv [OF Suc.prems(1) 1(1)] 1(2)] show ?case by simp
qed simp

lemma stops_final: "inv s \<Longrightarrow> (step ^^ n) s s' \<Longrightarrow> \<nexists>s''. step s' s'' \<Longrightarrow> final s'"
  using steps_inv not_stuck by blast

lemma finishes: "inv s \<Longrightarrow> \<exists>n \<le> work s. \<exists>s'. (step ^^ n) s s' \<and> final s'"
proof (induction "work s" arbitrary: s rule: less_induct)
  case less
  show ?case
  proof (cases "final s")
    case True
    then show ?thesis by (intro exI [of _ 0]) auto
  next
    case False
    then obtain s1 where s1: "step s s1" using not_stuck less.prems by blast
    then have lt: "work s1 < work s" using work_step less.prems by blast
    obtain n s' where n: "n \<le> work s1" "(step ^^ n) s1 s'" "final s'"
      using less.hyps [OF lt inv_step [OF less.prems s1]] by blast
    then have "(step ^^ Suc n) s s'" using s1 relpowp_Suc_I2 by metis
    with n(1,3) lt show ?thesis by (intro exI [of _ "Suc n"]) auto
  qed
qed

end

section \<open>Ownership indexes\<close>

text \<open>
  An ownership index, by which sessions and lookups find the objects they hold: the two
  directions agree, an access adds pairs, a release removes one owner and reports the
  objects that are left without any.
\<close>

locale ownership_index =
  fixes inv :: "'s \<Rightarrow> bool"
    and owners :: "'s \<Rightarrow> 'k \<Rightarrow> 'o set"
    and owned :: "'s \<Rightarrow> 'o \<Rightarrow> 'k set"
    and access :: "'o \<Rightarrow> 'k list \<Rightarrow> 's \<Rightarrow> 's"
    and release :: "'o \<Rightarrow> 's \<Rightarrow> 'k set \<times> 's"
  assumes index: "inv s \<Longrightarrow> ow \<in> owners s k \<longleftrightarrow> k \<in> owned s ow"
    and inv_access: "inv s \<Longrightarrow> inv (access ow ks s)"
    and inv_release: "inv s \<Longrightarrow> inv (snd (release ow s))"
    and owned_access:
      "inv s \<Longrightarrow> owned (access ow ks s) ow' = owned s ow' \<union> (if ow' = ow then set ks else {})"
    and owned_release: "inv s \<Longrightarrow> owned (snd (release ow s)) ow' = owned s ow' - (if ow' = ow then UNIV else {})"
    and released: "inv s \<Longrightarrow> fst (release ow s) = {k. owners s k = {ow}}"
begin

lemma owners_access: "inv s \<Longrightarrow> owners (access ow ks s) k = owners s k \<union> {x. x = ow \<and> k \<in> set ks}"
  using index [of s] index [of "access ow ks s"]
  by (auto simp: inv_access owned_access split: if_splits)

lemma owners_release: "inv s \<Longrightarrow> owners (snd (release ow s)) k = owners s k - {ow}"
  using index [of s] index [of "snd (release ow s)"]
  by (auto simp: inv_release owned_release split: if_splits)

text \<open>Releasing what was just acquired by a new owner restores the relation.\<close>

lemma release_access:
  assumes "inv s" and "owned s ow = {}"
  shows "owned (snd (release ow (access ow ks s))) = owned s"
  using assms by (auto simp: fun_eq_iff inv_access owned_release owned_access)

text \<open>Releasing a list of owners, collecting what each release reports.\<close>

lemma release_list:
  assumes "inv s"
  shows "inv (snd (fold (\<lambda>ow (u, s). (u \<union> fst (release ow s), snd (release ow s))) os (u, s)))"
    and "owners (snd (fold (\<lambda>ow (u, s). (u \<union> fst (release ow s), snd (release ow s))) os (u, s))) k
           = owners s k - set os"
    and "fst (fold (\<lambda>ow (u, s). (u \<union> fst (release ow s), snd (release ow s))) os (u, s))
           = u \<union> {k. owners s k \<noteq> {} \<and> owners s k \<subseteq> set os}"
proof -
  have "inv (snd (fold (\<lambda>ow (u, s). (u \<union> fst (release ow s), snd (release ow s))) os (u, s)))
      \<and> (\<forall>k. owners (snd (fold (\<lambda>ow (u, s). (u \<union> fst (release ow s), snd (release ow s))) os (u, s))) k
           = owners s k - set os)
      \<and> fst (fold (\<lambda>ow (u, s). (u \<union> fst (release ow s), snd (release ow s))) os (u, s))
           = u \<union> {k. owners s k \<noteq> {} \<and> owners s k \<subseteq> set os}"
    using assms
  proof (induction os arbitrary: u s)
    case (Cons ow os)
    have "inv (snd (release ow s))" using Cons.prems by (rule inv_release)
    from Cons.IH [OF this, of "u \<union> fst (release ow s)"] Cons.prems show ?case
      by (auto simp: owners_release released)
  qed auto
  then show "inv (snd (fold (\<lambda>ow (u, s). (u \<union> fst (release ow s), snd (release ow s))) os (u, s)))"
    and "owners (snd (fold (\<lambda>ow (u, s). (u \<union> fst (release ow s), snd (release ow s))) os (u, s))) k
           = owners s k - set os"
    and "fst (fold (\<lambda>ow (u, s). (u \<union> fst (release ow s), snd (release ow s))) os (u, s))
           = u \<union> {k. owners s k \<noteq> {} \<and> owners s k \<subseteq> set os}"
    by blast+
qed

end

end
