(* ===== verification/Residency.thy ===== *)
theory Residency
  imports Tiering_Prelude
begin

text \<open>
  \<open>residency.py\<close>: \<open>BlockResidencyState\<close> and \<open>BlockResidencyTracker\<close>, the block-level
  residency, transfer and ownership metadata of the tiering layer. The tracker is a record
  of its Python attributes; every method is a function that takes the clock readings it
  makes, its arguments and the tracker, and returns the new tracker (and its result).
\<close>

section \<open>State\<close>

record block_residency_state =
  brs_key :: offload_key
  cpu_resident :: bool
  secondary_tiers :: "string set"
  session_ids :: "session_id set"
  inflight_transfers :: "((string \<times> string) \<times> int) list"
  created_at :: instant
  last_access_at :: instant
  idle_since :: "instant option"
  access_count :: int

definition is_shared :: "block_residency_state \<Rightarrow> bool" where
  "is_shared st \<longleftrightarrow> 1 < card (session_ids st)"

definition has_secondary_copy_state :: "block_residency_state \<Rightarrow> bool" where
  "has_secondary_copy_state st \<longleftrightarrow> secondary_tiers st \<noteq> {}"

definition has_inflight_transfer :: "block_residency_state \<Rightarrow> bool" where
  "has_inflight_transfer st \<longleftrightarrow> inflight_transfers st \<noteq> []"

record tracker =
  max_entries :: int
  blocks :: "(offload_key \<times> block_residency_state) list"
  session_keys :: "(session_id \<times> offload_key set) list"
  active_sessions :: "session_id set"

definition make_tracker :: "int \<Rightarrow> tracker result" where
  "make_tracker n =
     (if n \<le> 0 then Inl (ValueError ''residency_max_entries must be greater than zero'')
      else Inr \<lparr>max_entries = n, blocks = [], session_keys = [], active_sessions = {}\<rparr>)"

definition has_active_session :: "tracker \<Rightarrow> block_residency_state \<Rightarrow> bool" where
  "has_active_session t st \<longleftrightarrow> session_ids st \<inter> active_sessions t \<noteq> {}"

definition new_block :: "offload_key \<Rightarrow> instant \<Rightarrow> block_residency_state" where
  "new_block k now =
     \<lparr>brs_key = k, cpu_resident = False, secondary_tiers = {}, session_ids = {},
      inflight_transfers = [], created_at = now, last_access_at = now,
      idle_since = None, access_count = 0\<rparr>"

definition get_or_create :: "offload_key \<Rightarrow> instant \<Rightarrow> tracker \<Rightarrow> block_residency_state \<times> tracker" where
  "get_or_create k now t =
     (case map_of (blocks t) k of
        Some st \<Rightarrow> (st, t)
      | None \<Rightarrow>
          let st = new_block k now
          in (st, t\<lparr>blocks := AList.update k st (blocks t)\<rparr>))"

text \<open>The methods fetch a state with \<open>_get_or_create\<close> and then mutate it in place.\<close>

definition mutate_block ::
  "offload_key \<Rightarrow> instant \<Rightarrow> (block_residency_state \<Rightarrow> block_residency_state) \<Rightarrow> tracker \<Rightarrow> tracker"
where
  "mutate_block k now f t =
     (let (st, t') = get_or_create k now t
      in t'\<lparr>blocks := AList.update k (f st) (blocks t')\<rparr>)"

section \<open>Operations\<close>

definition get_session_keys :: "tracker \<Rightarrow> session_id \<Rightarrow> offload_key set" where
  "get_session_keys t sid = dict_get (session_keys t) sid {}"

definition on_session_active :: "instant \<Rightarrow> session_id \<Rightarrow> tracker \<Rightarrow> tracker" where
  "on_session_active now sid t =
     (let t = t\<lparr>active_sessions := insert sid (active_sessions t)\<rparr>
      in t\<lparr>blocks := dict_map (\<lambda>k st.
             if k \<in> get_session_keys t sid
             then st\<lparr>idle_since := None, last_access_at := now\<rparr> else st) (blocks t)\<rparr>)"

definition on_session_idle :: "instant \<Rightarrow> session_id \<Rightarrow> tracker \<Rightarrow> tracker" where
  "on_session_idle now sid t =
     (let t = t\<lparr>active_sessions := active_sessions t - {sid}\<rparr>
      in t\<lparr>blocks := dict_map (\<lambda>k st.
             if k \<in> get_session_keys t sid \<and> \<not> has_active_session t st
             then st\<lparr>idle_since := Some now\<rparr> else st) (blocks t)\<rparr>)"

definition record_access_key :: "session_id \<Rightarrow> instant \<Rightarrow> offload_key \<Rightarrow> tracker \<Rightarrow> tracker" where
  "record_access_key sid now k t =
     (let t' = mutate_block k now (\<lambda>st.
            st\<lparr>session_ids := insert sid (session_ids st),
               last_access_at := now,
               access_count := access_count st + 1,
               idle_since := (if sid \<in> active_sessions t then None else idle_since st)\<rparr>) t
      in t'\<lparr>session_keys :=
             AList.update sid (insert k (get_session_keys t' sid)) (session_keys t')\<rparr>)"

definition record_access :: "instant \<Rightarrow> session_id \<Rightarrow> offload_key list \<Rightarrow> tracker \<Rightarrow> tracker" where
  "record_access now sid keys t =
     fold (record_access_key sid now) keys
       (t\<lparr>session_keys := setdefault sid {} (session_keys t)\<rparr>)"

text \<open>
  The body of \<open>release_session\<close> for one block of the session, after the session is no
  longer active. \<open>state.idle_since or now\<close> also replaces an idle time of \<open>0.0\<close>.
\<close>

definition release_block ::
  "session_id \<Rightarrow> instant \<Rightarrow> tracker \<Rightarrow> block_residency_state \<Rightarrow> block_residency_state" where
  "release_block sid now t st =
     (let st = st\<lparr>session_ids := session_ids st - {sid}\<rparr>
      in if session_ids st = {} then st\<lparr>idle_since := Some (float_or (idle_since st) now)\<rparr>
         else if \<not> has_active_session t st
         then st\<lparr>idle_since := Some (float_or (idle_since st) now)\<rparr>
         else st)"

definition release_session :: "instant \<Rightarrow> session_id \<Rightarrow> tracker \<Rightarrow> offload_key set \<times> tracker" where
  "release_session now sid t =
     (let keys = get_session_keys t sid;
          t = t\<lparr>active_sessions := active_sessions t - {sid},
                session_keys := AList.delete sid (session_keys t)\<rparr>;
          unreferenced = {k \<in> keys. case map_of (blocks t) k of
                            None \<Rightarrow> False
                          | Some st \<Rightarrow> session_ids st - {sid} = {}}
      in (unreferenced,
          t\<lparr>blocks := dict_map (\<lambda>k st. if k \<in> keys then release_block sid now t st else st)
                        (blocks t)\<rparr>))"

definition mark_cpu_resident :: "instant \<Rightarrow> offload_key list \<Rightarrow> bool \<Rightarrow> tracker \<Rightarrow> tracker" where
  "mark_cpu_resident now keys resident t =
     fold (\<lambda>k. mutate_block k now (\<lambda>st. st\<lparr>cpu_resident := resident\<rparr>)) keys t"

definition mark_secondary_resident ::
  "instant \<Rightarrow> offload_key list \<Rightarrow> string \<Rightarrow> bool \<Rightarrow> tracker \<Rightarrow> tracker" where
  "mark_secondary_resident now keys tier resident t =
     fold (\<lambda>k. mutate_block k now (\<lambda>st.
         st\<lparr>secondary_tiers := (if resident then insert tier (secondary_tiers st)
                                 else secondary_tiers st - {tier})\<rparr>)) keys t"

definition start_transfer :: "instant \<Rightarrow> offload_key list \<Rightarrow> string \<Rightarrow> string \<Rightarrow> tracker \<Rightarrow> tracker" where
  "start_transfer now keys source target t =
     fold (\<lambda>k. mutate_block k now (\<lambda>st.
         st\<lparr>inflight_transfers :=
              AList.update (source, target)
                (dict_get (inflight_transfers st) (source, target) 0 + 1)
                (inflight_transfers st)\<rparr>)) keys t"

definition finish_block :: "string \<times> string \<Rightarrow> block_residency_state \<Rightarrow> block_residency_state" where
  "finish_block transfer st =
     (let count = dict_get (inflight_transfers st) transfer 0
      in if count \<le> 1
         then st\<lparr>inflight_transfers := AList.delete transfer (inflight_transfers st)\<rparr>
         else st\<lparr>inflight_transfers :=
                AList.update transfer (count - 1) (inflight_transfers st)\<rparr>)"

definition finish_transfer_key :: "string \<times> string \<Rightarrow> offload_key \<Rightarrow> tracker \<Rightarrow> tracker" where
  "finish_transfer_key transfer k t =
     (case map_of (blocks t) k of
        None \<Rightarrow> t
      | Some st \<Rightarrow> t\<lparr>blocks := AList.update k (finish_block transfer st) (blocks t)\<rparr>)"

definition finish_transfer :: "offload_key list \<Rightarrow> string \<Rightarrow> string \<Rightarrow> tracker \<Rightarrow> tracker" where
  "finish_transfer keys source target t = fold (finish_transfer_key (source, target)) keys t"

definition clear_cpu_residency :: "tracker \<Rightarrow> tracker" where
  "clear_cpu_residency t = t\<lparr>blocks := dict_map (\<lambda>_ st. st\<lparr>cpu_resident := False\<rparr>) (blocks t)\<rparr>"

section \<open>Queries\<close>

definition block_states :: "tracker \<Rightarrow> block_residency_state list" where
  "block_states t = map snd (blocks t)"

definition idle_cpu_block :: "tracker \<Rightarrow> block_residency_state \<Rightarrow> bool" where
  "idle_cpu_block t st \<longleftrightarrow>
     cpu_resident st \<and> has_secondary_copy_state st \<and> \<not> has_inflight_transfer st \<and>
     \<not> has_active_session t st \<and> \<not> is_shared st \<and> idle_since st \<noteq> None"

definition get_idle_cpu_candidates :: "int \<Rightarrow> instant option \<Rightarrow> tracker \<Rightarrow> offload_key list" where
  "get_idle_cpu_candidates limit idle_before t =
     (let candidates = filter (\<lambda>st. idle_cpu_block t st \<and>
            (case idle_before of None \<Rightarrow> True | Some b \<Rightarrow> the (idle_since st) \<le> b)) (block_states t);
          candidates = sort_key (\<lambda>st. (float_or (idle_since st) 0, last_access_at st)) candidates
      in map brs_key (py_take limit candidates))"

definition pressure_candidate ::
  "tracker \<Rightarrow> instant option \<Rightarrow> bool \<Rightarrow> block_residency_state \<Rightarrow> bool" where
  "pressure_candidate t idle_before include_active st \<longleftrightarrow>
     cpu_resident st \<and> \<not> has_inflight_transfer st \<and>
     (case idle_before of None \<Rightarrow> True
      | Some b \<Rightarrow> (case idle_since st of None \<Rightarrow> False | Some i \<Rightarrow> i \<le> b)) \<and>
     (include_active \<or> \<not> has_active_session t st)"

definition pressure_key ::
  "tracker \<Rightarrow> block_residency_state \<Rightarrow> bool \<times> bool \<times> int \<times> bool \<times> instant \<times> instant" where
  "pressure_key t st =
     (has_active_session t st, is_shared st, access_count st, idle_since st = None,
      float_or (idle_since st) (last_access_at st), last_access_at st)"

definition get_cpu_pressure_candidates ::
  "int \<Rightarrow> instant option \<Rightarrow> bool \<Rightarrow> tracker \<Rightarrow> offload_key list" where
  "get_cpu_pressure_candidates limit idle_before include_active t =
     (let candidates = filter (pressure_candidate t idle_before include_active) (block_states t);
          candidates = sort_key (pressure_key t) candidates
      in map brs_key (py_take limit candidates))"

definition has_secondary_copy :: "tracker \<Rightarrow> offload_key \<Rightarrow> bool" where
  "has_secondary_copy t k =
     (case map_of (blocks t) k of None \<Rightarrow> False | Some st \<Rightarrow> has_secondary_copy_state st)"

definition is_known :: "tracker \<Rightarrow> offload_key \<Rightarrow> bool" where
  "is_known t k =
     (case map_of (blocks t) k of None \<Rightarrow> False
      | Some st \<Rightarrow> cpu_resident st \<or> has_secondary_copy_state st \<or> has_inflight_transfer st)"

definition has_idle_cpu_blocks :: "tracker \<Rightarrow> bool" where
  "has_idle_cpu_blocks t \<longleftrightarrow> list_ex (idle_cpu_block t) (block_states t)"

definition get_inflight_keys :: "tracker \<Rightarrow> offload_key set" where
  "get_inflight_keys t = set (map brs_key (filter has_inflight_transfer (block_states t)))"

record residency_snapshot =
  tracked_blocks :: int
  cpu_blocks :: int
  secondary_blocks :: "string \<Rightarrow> int"
  shared_blocks :: int
  active_blocks :: int

definition snapshot :: "tracker \<Rightarrow> residency_snapshot" where
  "snapshot t =
     (let states = block_states t; count = (\<lambda>P. int (length (filter P states)))
      in \<lparr>tracked_blocks = int (length (blocks t)),
          cpu_blocks = count cpu_resident,
          secondary_blocks = (\<lambda>tier. count (\<lambda>st. tier \<in> secondary_tiers st)),
          shared_blocks = count is_shared,
          active_blocks = count (has_active_session t)\<rparr>)"

definition prunable :: "block_residency_state \<Rightarrow> bool" where
  "prunable st \<longleftrightarrow> session_ids st = {} \<and> \<not> cpu_resident st \<and> \<not> has_inflight_transfer st"

definition prune :: "tracker \<Rightarrow> int \<times> tracker" where
  "prune t =
     (let excess = int (length (blocks t)) - max_entries t
      in if excess \<le> 0 then (0, t)
         else
           let candidates = sort_key last_access_at (filter prunable (block_states t))
           in (min excess (int (length candidates)),
               t\<lparr>blocks := fold (\<lambda>st. AList.delete (brs_key st)) (py_take excess candidates)
                             (blocks t)\<rparr>))"


section \<open>The ownership relation\<close>

text \<open>
  The tracker keeps the relation "session uses block" twice: per block in
  \<open>session_ids\<close> and per session in \<open>_session_keys\<close>.
\<close>

definition owners :: "tracker \<Rightarrow> offload_key \<Rightarrow> session_id set" where
  "owners t k = (case map_of (blocks t) k of None \<Rightarrow> {} | Some st \<Rightarrow> session_ids st)"

section \<open>The tracker's invariant\<close>

definition counts_ok :: "('a \<times> int) list \<Rightarrow> bool" where
  "counts_ok m \<longleftrightarrow> distinct (map fst m) \<and> (\<forall>tr c. map_of m tr = Some c \<longrightarrow> 1 \<le> c)"

lemma counts_ok_Nil [simp]: "counts_ok []"
  by (simp add: counts_ok_def)

lemma counts_ok_get: "counts_ok m \<Longrightarrow> 0 \<le> dict_get m tr 0"
  unfolding counts_ok_def dict_get_def by (auto split: option.splits) force

lemma counts_ok_update [intro]: "counts_ok m \<Longrightarrow> 1 \<le> c \<Longrightarrow> counts_ok (AList.update tr c m)"
  unfolding counts_ok_def by (simp add: map_of_update distinct_update)

lemma counts_ok_incr [simp]:
  "counts_ok m \<Longrightarrow> counts_ok (AList.update tr (dict_get m tr 0 + 1) m)"
  using counts_ok_get [of m tr] by (intro counts_ok_update) auto

lemma counts_ok_delete [intro]: "counts_ok m \<Longrightarrow> counts_ok (AList.delete tr m)"
  unfolding counts_ok_def by (simp add: map_of_delete_key distinct_delete)

definition block_ok :: "session_id set \<Rightarrow> offload_key \<Rightarrow> block_residency_state \<Rightarrow> bool" where
  "block_ok active k st \<longleftrightarrow>
     brs_key st = k \<and> finite (session_ids st) \<and> 0 \<le> access_count st \<and>
     (session_ids st \<inter> active \<noteq> {} \<longrightarrow> idle_since st = None) \<and>
     counts_ok (inflight_transfers st)"

definition tracker_inv :: "tracker \<Rightarrow> bool" where
  "tracker_inv t \<longleftrightarrow>
     0 < max_entries t \<and> distinct (map fst (blocks t)) \<and> distinct (map fst (session_keys t)) \<and>
     (\<forall>k st. map_of (blocks t) k = Some st \<longrightarrow> block_ok (active_sessions t) k st) \<and>
     (\<forall>sid k. sid \<in> owners t k \<longleftrightarrow> k \<in> get_session_keys t sid)"

lemma tracker_invI:
  assumes "0 < max_entries t" "distinct (map fst (blocks t))" "distinct (map fst (session_keys t))"
    and "\<And>k st. map_of (blocks t) k = Some st \<Longrightarrow> block_ok (active_sessions t) k st"
    and "\<And>sid k. sid \<in> owners t k \<longleftrightarrow> k \<in> get_session_keys t sid"
  shows "tracker_inv t"
  using assms by (simp add: tracker_inv_def)

lemma tracker_invD:
  assumes "tracker_inv t"
  shows "0 < max_entries t" "distinct (map fst (blocks t))" "distinct (map fst (session_keys t))"
    and "map_of (blocks t) k = Some st \<Longrightarrow> block_ok (active_sessions t) k st"
    and "sid \<in> owners t k \<longleftrightarrow> k \<in> get_session_keys t sid"
  using assms by (simp_all add: tracker_inv_def)

lemma make_tracker_inv: "make_tracker n = Inr t \<Longrightarrow> tracker_inv t"
  by (auto simp: make_tracker_def tracker_inv_def owners_def get_session_keys_def dict_get_def
      split: if_splits)

lemma block_ok_new: "block_ok active k (new_block k now)"
  by (simp add: block_ok_def new_block_def)

definition block_at :: "tracker \<Rightarrow> instant \<Rightarrow> offload_key \<Rightarrow> block_residency_state" where
  "block_at t now k = (case map_of (blocks t) k of None \<Rightarrow> new_block k now | Some st \<Rightarrow> st)"

lemma block_at_ok: "tracker_inv t \<Longrightarrow> block_ok (active_sessions t) k (block_at t now k)"
  by (auto simp: block_at_def block_ok_new dest: tracker_invD(4) split: option.splits)

lemma session_ids_block_at: "session_ids (block_at t now k) = owners t k"
  by (simp add: block_at_def owners_def new_block_def split: option.splits)

lemma mutate_block_fields [simp]:
  "max_entries (mutate_block k now f t) = max_entries t"
  "session_keys (mutate_block k now f t) = session_keys t"
  "active_sessions (mutate_block k now f t) = active_sessions t"
  "get_session_keys (mutate_block k now f t) sid = get_session_keys t sid"
  by (simp_all add: mutate_block_def get_or_create_def get_session_keys_def Let_def
      split: option.splits)

lemma map_of_mutate_block [dict_simps]:
  "map_of (blocks (mutate_block k now f t)) k' =
     (if k' = k then Some (f (block_at t now k)) else map_of (blocks t) k')"
  by (simp add: mutate_block_def get_or_create_def block_at_def Let_def dict_simps
      split: option.splits)

lemma distinct_mutate_block [dict_simps]:
  "distinct (map fst (blocks t)) \<Longrightarrow> distinct (map fst (blocks (mutate_block k now f t)))"
  by (simp add: mutate_block_def get_or_create_def Let_def dict_simps split: option.splits)

lemma owners_mutate_block:
  "owners (mutate_block k now f t) k' =
     (if k' = k then session_ids (f (block_at t now k)) else owners t k')"
  by (simp add: owners_def dict_simps)

text \<open>A mutation that leaves the ownership alone and keeps the block well-formed.\<close>

lemma mutate_block_inv:
  assumes "tracker_inv t"
    and "\<And>st. block_ok (active_sessions t) k st \<Longrightarrow>
           block_ok (active_sessions t) k (f st) \<and> session_ids (f st) = session_ids st"
  shows "tracker_inv (mutate_block k now f t)"
proof (rule tracker_invI)
  have ok: "block_ok (active_sessions t) k (f (block_at t now k))"
    and ids: "session_ids (f (block_at t now k)) = owners t k"
    using assms(2) [OF block_at_ok [OF assms(1)]] by (simp_all add: session_ids_block_at)
  show "block_ok (active_sessions (mutate_block k now f t)) k' st"
    if "map_of (blocks (mutate_block k now f t)) k' = Some st" for k' st
    using that ok tracker_invD(4) [OF assms(1), of k' st] by (auto simp: dict_simps split: if_splits)
  show "sid \<in> owners (mutate_block k now f t) k' \<longleftrightarrow> k' \<in> get_session_keys (mutate_block k now f t) sid"
    for sid k'
    using tracker_invD(5) [OF assms(1)] by (simp add: owners_mutate_block ids)
qed (use assms(1) in \<open>simp_all add: tracker_invD(1-3) dict_simps\<close>)

lemma mark_cpu_resident_inv: "tracker_inv t \<Longrightarrow> tracker_inv (mark_cpu_resident now keys b t)"
  unfolding mark_cpu_resident_def
  by (rule fold_invariant [where Q = "\<lambda>_. True"])
     (auto intro!: mutate_block_inv simp: block_ok_def)

lemma mark_secondary_resident_inv:
  "tracker_inv t \<Longrightarrow> tracker_inv (mark_secondary_resident now keys tier b t)"
  unfolding mark_secondary_resident_def
  by (rule fold_invariant [where Q = "\<lambda>_. True"])
     (auto intro!: mutate_block_inv simp: block_ok_def)

lemma start_transfer_inv: "tracker_inv t \<Longrightarrow> tracker_inv (start_transfer now keys source target t)"
  unfolding start_transfer_def
  by (rule fold_invariant [where Q = "\<lambda>_. True"])
     (auto intro!: mutate_block_inv simp: block_ok_def)

text \<open>An in-place rewrite of existing blocks, with the ownership left alone.\<close>

lemma update_block_inv:
  assumes "tracker_inv t" and "map_of (blocks t) k = Some st"
    and "block_ok (active_sessions t) k st'" and "session_ids st' = session_ids st"
  shows "tracker_inv (t\<lparr>blocks := AList.update k st' (blocks t)\<rparr>)"
proof (rule tracker_invI)
  have "owners (t\<lparr>blocks := AList.update k st' (blocks t)\<rparr>) k' = owners t k'" for k'
    using assms(2,4) by (simp add: owners_def map_of_update)
  then show "sid \<in> owners (t\<lparr>blocks := AList.update k st' (blocks t)\<rparr>) k' \<longleftrightarrow>
      k' \<in> get_session_keys (t\<lparr>blocks := AList.update k st' (blocks t)\<rparr>) sid" for sid k'
    using tracker_invD(5) [OF assms(1), of sid k'] by (simp add: get_session_keys_def)
  show "block_ok (active_sessions (t\<lparr>blocks := AList.update k st' (blocks t)\<rparr>)) k' st''"
    if "map_of (blocks (t\<lparr>blocks := AList.update k st' (blocks t)\<rparr>)) k' = Some st''" for k' st''
    using that assms(3) tracker_invD(4) [OF assms(1), of k' st''] by (simp add: dict_simps split: if_splits)
qed (use tracker_invD(1-3) [OF assms(1)] in \<open>simp_all add: dict_simps\<close>)

lemma finish_block_ok: "block_ok active k st \<Longrightarrow> block_ok active k (finish_block tr st)"
  by (auto simp: block_ok_def finish_block_def Let_def)

lemma session_ids_finish_block [simp]: "session_ids (finish_block tr st) = session_ids st"
  by (simp add: finish_block_def Let_def)

lemma finish_transfer_key_inv: "tracker_inv t \<Longrightarrow> tracker_inv (finish_transfer_key tr k t)"
  unfolding finish_transfer_key_def
  by (auto split: option.splits intro!: update_block_inv finish_block_ok dest: tracker_invD(4))

lemma finish_transfer_inv: "tracker_inv t \<Longrightarrow> tracker_inv (finish_transfer keys source target t)"
  unfolding finish_transfer_def
  by (rule fold_invariant [where Q = "\<lambda>_. True"]) (auto intro: finish_transfer_key_inv)


text \<open>Rewriting every block in place, together with a change of the active sessions.\<close>

lemma rewrite_blocks_inv:
  assumes inv: "tracker_inv t"
    and ok: "\<And>k st. map_of (blocks t) k = Some st \<Longrightarrow> block_ok A k (f k st) \<and> session_ids (f k st) = session_ids st"
  shows "tracker_inv (t\<lparr>active_sessions := A, blocks := dict_map f (blocks t)\<rparr>)"
proof (rule tracker_invI)
  let ?t = "t\<lparr>active_sessions := A, blocks := dict_map f (blocks t)\<rparr>"
  have "owners ?t k = owners t k" for k
    using ok by (auto simp: owners_def dict_simps split: option.splits)
  then show "sid \<in> owners ?t k \<longleftrightarrow> k \<in> get_session_keys ?t sid" for sid k
    using tracker_invD(5) [OF inv, of sid k] by (simp add: get_session_keys_def)
qed (use tracker_invD(1-3) [OF inv] ok in \<open>auto simp: dict_simps\<close>)

lemma on_session_active_inv: "tracker_inv t \<Longrightarrow> tracker_inv (on_session_active now sid t)"
proof -
  assume inv: "tracker_inv t"
  show ?thesis
    unfolding on_session_active_def Let_def
    by (simp, rule rewrite_blocks_inv [OF inv])
       (use tracker_invD(4,5) [OF inv] in
         \<open>force simp: block_ok_def get_session_keys_def owners_def split: option.splits\<close>)
qed

lemma on_session_idle_inv: "tracker_inv t \<Longrightarrow> tracker_inv (on_session_idle now sid t)"
proof -
  assume inv: "tracker_inv t"
  show ?thesis
    unfolding on_session_idle_def Let_def
    by (simp, rule rewrite_blocks_inv [OF inv])
       (use tracker_invD(4) [OF inv] in \<open>force simp: block_ok_def has_active_session_def\<close>)
qed

lemma clear_cpu_residency_inv: "tracker_inv t \<Longrightarrow> tracker_inv (clear_cpu_residency t)"
proof -
  assume inv: "tracker_inv t"
  have "clear_cpu_residency t = t\<lparr>active_sessions := active_sessions t,
      blocks := dict_map (\<lambda>_ st. st\<lparr>cpu_resident := False\<rparr>) (blocks t)\<rparr>"
    by (simp add: clear_cpu_residency_def)
  then show ?thesis
    using rewrite_blocks_inv [OF inv, of "active_sessions t" "\<lambda>_ st. st\<lparr>cpu_resident := False\<rparr>"]
      tracker_invD(4) [OF inv] by (simp add: block_ok_def)
qed

lemma record_access_key_inv: "tracker_inv t \<Longrightarrow> tracker_inv (record_access_key sid now k t)"
proof -
  assume inv: "tracker_inv t"
  let ?f = "\<lambda>st. st\<lparr>session_ids := insert sid (session_ids st), last_access_at := now,
       access_count := access_count st + 1,
       idle_since := (if sid \<in> active_sessions t then None else idle_since st)\<rparr>"
  let ?m = "mutate_block k now ?f t"
  have eq: "record_access_key sid now k t = ?m\<lparr>session_keys :=
      AList.update sid (insert k (get_session_keys t sid)) (session_keys t)\<rparr>"
    by (simp add: record_access_key_def)
  show ?thesis
    unfolding eq
  proof (rule tracker_invI)
    let ?t = "?m\<lparr>session_keys := AList.update sid (insert k (get_session_keys t sid)) (session_keys t)\<rparr>"
    have "block_ok (active_sessions t) k (?f (block_at t now k))"
      using block_at_ok [OF inv, of k now] by (auto simp: block_ok_def)
    then show "block_ok (active_sessions ?t) k' st" if "map_of (blocks ?t) k' = Some st" for k' st
      using that tracker_invD(4) [OF inv] by (auto simp: dict_simps split: if_splits)
    have "owners ?t k' = owners ?m k'" for k' by (simp add: owners_def)
    then show "sid' \<in> owners ?t k' \<longleftrightarrow> k' \<in> get_session_keys ?t sid'" for sid' k'
      using tracker_invD(5) [OF inv, of sid' k'] tracker_invD(5) [OF inv, of sid' k]
      by (auto simp: owners_mutate_block session_ids_block_at get_session_keys_def dict_simps)
  qed (use inv in \<open>simp_all add: tracker_invD(1-3) dict_simps\<close>)
qed

lemma setdefault_inv: "tracker_inv t \<Longrightarrow> tracker_inv (t\<lparr>session_keys := setdefault sid {} (session_keys t)\<rparr>)"
  unfolding tracker_inv_def by (simp add: owners_def get_session_keys_def dict_simps)

lemma record_access_inv: "tracker_inv t \<Longrightarrow> tracker_inv (record_access now sid keys t)"
  unfolding record_access_def
  by (rule fold_invariant [where Q = "\<lambda>_. True"]) (auto intro: record_access_key_inv setdefault_inv)

lemma get_session_keys_record_access_key:
  "get_session_keys (record_access_key sid now k t) sid' =
     (if sid' = sid then insert k (get_session_keys t sid) else get_session_keys t sid')"
proof -
  have "session_keys (record_access_key sid now k t) =
      AList.update sid (insert k (get_session_keys t sid)) (session_keys t)"
    by (simp add: record_access_key_def Let_def)
  then show ?thesis by (simp add: get_session_keys_def dict_simps)
qed

lemma get_session_keys_record_access:
  "get_session_keys (record_access now sid keys t) sid' =
     get_session_keys t sid' \<union> (if sid' = sid then set keys else {})"
proof -
  have "get_session_keys (fold (record_access_key sid now) keys t) sid' =
      get_session_keys t sid' \<union> (if sid' = sid then set keys else {})" for t
    by (induction keys arbitrary: t) (auto simp: get_session_keys_record_access_key)
  then show ?thesis
    by (simp add: record_access_def) (simp add: get_session_keys_def dict_simps)
qed

lemma release_block_ids [simp]: "session_ids (release_block sid now t st) = session_ids st - {sid}"
  by (simp add: release_block_def Let_def)

lemma release_block_session_keys [simp]:
  "release_block sid now (t\<lparr>active_sessions := A, session_keys := m\<rparr>) st =
     release_block sid now (t\<lparr>active_sessions := A\<rparr>) st"
  by (simp add: release_block_def has_active_session_def Let_def)

lemma release_session_fields:
  "session_keys (snd (release_session now sid t)) = AList.delete sid (session_keys t)"
  "active_sessions (snd (release_session now sid t)) = active_sessions t - {sid}"
  "max_entries (snd (release_session now sid t)) = max_entries t"
  "map_of (blocks (snd (release_session now sid t))) k =
     map_option (\<lambda>st. if k \<in> get_session_keys t sid
        then release_block sid now (t\<lparr>active_sessions := active_sessions t - {sid}\<rparr>) st else st)
       (map_of (blocks t) k)"
  "map fst (blocks (snd (release_session now sid t))) = map fst (blocks t)"
  by (simp_all add: release_session_def Let_def dict_simps cong: if_cong)

lemma release_block_ok:
  "block_ok A k st \<Longrightarrow>
     block_ok (A - {sid}) k (release_block sid now (t\<lparr>active_sessions := A - {sid}\<rparr>) st)"
  by (auto simp: block_ok_def release_block_def Let_def has_active_session_def)

lemma owners_release_session:
  assumes "tracker_inv t"
  shows "owners (snd (release_session now sid t)) k = owners t k - {sid}"
  using tracker_invD(5) [OF assms, of sid k]
  by (auto simp: owners_def release_session_fields split: option.splits)

lemma get_session_keys_release:
  "get_session_keys (snd (release_session now sid t)) sid' =
     get_session_keys t sid' - (if sid' = sid then UNIV else {})"
  by (simp add: get_session_keys_def release_session_fields dict_simps)

lemma release_session_inv: "tracker_inv t \<Longrightarrow> tracker_inv (snd (release_session now sid t))"
proof (rule tracker_invI)
  assume inv: "tracker_inv t"
  show "block_ok (active_sessions (snd (release_session now sid t))) k st"
    if "map_of (blocks (snd (release_session now sid t))) k = Some st" for k st
  proof -
    from that obtain st0 where st0: "map_of (blocks t) k = Some st0"
      and st: "st = (if k \<in> get_session_keys t sid
         then release_block sid now (t\<lparr>active_sessions := active_sessions t - {sid}\<rparr>) st0 else st0)"
      by (auto simp: release_session_fields)
    have ok: "block_ok (active_sessions t) k st0" using tracker_invD(4) [OF inv] st0 by blast
    from tracker_invD(5) [OF inv, of sid k] st0
    have "sid \<in> session_ids st0 \<longleftrightarrow> k \<in> get_session_keys t sid" by (simp add: owners_def)
    with ok st show ?thesis
      by (auto simp: release_session_fields release_block_ok) (auto simp: block_ok_def)
  qed
  show "sid' \<in> owners (snd (release_session now sid t)) k \<longleftrightarrow>
      k \<in> get_session_keys (snd (release_session now sid t)) sid'" for sid' k
    using tracker_invD(5) [OF inv, of sid' k]
    by (simp add: owners_release_session [OF inv] get_session_keys_release)
qed (simp_all add: tracker_invD(1-3) release_session_fields dict_simps)

lemma fst_release_session:
  assumes "tracker_inv t"
  shows "fst (release_session now sid t) = {k. owners t k = {sid}}"
proof -
  have "k \<in> fst (release_session now sid t) \<longleftrightarrow> owners t k = {sid}" for k
  proof -
    have "k \<in> fst (release_session now sid t) \<longleftrightarrow>
        k \<in> get_session_keys t sid \<and> map_of (blocks t) k \<noteq> None \<and> owners t k - {sid} = {}"
      by (auto simp: release_session_def Let_def owners_def split: option.splits)
    with tracker_invD(5) [OF assms, of sid k] show ?thesis
      by (auto simp: owners_def split: option.splits)
  qed
  then show ?thesis by blast
qed

text \<open>The tracker provides the ownership index; each release reads the clock once.\<close>

interpretation trk: ownership_index tracker_inv owners get_session_keys
  "record_access now" "\<lambda>sid. release_session (clk sid) sid" for now clk
proof (unfold_locales, goal_cases)
  case (1 s ow k)
  then show ?case by (rule tracker_invD(5))
next
  case (2 s ow ks)
  then show ?case by (rule record_access_inv)
next
  case (3 s ow)
  then show ?case by (rule release_session_inv)
next
  case (4 s ow ks ow')
  show ?case by (rule get_session_keys_record_access)
next
  case (5 s ow ow')
  show ?case by (rule get_session_keys_release)
next
  case (6 s ow)
  then show ?case by (rule fst_release_session)
qed

end
