(* ===== verification/Residency_Policy.thy ===== *)
theory Residency_Policy
  imports Residency
begin

text \<open>
  What the tracker's operations promise: the invariant over any sequence of operations,
  the reference count of transfers, and the selections that the tiering policy acts on
  (idle CPU blocks, blocks under CPU pressure, metadata to prune).
\<close>

section \<open>Operations as steps\<close>

datatype tracker_op =
    SessionActive instant session_id
  | SessionIdle instant session_id
  | RecordAccess instant session_id "offload_key list"
  | ReleaseSession instant session_id
  | MarkCpuResident instant "offload_key list" bool
  | MarkSecondaryResident instant "offload_key list" string bool
  | StartTransfer instant "offload_key list" string string
  | FinishTransfer "offload_key list" string string
  | ClearCpuResidency
  | Prune

fun tracker_step :: "tracker_op \<Rightarrow> tracker \<Rightarrow> tracker" where
  "tracker_step (SessionActive now sid) t = on_session_active now sid t"
| "tracker_step (SessionIdle now sid) t = on_session_idle now sid t"
| "tracker_step (RecordAccess now sid ks) t = record_access now sid ks t"
| "tracker_step (ReleaseSession now sid) t = snd (release_session now sid t)"
| "tracker_step (MarkCpuResident now ks b) t = mark_cpu_resident now ks b t"
| "tracker_step (MarkSecondaryResident now ks tier b) t = mark_secondary_resident now ks tier b t"
| "tracker_step (StartTransfer now ks src tgt) t = start_transfer now ks src tgt t"
| "tracker_step (FinishTransfer ks src tgt) t = finish_transfer ks src tgt t"
| "tracker_step ClearCpuResidency t = clear_cpu_residency t"
| "tracker_step Prune t = snd (prune t)"

lemma brs_key_map_of:
  "tracker_inv t \<Longrightarrow> map_of (blocks t) k = Some st \<Longrightarrow> brs_key st = k"
  using tracker_invD(4) [of t k st] by (simp add: block_ok_def)

lemma block_states_iff:
  assumes "tracker_inv t"
  shows "st \<in> set (block_states t) \<longleftrightarrow> map_of (blocks t) (brs_key st) = Some st"
  using in_values_iff [OF tracker_invD(2) [OF assms], of st] brs_key_map_of [OF assms]
  by (auto simp: block_states_def)

lemma map_brs_key: "tracker_inv t \<Longrightarrow> map brs_key (block_states t) = map fst (blocks t)"
proof -
  assume inv: "tracker_inv t"
  have "brs_key (snd p) = fst p" if "p \<in> set (blocks t)" for p
    using that brs_key_map_of [OF inv, of "fst p" "snd p"] tracker_invD(2) [OF inv] by simp
  then show ?thesis by (simp add: block_states_def)
qed

lemma distinct_block_states:
  assumes "tracker_inv t"
  shows "distinct (map brs_key (block_states t))" "distinct (block_states t)"
proof -
  show "distinct (map brs_key (block_states t))"
    using tracker_invD(2) [OF assms] map_brs_key [OF assms] by simp
  then show "distinct (block_states t)" by (simp add: distinct_map)
qed

lemma inj_brs_key: "tracker_inv t \<Longrightarrow> inj_on brs_key (set (block_states t))"
  using distinct_block_states(1) by (simp add: distinct_map)

section \<open>Pruning\<close>

definition prune_victims :: "tracker \<Rightarrow> block_residency_state list" where
  "prune_victims t = py_take (int (length (blocks t)) - max_entries t)
     (sort_key last_access_at (filter prunable (block_states t)))"

lemma map_of_delete_all:
  "map_of (fold (\<lambda>x. AList.delete (f x)) xs d) k = (if k \<in> f ` set xs then None else map_of d k)"
  by (induction xs arbitrary: d) (auto simp: map_of_delete_key)

lemma distinct_delete_all:
  "distinct (map fst d) \<Longrightarrow> distinct (map fst (fold (\<lambda>x. AList.delete (f x)) xs d))"
  by (induction xs arbitrary: d) (auto simp: distinct_delete)

lemma delete_all_filter:
  "fold (\<lambda>x. AList.delete (f x)) xs d = filter (\<lambda>p. fst p \<notin> f ` set xs) d"
  by (induction xs arbitrary: d) (auto simp: AList.delete_eq conj_commute case_prod_beta' intro!: filter_cong)

lemma prune_eq:
  "prune t = (if int (length (blocks t)) \<le> max_entries t then (0, t)
     else (min (int (length (blocks t)) - max_entries t) (int (length (filter prunable (block_states t)))),
           t\<lparr>blocks := filter (\<lambda>p. fst p \<notin> brs_key ` set (prune_victims t)) (blocks t)\<rparr>))"
  by (simp add: prune_def prune_victims_def delete_all_filter Let_def)

lemma prune_victims_prunable:
  "st \<in> set (prune_victims t) \<Longrightarrow> prunable st \<and> st \<in> set (block_states t)"
  using py_take_sort_subset [of _ last_access_at "filter prunable (block_states t)"]
  by (auto simp: prune_victims_def)

lemma map_of_remove_keys:
  "map_of (filter (\<lambda>p. fst p \<notin> K) d) k = (if k \<in> K then None else map_of d k)"
  by (induction d) auto

lemma map_of_prune:
  "map_of (blocks (snd (prune t))) k =
     (if max_entries t < int (length (blocks t)) \<and> k \<in> brs_key ` set (prune_victims t)
      then None else map_of (blocks t) k)"
  by (simp add: prune_eq map_of_remove_keys)

lemma prune_fields [simp]:
  "max_entries (snd (prune t)) = max_entries t"
  "session_keys (snd (prune t)) = session_keys t"
  "active_sessions (snd (prune t)) = active_sessions t"
  by (simp_all add: prune_eq)

lemma victim_unowned:
  assumes "tracker_inv t" and "k \<in> brs_key ` set (prune_victims t)"
  shows "owners t k = {}"
proof -
  from assms(2) obtain st where st: "st \<in> set (prune_victims t)" "k = brs_key st" by blast
  then have "map_of (blocks t) k = Some st" "session_ids st = {}"
    using prune_victims_prunable [OF st(1)] block_states_iff [OF assms(1)] by (auto simp: prunable_def)
  then show ?thesis by (simp add: owners_def)
qed

lemma prune_inv: "tracker_inv t \<Longrightarrow> tracker_inv (snd (prune t))"
proof (rule tracker_invI)
  assume inv: "tracker_inv t"
  show "distinct (map fst (blocks (snd (prune t))))"
    using tracker_invD(2) [OF inv] by (auto simp: prune_eq distinct_map_filter)
  have "owners (snd (prune t)) k = owners t k" for k
    using victim_unowned [OF inv, of k] by (auto simp: owners_def map_of_prune)
  then show "sid \<in> owners (snd (prune t)) k \<longleftrightarrow> k \<in> get_session_keys (snd (prune t)) sid" for sid k
    using tracker_invD(5) [OF inv, of sid k] by (simp add: get_session_keys_def)
  show "block_ok (active_sessions (snd (prune t))) k st"
    if "map_of (blocks (snd (prune t))) k = Some st" for k st
    using that tracker_invD(4) [OF inv, of k st] by (simp add: map_of_prune split: if_splits)
qed (simp_all add: tracker_invD(1-3))

lemma tracker_step_inv: "tracker_inv t \<Longrightarrow> tracker_inv (tracker_step op t)"
  by (cases op)
     (simp_all add: on_session_active_inv on_session_idle_inv record_access_inv release_session_inv
       mark_cpu_resident_inv mark_secondary_resident_inv start_transfer_inv finish_transfer_inv
       clear_cpu_residency_inv prune_inv)

interpretation trk_run: guarded_component tracker_step tracker_inv "\<lambda>_. True"
  by unfold_locales (rule tracker_step_inv)

text \<open>C30: Whatever sequence of operations the tiering manager performs on a new tracker, the
  tracker stays well-formed: block keys are unique and match their entries, the per-block
  and per-session ownership indexes agree, transfer counts are positive, and a block that
  an active session uses is never marked idle.\<close>

theorem tracker_reachable_inv:
  assumes "make_tracker n = Inr t"
  shows "tracker_inv (fold tracker_step ops t)"
  by (rule trk_run.run_inv [OF make_tracker_inv [OF assms]]) (simp add: list_all_iff)

theorem tracker_reachable_inv_witness:
  "\<exists>t. make_tracker 4 = Inr t \<and>
     tracker_inv (fold tracker_step [RecordAccess 1 ''s'' [''k''], SessionActive 2 ''s'', Prune] t)"
proof -
  let ?t = "\<lparr>max_entries = 4, blocks = [], session_keys = [], active_sessions = {}\<rparr> :: tracker"
  have "make_tracker 4 = Inr ?t" by (simp add: make_tracker_def)
  with tracker_reachable_inv [OF this] show ?thesis by blast
qed


lemma length_prune_victims:
  assumes "max_entries t < int (length (blocks t))"
  shows "int (length (prune_victims t)) =
    min (int (length (blocks t)) - max_entries t) (int (length (filter prunable (block_states t))))"
  using assms by (simp add: prune_victims_def length_py_take)

lemma distinct_prune_victims:
  "tracker_inv t \<Longrightarrow> distinct (map brs_key (prune_victims t))"
proof -
  assume inv: "tracker_inv t"
  have "distinct (prune_victims t)"
    using distinct_block_states(2) [OF inv] by (simp add: prune_victims_def distinct_py_take)
  moreover have "inj_on brs_key (set (prune_victims t))"
    using inj_brs_key [OF inv] prune_victims_prunable by (blast intro: inj_on_subset)
  ultimately show ?thesis by (simp add: distinct_map)
qed

lemma length_filter_out_keys:
  assumes "distinct (map fst d)" "distinct ks" "set ks \<subseteq> fst ` set d"
  shows "length (filter (\<lambda>p. fst p \<notin> set ks) d) + length ks = length d"
proof -
  have "length (filter (\<lambda>p. fst p \<in> set ks) d) = card (fst ` set (filter (\<lambda>p. fst p \<in> set ks) d))"
    using assms(1) by (metis distinct_card distinct_map_filter length_map list.set_map)
  also have "fst ` set (filter (\<lambda>p. fst p \<in> set ks) d) = set ks" using assms(3) by auto
  also have "card (set ks) = length ks" using assms(2) by (rule distinct_card)
  finally show ?thesis using sum_length_filter_compl [of "\<lambda>p. fst p \<in> set ks" d] by simp
qed

lemma prune_length:
  assumes inv: "tracker_inv t"
  shows "int (length (blocks t)) - int (length (blocks (snd (prune t)))) = fst (prune t)"
proof (cases "int (length (blocks t)) \<le> max_entries t")
  case False
  have sub: "set (map brs_key (prune_victims t)) \<subseteq> fst ` set (blocks t)"
    using prune_victims_prunable map_brs_key [OF inv]
    by (metis (no_types, lifting) image_mono image_set subsetI)
  show ?thesis
    using False length_filter_out_keys [OF tracker_invD(2) [OF inv] distinct_prune_victims [OF inv] sub]
      length_prune_victims [of t] by (simp add: prune_eq)
qed (simp add: prune_eq)

text \<open>Entries go until the limit holds or nothing prunable is left, the oldest first.\<close>

lemma prune_bound:
  assumes inv: "tracker_inv t"
  defines "t' \<equiv> snd (prune t)"
  shows "int (length (blocks t')) \<le> max_entries t \<or> (\<forall>st \<in> set (block_states t'). \<not> prunable st)"
proof (cases "int (length (blocks t)) \<le> max_entries t")
  case False
  show ?thesis
  proof (cases "int (length (filter prunable (block_states t))) \<le> int (length (blocks t)) - max_entries t")
    case True
    with False have all: "set (prune_victims t) = set (filter prunable (block_states t))"
      by (simp add: prune_victims_def py_take_def)
    have inv': "tracker_inv t'" using prune_inv [OF inv] by (simp add: t'_def)
    have "\<not> prunable st" if st: "st \<in> set (block_states t')" for st
    proof
      assume pr: "prunable st"
      from st have "map_of (blocks t') (brs_key st) = Some st"
        using block_states_iff [OF inv'] by simp
      with False have "map_of (blocks t) (brs_key st) = Some st"
        "brs_key st \<notin> brs_key ` set (prune_victims t)"
        by (auto simp: t'_def map_of_prune split: if_splits)
      with pr all show False using block_states_iff [OF inv, of st] by auto
    qed
    then show ?thesis by blast
  qed (use prune_length [OF inv] \<open>\<not> int (length (blocks t)) \<le> max_entries t\<close> in \<open>simp add: t'_def prune_eq\<close>)
qed (simp add: t'_def prune_eq)

lemma prune_oldest:
  assumes inv: "tracker_inv t"
    and st: "map_of (blocks t) k = Some st" "map_of (blocks (snd (prune t))) k = None"
    and st': "map_of (blocks (snd (prune t))) k' = Some st'" "prunable st'"
  shows "last_access_at st \<le> last_access_at st'"
proof -
  from st have "k \<in> brs_key ` set (prune_victims t)"
    by (auto simp: map_of_prune split: if_splits)
  with st(1) have v: "st \<in> set (prune_victims t)"
    using prune_victims_prunable block_states_iff [OF inv] by fastforce
  from st st'(1) have "map_of (blocks t) k' = Some st'" "k' \<notin> brs_key ` set (prune_victims t)"
    by (auto simp: map_of_prune split: if_splits)
  then have "st' \<in> set (filter prunable (block_states t))" "st' \<notin> set (prune_victims t)"
    using st'(2) block_states_iff [OF inv, of st'] brs_key_map_of [OF inv, of k' st'] by auto
  with v show ?thesis unfolding prune_victims_def by (metis py_take_sort_least)
qed

lemma prune_facts:
  assumes inv: "tracker_inv t" and p: "prune t = (n, t')"
  shows "n = int (length (blocks t)) - int (length (blocks t'))"
    and "int (length (blocks t')) \<le> max_entries t \<or> (\<forall>st \<in> set (block_states t'). \<not> prunable st)"
    and "map_of (blocks t) k = Some st \<Longrightarrow> \<not> prunable st \<Longrightarrow> map_of (blocks t') k = Some st"
    and "map_of (blocks t') k = Some st \<Longrightarrow> map_of (blocks t) k = Some st"
    and "map_of (blocks t) k = Some st \<Longrightarrow> map_of (blocks t') k = None \<Longrightarrow>
         map_of (blocks t') k' = Some st' \<Longrightarrow> prunable st' \<Longrightarrow> last_access_at st \<le> last_access_at st'"
proof -
  have t': "t' = snd (prune t)" and n: "n = fst (prune t)" using p by simp_all
  show "n = int (length (blocks t)) - int (length (blocks t'))"
    using prune_length [OF inv] by (simp add: t' n)
  show "map_of (blocks t') k = Some st" if "map_of (blocks t) k = Some st" "\<not> prunable st" for k st
  proof -
    have "k \<notin> brs_key ` set (prune_victims t)"
      using that prune_victims_prunable block_states_iff [OF inv] by fastforce
    with that show ?thesis by (simp add: t' map_of_prune)
  qed
  show "map_of (blocks t) k = Some st" if "map_of (blocks t') k = Some st" for k st
    using that by (simp add: t' map_of_prune split: if_splits)
  show "last_access_at st \<le> last_access_at st'"
    if "map_of (blocks t) k = Some st" "map_of (blocks t') k = None"
      "map_of (blocks t') k' = Some st'" "prunable st'" for k st k' st'
    using prune_oldest [OF inv] that by (simp add: t')
  show "int (length (blocks t')) \<le> max_entries t \<or> (\<forall>st \<in> set (block_states t'). \<not> prunable st)"
    using prune_bound [OF inv] by (simp add: t')
qed

text \<open>C29: \<open>prune\<close> removes metadata of blocks that no session, CPU copy or transfer needs and
  nothing else; its return value is the number of entries it removed; afterwards the
  tracker is within its bound or has nothing left to prune; and no entry that it removes
  was used more recently than a prunable entry that it keeps.\<close>

theorem prune_correct:
  assumes "tracker_inv t" and "prune t = (n, t')"
  shows "n = int (length (blocks t)) - int (length (blocks t')) \<and>
    (int (length (blocks t')) \<le> max_entries t \<or> (\<forall>st \<in> set (block_states t'). \<not> prunable st)) \<and>
    (\<forall>k st. map_of (blocks t) k = Some st \<and> \<not> prunable st \<longrightarrow> map_of (blocks t') k = Some st) \<and>
    (\<forall>k st. map_of (blocks t') k = Some st \<longrightarrow> map_of (blocks t) k = Some st) \<and>
    (\<forall>k st k' st'. map_of (blocks t) k = Some st \<and> map_of (blocks t') k = None \<and>
       map_of (blocks t') k' = Some st' \<and> prunable st' \<longrightarrow> last_access_at st \<le> last_access_at st')"
  by (intro conjI allI impI; (elim conjE)?; rule prune_facts [OF assms]; assumption)

definition prune_example :: tracker where
  "prune_example =
     mark_cpu_resident 3 [''c''] True
       (record_access 3 ''s'' [''a''] (mark_cpu_resident 1 [''b''] False
         (mark_cpu_resident 2 [''d''] False
           \<lparr>max_entries = 3, blocks = [], session_keys = [], active_sessions = {}\<rparr>)))"

lemma prune_example_inv: "tracker_inv prune_example"
  unfolding prune_example_def
  by (intro mark_cpu_resident_inv record_access_inv) (rule make_tracker_inv [of 3], simp add: make_tracker_def)

theorem prune_correct_witness:
  "\<exists>t'. prune prune_example = (1, t') \<and> map fst (blocks t') = [''d'', ''a'', ''c''] \<and>
     1 = int (length (blocks prune_example)) - int (length (blocks t'))"
proof -
  have p: "fst (prune prune_example) = 1 \<and> map fst (blocks (snd (prune prune_example))) = [''d'', ''a'', ''c'']"
    by code_simp
  then have e: "prune prune_example = (1, snd (prune prune_example))" by (simp add: prod_eq_iff)
  show ?thesis
    using prune_correct [OF prune_example_inv e] p e
    by (intro exI [of _ "snd (prune prune_example)"]) simp
qed


section \<open>Selecting blocks to demote\<close>

lemma selected_keys:
  assumes inv: "tracker_inv t"
    and ks: "ks = map brs_key (py_take limit (sort_key f (filter P (block_states t))))"
  shows "distinct ks"
    and "0 \<le> limit \<Longrightarrow> int (length ks) \<le> limit"
    and "k \<in> set ks \<Longrightarrow> \<exists>st. map_of (blocks t) k = Some st \<and> P st"
    and "k \<in> set ks \<Longrightarrow> map_of (blocks t) k = Some st \<Longrightarrow> k' \<notin> set ks \<Longrightarrow>
         map_of (blocks t) k' = Some st' \<Longrightarrow> P st' \<Longrightarrow> f st \<le> f st'"
proof -
  let ?sel = "py_take limit (sort_key f (filter P (block_states t)))"
  have sub: "set ?sel \<subseteq> set (filter P (block_states t))" by (rule py_take_sort_subset)
  have inj: "inj_on brs_key (set ?sel)" using inj_brs_key [OF inv] sub by (auto intro: inj_on_subset)
  show "distinct ks"
    using distinct_block_states(2) [OF inv] inj by (simp add: ks distinct_map distinct_py_take)
  show "int (length ks) \<le> limit" if "0 \<le> limit" using that by (simp add: ks length_py_take)
  show "\<exists>st. map_of (blocks t) k = Some st \<and> P st" if "k \<in> set ks"
    using that sub block_states_iff [OF inv] by (force simp: ks)
  show "f st \<le> f st'" if "k \<in> set ks" "map_of (blocks t) k = Some st" "k' \<notin> set ks"
    "map_of (blocks t) k' = Some st'" "P st'"
  proof -
    from that(1) obtain x where x: "x \<in> set ?sel" "brs_key x = k" by (auto simp: ks)
    then have "map_of (blocks t) k = Some x" using sub block_states_iff [OF inv] by auto
    with that(2) x have "st \<in> set ?sel" by simp
    moreover have k': "brs_key st' = k'" using brs_key_map_of [OF inv that(4)] .
    then have "st' \<in> set (filter P (block_states t))"
      using that(4,5) block_states_iff [OF inv, of st'] by auto
    moreover have "st' \<notin> set ?sel" using that(3) k' by (auto simp: ks)
    ultimately show ?thesis by (metis py_take_sort_least)
  qed
qed

definition demotable :: "tracker \<Rightarrow> instant option \<Rightarrow> block_residency_state \<Rightarrow> bool" where
  "demotable t idle_before st \<longleftrightarrow>
     cpu_resident st \<and> secondary_tiers st \<noteq> {} \<and> (\<forall>tr. dict_get (inflight_transfers st) tr 0 = 0) \<and>
     session_ids st \<inter> active_sessions t = {} \<and> card (session_ids st) \<le> 1 \<and>
     (\<exists>i. idle_since st = Some i \<and> (\<forall>b. idle_before = Some b \<longrightarrow> i \<le> b))"

lemma counts_ok_empty_iff: "counts_ok m \<Longrightarrow> m = [] \<longleftrightarrow> (\<forall>tr. dict_get m tr 0 = 0)"
proof
  assume ok: "counts_ok m" and z: "\<forall>tr. dict_get m tr 0 = 0"
  show "m = []"
  proof (cases m)
    case (Cons p m')
    then have "map_of m (fst p) = Some (snd p)" by (cases p) simp
    with ok z show ?thesis unfolding counts_ok_def by (metis dict_get_Some not_one_le_zero)
  qed
qed (simp add: dict_get_def)

lemma demotable_iff:
  assumes "block_ok A k st"
  shows "idle_cpu_block t st \<and> (case ib of None \<Rightarrow> True | Some b \<Rightarrow> the (idle_since st) \<le> b)
     \<longleftrightarrow> demotable t ib st"
proof -
  have "inflight_transfers st = [] \<longleftrightarrow> (\<forall>tr. dict_get (inflight_transfers st) tr 0 = 0)"
    using assms by (intro counts_ok_empty_iff) (simp add: block_ok_def)
  then show ?thesis
    by (auto simp: idle_cpu_block_def demotable_def has_secondary_copy_state_def
        has_inflight_transfer_def has_active_session_def is_shared_def split: option.splits)
qed

lemma idle_candidates_eq:
  assumes "tracker_inv t"
  shows "get_idle_cpu_candidates limit ib t = map brs_key (py_take limit
    (sort_key (\<lambda>st. (float_or (idle_since st) 0, last_access_at st))
      (filter (demotable t ib) (block_states t))))"
proof -
  have "filter (\<lambda>st. idle_cpu_block t st \<and> (case ib of None \<Rightarrow> True | Some b \<Rightarrow> the (idle_since st) \<le> b))
      (block_states t) = filter (demotable t ib) (block_states t)"
  proof (rule filter_cong [OF refl])
    fix st assume "st \<in> set (block_states t)"
    then have "map_of (blocks t) (brs_key st) = Some st" using block_states_iff [OF assms] by blast
    then show "(idle_cpu_block t st \<and> (case ib of None \<Rightarrow> True | Some b \<Rightarrow> the (idle_since st) \<le> b))
        = demotable t ib st"
      using demotable_iff tracker_invD(4) [OF assms] by blast
  qed
  then show ?thesis by (simp add: get_idle_cpu_candidates_def)
qed

text \<open>The blocks offered for CPU demotion are distinct, at most \<open>limit\<close> many, and each is
  safe to drop: it is on the CPU, has a secondary copy, is in no transfer, belongs to no
  active session and to at most one session, and has been idle since before the bound.
  They are the longest idle ones: a safe block that is left out has not been idle longer
  than one that is offered.\<close>

theorem idle_candidates_correct:
  assumes inv: "tracker_inv t" and ks: "ks = get_idle_cpu_candidates limit ib t"
  shows "distinct ks \<and> (0 \<le> limit \<longrightarrow> int (length ks) \<le> limit) \<and>
    (\<forall>k \<in> set ks. \<exists>st. map_of (blocks t) k = Some st \<and> demotable t ib st) \<and>
    (\<forall>k st k' st'. k \<in> set ks \<and> map_of (blocks t) k = Some st \<and> k' \<notin> set ks \<and>
       map_of (blocks t) k' = Some st' \<and> demotable t ib st' \<longrightarrow>
       float_or (idle_since st) 0 \<le> float_or (idle_since st') 0)"
proof -
  note sel = selected_keys [OF inv ks [unfolded idle_candidates_eq [OF inv]]]
  show ?thesis
  proof (intro conjI ballI allI impI; (elim conjE)?)
    show "float_or (idle_since st) 0 \<le> float_or (idle_since st') 0"
      if "k \<in> set ks" "map_of (blocks t) k = Some st" "k' \<notin> set ks"
        "map_of (blocks t) k' = Some st'" "demotable t ib st'" for k st k' st'
      using sel(4) [OF that] by auto
  qed (use sel(1-3) in blast)+
qed

definition demotion_example :: tracker where
  "demotion_example =
     on_session_idle 5 ''s'' (on_session_idle 4 ''r''
       (record_access 3 ''s'' [''b''] (record_access 2 ''r'' [''a'']
         (mark_secondary_resident 1 [''a'', ''b'', ''c''] ''fs'' True
           (mark_cpu_resident 1 [''b'', ''a'', ''c''] True
             \<lparr>max_entries = 8, blocks = [], session_keys = [], active_sessions = {}\<rparr>)))))"

lemma demotion_example_inv: "tracker_inv demotion_example"
  unfolding demotion_example_def
  by (intro on_session_idle_inv mark_cpu_resident_inv mark_secondary_resident_inv record_access_inv)
     (rule make_tracker_inv [of 8], simp add: make_tracker_def)

theorem idle_candidates_correct_witness:
  "get_idle_cpu_candidates 1 (Some 6) demotion_example = [''a''] \<and>
   (\<exists>st. map_of (blocks demotion_example) ''a'' = Some st \<and> demotable demotion_example (Some 6) st)"
proof -
  have e: "get_idle_cpu_candidates 1 (Some 6) demotion_example = [''a'']" by code_simp
  from idle_candidates_correct [OF demotion_example_inv e [symmetric]] e show ?thesis by simp
qed

text \<open>Under CPU pressure the blocks are taken from coldest to hottest: the selection is
  distinct, bounded and free of blocks in transfer, and a block of an active session is
  taken only when every eligible block of inactive sessions is taken too; among blocks
  with the same activity, a shared one only after every unshared one, and among those the
  rarely accessed ones first.\<close>

theorem pressure_candidates_correct:
  assumes inv: "tracker_inv t" and ks: "ks = get_cpu_pressure_candidates limit ib incl t"
  shows "distinct ks \<and> (0 \<le> limit \<longrightarrow> int (length ks) \<le> limit) \<and>
    (\<forall>k \<in> set ks. \<exists>st. map_of (blocks t) k = Some st \<and> cpu_resident st \<and>
       inflight_transfers st = [] \<and> (incl \<or> owners t k \<inter> active_sessions t = {})) \<and>
    (\<forall>k st k' st'. k \<in> set ks \<and> map_of (blocks t) k = Some st \<and> k' \<notin> set ks \<and>
       map_of (blocks t) k' = Some st' \<and> pressure_candidate t ib incl st' \<longrightarrow>
       (has_active_session t st \<longrightarrow> has_active_session t st') \<and>
       (has_active_session t st = has_active_session t st' \<longrightarrow>
          (is_shared st \<longrightarrow> is_shared st') \<and>
          (is_shared st = is_shared st' \<longrightarrow> access_count st \<le> access_count st')))"
proof -
  have "ks = map brs_key (py_take limit (sort_key (pressure_key t)
      (filter (pressure_candidate t ib incl) (block_states t))))"
    by (simp add: ks get_cpu_pressure_candidates_def)
  note sel = selected_keys [OF inv this]
  have cand: "\<exists>st. map_of (blocks t) k = Some st \<and> cpu_resident st \<and> inflight_transfers st = [] \<and>
      (incl \<or> owners t k \<inter> active_sessions t = {})" if "k \<in> set ks" for k
    using sel(3) [OF that] by (auto simp: pressure_candidate_def has_inflight_transfer_def
        has_active_session_def owners_def)
  have ord: "(has_active_session t st \<longrightarrow> has_active_session t st') \<and>
       (has_active_session t st = has_active_session t st' \<longrightarrow>
          (is_shared st \<longrightarrow> is_shared st') \<and>
          (is_shared st = is_shared st' \<longrightarrow> access_count st \<le> access_count st'))"
    if "pressure_key t st \<le> pressure_key t st'" for st st'
    using that by (auto simp: pressure_key_def less_eq_prod_def le_bool_def less_bool_def)
  show ?thesis
    using sel(1,2) cand sel(4) ord by (intro conjI ballI allI impI; (elim conjE)?) blast+
qed


definition pressure_example :: tracker where
  "pressure_example = on_session_active 6 ''r'' demotion_example"

lemma pressure_example_inv: "tracker_inv pressure_example"
  unfolding pressure_example_def by (rule on_session_active_inv [OF demotion_example_inv])

theorem pressure_candidates_correct_witness:
  "get_cpu_pressure_candidates 2 None True pressure_example = [''c'', ''b''] \<and>
   distinct [''c'', ''b''] \<and>
   (\<exists>st. map_of (blocks pressure_example) ''b'' = Some st \<and> cpu_resident st)"
proof -
  have e: "get_cpu_pressure_candidates 2 None True pressure_example = [''c'', ''b'']" by code_simp
  from pressure_candidates_correct [OF pressure_example_inv e [symmetric]]
  have "\<forall>k \<in> set [''c'', ''b'']. \<exists>st. map_of (blocks pressure_example) k = Some st \<and> cpu_resident st" by blast
  with e show ?thesis by auto
qed

text \<open>The cheap test \<open>has_idle_cpu_blocks\<close> agrees with the selection it guards: it holds
  exactly when some block could be offered for demotion.\<close>

theorem has_idle_cpu_blocks_iff:
  assumes inv: "tracker_inv t" and lim: "0 < limit"
  shows "has_idle_cpu_blocks t \<longleftrightarrow> get_idle_cpu_candidates limit None t \<noteq> []"
proof -
  have "has_idle_cpu_blocks t \<longleftrightarrow> filter (idle_cpu_block t) (block_states t) \<noteq> []"
    by (auto simp: has_idle_cpu_blocks_def list_ex_iff filter_empty_conv)
  also have "\<dots> \<longleftrightarrow> py_take limit (sort_key (\<lambda>st. (float_or (idle_since st) 0, last_access_at st))
      (filter (idle_cpu_block t) (block_states t))) \<noteq> []"
    using lim by (simp add: py_take_empty_iff sort_key_empty_iff)
  finally show ?thesis by (simp add: get_idle_cpu_candidates_def)
qed

theorem has_idle_cpu_blocks_iff_witness:
  "has_idle_cpu_blocks demotion_example \<longleftrightarrow> get_idle_cpu_candidates 7 None demotion_example \<noteq> []"
  by (rule has_idle_cpu_blocks_iff [OF demotion_example_inv]) simp

section \<open>Transfers in flight\<close>

definition inflight :: "tracker \<Rightarrow> offload_key \<Rightarrow> string \<times> string \<Rightarrow> int" where
  "inflight t k tr = (case map_of (blocks t) k of None \<Rightarrow> 0 | Some st \<Rightarrow> dict_get (inflight_transfers st) tr 0)"

lemma inflight_start:
  "inflight (start_transfer now ks src tgt t) k tr =
     inflight t k tr + (if tr = (src, tgt) then int (count_list ks k) else 0)"
proof -
  have one: "inflight (mutate_block k' now (\<lambda>st. st\<lparr>inflight_transfers :=
      AList.update (src, tgt) (dict_get (inflight_transfers st) (src, tgt) 0 + 1)
        (inflight_transfers st)\<rparr>) t) k tr
    = inflight t k tr + (if tr = (src, tgt) \<and> k' = k then 1 else 0)" for k' t
    by (auto simp: inflight_def dict_simps block_at_def new_block_def dict_get_def split: option.splits)
  show ?thesis
    unfolding start_transfer_def by (induction ks arbitrary: t) (auto simp: one)
qed

lemma inflight_finish_key:
  assumes "tracker_inv t"
  shows "inflight (finish_transfer_key tr' k' t) k tr =
    (if tr = tr' \<and> k' = k then max 0 (inflight t k tr - 1) else inflight t k tr)"
proof (cases "map_of (blocks t) k'")
  case None
  then show ?thesis by (auto simp: finish_transfer_key_def inflight_def)
next
  case (Some st)
  with tracker_invD(4) [OF assms] have "0 \<le> dict_get (inflight_transfers st) tr' 0"
    by (auto simp: block_ok_def intro: counts_ok_get)
  with Some show ?thesis
    by (auto simp: finish_transfer_key_def inflight_def finish_block_def Let_def dict_simps)
qed

lemma inflight_nonneg: "tracker_inv t \<Longrightarrow> 0 \<le> inflight t k tr"
  using tracker_invD(4) [of t k]
  by (auto simp: inflight_def block_ok_def intro: counts_ok_get split: option.splits)

lemma inflight_finish:
  assumes "tracker_inv t"
  shows "inflight (finish_transfer ks src tgt t) k tr =
    (if tr = (src, tgt) then max 0 (inflight t k tr - int (count_list ks k)) else inflight t k tr)"
  unfolding finish_transfer_def using assms
proof (induction ks arbitrary: t)
  case (Cons k' ks)
  then show ?case
    using finish_transfer_key_inv [OF Cons.prems, of "(src, tgt)" k'] inflight_nonneg [OF Cons.prems, of k tr]
    by (auto simp: inflight_finish_key)
qed (use inflight_nonneg in auto)

lemma get_inflight_keys_iff:
  assumes "tracker_inv t"
  shows "k \<in> get_inflight_keys t \<longleftrightarrow> (\<exists>tr. 0 < inflight t k tr)"
proof -
  have "k \<in> get_inflight_keys t \<longleftrightarrow> (\<exists>st. map_of (blocks t) k = Some st \<and> inflight_transfers st \<noteq> [])"
    using block_states_iff [OF assms] brs_key_map_of [OF assms]
    by (auto simp: get_inflight_keys_def has_inflight_transfer_def)
  also have "\<dots> \<longleftrightarrow> (\<exists>tr. inflight t k tr \<noteq> 0)"
  proof (cases "map_of (blocks t) k")
    case (Some st)
    then have "counts_ok (inflight_transfers st)"
      using tracker_invD(4) [OF assms] by (simp add: block_ok_def)
    with Some show ?thesis by (simp add: inflight_def counts_ok_empty_iff)
  qed (simp add: inflight_def)
  finally show ?thesis using inflight_nonneg [OF assms, of k] by (auto simp: order_less_le)
qed

text \<open>In-flight transfers are reference-counted per block and direction. Starting transfers
  of a list of blocks and later finishing the same list restores every count, and a block
  is reported as in flight exactly while some direction has more starts than finishes.\<close>

theorem transfer_balance:
  assumes inv: "tracker_inv t"
  shows "inflight (finish_transfer ks src tgt (start_transfer now ks src tgt t)) = inflight t \<and>
    get_inflight_keys (finish_transfer ks src tgt (start_transfer now ks src tgt t)) = get_inflight_keys t \<and>
    get_inflight_keys (start_transfer now ks src tgt t) = get_inflight_keys t \<union> set ks"
proof -
  have inv1: "tracker_inv (start_transfer now ks src tgt t)" by (rule start_transfer_inv [OF inv])
  have inv2: "tracker_inv (finish_transfer ks src tgt (start_transfer now ks src tgt t))"
    by (rule finish_transfer_inv [OF inv1])
  have eq: "inflight (finish_transfer ks src tgt (start_transfer now ks src tgt t)) = inflight t"
    by (auto simp: fun_eq_iff inflight_finish [OF inv1] inflight_start inflight_nonneg [OF inv])
  have "k \<in> get_inflight_keys (start_transfer now ks src tgt t) \<longleftrightarrow>
      k \<in> get_inflight_keys t \<or> k \<in> set ks" for k
  proof (cases "k \<in> set ks")
    case True
    then have "0 < int (count_list ks k)" using count_list_0_iff [of ks k] by auto
    then have "0 < inflight (start_transfer now ks src tgt t) k (src, tgt)"
      using inflight_nonneg [OF inv, of k "(src, tgt)"] by (simp add: inflight_start)
    with True show ?thesis using get_inflight_keys_iff [OF inv1] by blast
  next
    case False
    then have "count_list ks k = 0" by (simp add: count_list_0_iff)
    then have "inflight (start_transfer now ks src tgt t) k = inflight t k"
      by (simp add: fun_eq_iff inflight_start)
    with False show ?thesis by (simp add: get_inflight_keys_iff [OF inv1] get_inflight_keys_iff [OF inv])
  qed
  with eq show ?thesis
    by (auto simp: get_inflight_keys_iff [OF inv2] get_inflight_keys_iff [OF inv])
qed

theorem transfer_balance_witness:
  "inflight (finish_transfer [''a'', ''a'', ''z''] ''gpu'' ''cpu''
     (start_transfer 9 [''a'', ''a'', ''z''] ''gpu'' ''cpu'' demotion_example)) = inflight demotion_example"
  using transfer_balance [OF demotion_example_inv] by blast

section \<open>Sessions and their blocks\<close>

text \<open>Releasing a session returns exactly the blocks that no other session uses; it removes
  the session from every block and leaves the other sessions' blocks as they were; and a
  session that only accessed blocks and is released leaves the ownership unchanged.\<close>

theorem release_session_correct:
  assumes "tracker_inv t"
  shows "fst (release_session now sid t) = {k. owners t k = {sid}} \<and>
    (\<forall>k. owners (snd (release_session now sid t)) k = owners t k - {sid}) \<and>
    (\<forall>sid'. get_session_keys (snd (release_session now sid t)) sid' =
       (if sid' = sid then {} else get_session_keys t sid')) \<and>
    (get_session_keys t sid = {} \<longrightarrow>
       get_session_keys (snd (release_session now sid (record_access now' sid ks t))) = get_session_keys t)"
  using trk.released [OF assms, of "\<lambda>_. now" sid] trk.owners_release [OF assms, of "\<lambda>_. now" sid]
    trk.release_access [OF assms, of sid "\<lambda>_. now" now' ks]
  by (simp add: get_session_keys_release)

theorem release_session_correct_witness:
  "fst (release_session 9 ''s'' demotion_example) = {k. owners demotion_example k = {''s''}} \<and>
   owners demotion_example ''b'' = {''s''}"
proof -
  have "owners demotion_example ''b'' = {''s''}" by code_simp
  with release_session_correct [OF demotion_example_inv, of 9 "''s''"] show ?thesis by simp
qed

text \<open>The loops of \<open>on_session_active\<close>, \<open>on_session_idle\<close> and \<open>release_session\<close> run over a
  Python set, whose order is unspecified. Every order of visiting the session's blocks
  one after the other gives the result of the model.\<close>

theorem session_loops_any_order:
  assumes inv: "tracker_inv t" and ks: "set ks = get_session_keys t sid" "distinct ks"
  shows "blocks (on_session_active now sid t) =
      visit_entries (\<lambda>_ st. st\<lparr>idle_since := None, last_access_at := now\<rparr>) ks (blocks t) \<and>
    blocks (on_session_idle now sid t) =
      visit_entries (\<lambda>_ st. if has_active_session (t\<lparr>active_sessions := active_sessions t - {sid}\<rparr>) st
                            then st else st\<lparr>idle_since := Some now\<rparr>) ks (blocks t) \<and>
    blocks (snd (release_session now sid t)) =
      visit_entries (\<lambda>_. release_block sid now (t\<lparr>active_sessions := active_sessions t - {sid}\<rparr>)) ks (blocks t)"
proof -
  have keys: "get_session_keys (t\<lparr>active_sessions := A\<rparr>) sid = get_session_keys t sid" for A
    by (simp add: get_session_keys_def)
  have act: "has_active_session (t\<lparr>active_sessions := A\<rparr>) st \<longleftrightarrow> session_ids st \<inter> A \<noteq> {}" for A st
    by (simp add: has_active_session_def)
  show ?thesis
    by (simp add: visit_entries_any_order [OF tracker_invD(2) [OF inv] ks(2)] ks(1) keys act
        on_session_active_def on_session_idle_def release_session_def Let_def cong: if_cong)
      (auto simp: dict_map_def)
qed

theorem session_loops_any_order_witness:
  "blocks (on_session_active 9 ''s'' demotion_example) =
     visit_entries (\<lambda>_ st. st\<lparr>idle_since := None, last_access_at := 9\<rparr>) [''b''] (blocks demotion_example)"
proof -
  have "set [''b''] = get_session_keys demotion_example ''s''" by code_simp
  from session_loops_any_order [OF demotion_example_inv this] show ?thesis by simp
qed

end
