(* ===== verification/Lifecycle.thy ===== *)
theory Lifecycle
  imports Residency_Policy
begin

text \<open>
  \<open>lifecycle.py\<close>: session retention, TTL expiry and CPU demotion on top of the residency
  tracker. \<open>LifecycleConfig\<close> and its validation, the session identifier of a request,
  \<open>SessionKVState\<close> and every method of \<open>SessionLifecycleManager\<close>. An operation takes the
  clock as \<open>clk\<close>: \<open>clk i\<close> is the \<open>i\<close>-th reading the call can make, in program order
  (\<open>rel sid\<close> is the reading that the release of session \<open>sid\<close> makes inside a loop).
\<close>

section \<open>Configuration\<close>

record 'f lifecycle_config =
  idle_ttl_sec :: 'f
  delete_expired_secondary :: bool
  cpu_demote_after_sec :: 'f
  cpu_high_watermark :: 'f
  cpu_low_watermark :: 'f
  reclaim_batch_size :: int
  residency_max_entries :: int
  max_sessions :: int
  residency_tracking_enabled :: bool

definition default_lifecycle_config :: "pyfloat lifecycle_config" where
  "default_lifecycle_config =
     \<lparr>idle_ttl_sec = Finite 0, delete_expired_secondary = False, cpu_demote_after_sec = Finite 0,
      cpu_high_watermark = Finite 1, cpu_low_watermark = Finite 1, reclaim_batch_size = 64,
      residency_max_entries = 64000, max_sessions = 4096, residency_tracking_enabled = False\<rparr>"

text \<open>\<open>__post_init__\<close>: the checks in order; a config that passes has only finite floats.\<close>

definition bad_seconds :: "pyfloat \<Rightarrow> bool" where
  "bad_seconds v \<longleftrightarrow> \<not> pf_isfinite v \<or> pf_less v (Finite 0)"

definition post_init :: "pyfloat lifecycle_config \<Rightarrow> rat lifecycle_config result" where
  "post_init c =
     (if bad_seconds (idle_ttl_sec c)
      then Inl (ValueError ''lifecycle_idle_ttl_sec must be a finite non-negative number'')
      else if bad_seconds (cpu_demote_after_sec c)
      then Inl (ValueError ''lifecycle_cpu_demote_after_sec must be a finite non-negative number'')
      else if \<not> (pf_less (Finite 0) (cpu_low_watermark c) \<and>
                 pf_le (cpu_low_watermark c) (cpu_high_watermark c) \<and>
                 pf_le (cpu_high_watermark c) (Finite 1))
      then Inl (ValueError ''lifecycle_cpu_low_watermark and lifecycle_cpu_high_watermark must satisfy 0 < low <= high <= 1'')
      else if reclaim_batch_size c \<le> 0
      then Inl (ValueError ''lifecycle_reclaim_batch_size must be greater than zero'')
      else if residency_max_entries c \<le> 0
      then Inl (ValueError ''residency_max_entries must be greater than zero'')
      else if max_sessions c \<le> 0
      then Inl (ValueError ''lifecycle_max_sessions must be greater than zero'')
      else Inr \<lparr>idle_ttl_sec = pf_rat (idle_ttl_sec c),
                delete_expired_secondary = delete_expired_secondary c,
                cpu_demote_after_sec = pf_rat (cpu_demote_after_sec c),
                cpu_high_watermark = pf_rat (cpu_high_watermark c),
                cpu_low_watermark = pf_rat (cpu_low_watermark c),
                reclaim_batch_size = reclaim_batch_size c,
                residency_max_entries = residency_max_entries c,
                max_sessions = max_sessions c,
                residency_tracking_enabled = residency_tracking_enabled c\<rparr>)"

definition config_enabled :: "rat lifecycle_config \<Rightarrow> bool" where
  "config_enabled c \<longleftrightarrow> residency_tracking_enabled c \<or> 0 < idle_ttl_sec c \<or>
     0 < cpu_demote_after_sec c \<or> cpu_high_watermark c < 1"

text \<open>
  \<open>float(x)\<close>, \<open>int(x)\<close> and \<open>bool(x)\<close> of a configuration value. What they make of a string
  is given by \<open>float_of_str\<close> and \<open>int_of_str\<close> (\<open>None\<close>: \<open>ValueError\<close>).
\<close>

fun to_float :: "(string \<Rightarrow> pyfloat option) \<Rightarrow> py_value \<Rightarrow> pyfloat result" where
  "to_float fs (PBool b) = Inr (Finite (if b then 1 else 0))"
| "to_float fs (PInt i) = Inr (Finite (of_int i))"
| "to_float fs (PFloat x) = Inr x"
| "to_float fs (PStr s) =
     (case fs s of None \<Rightarrow> Inl (ValueError ''could not convert string to float'') | Some x \<Rightarrow> Inr x)"
| "to_float fs PNone = Inl TypeError"

fun to_int :: "(string \<Rightarrow> int option) \<Rightarrow> py_value \<Rightarrow> int result" where
  "to_int is (PBool b) = Inr (if b then 1 else 0)"
| "to_int is (PInt i) = Inr i"
| "to_int is (PFloat (Finite r)) = Inr (if 0 \<le> r then \<lfloor>r\<rfloor> else \<lceil>r\<rceil>)"
| "to_int is (PFloat NaN) = Inl (ValueError ''cannot convert float NaN to integer'')"
| "to_int is (PFloat _) = Inl OverflowError"
| "to_int is (PStr s) =
     (case is s of None \<Rightarrow> Inl (ValueError ''invalid literal for int()'') | Some i \<Rightarrow> Inr i)"
| "to_int is PNone = Inl TypeError"

fun to_bool :: "py_value \<Rightarrow> bool" where
  "to_bool (PBool b) = b"
| "to_bool (PInt i) = (i \<noteq> 0)"
| "to_bool (PFloat x) = (x \<noteq> Finite 0)"
| "to_bool (PStr s) = (s \<noteq> [])"
| "to_bool PNone = False"

definition from_extra_config ::
  "(string \<Rightarrow> pyfloat option) \<Rightarrow> (string \<Rightarrow> int option) \<Rightarrow> (string \<times> py_value) list \<Rightarrow>
   rat lifecycle_config result" where
  "from_extra_config fs is d =
     bind_result (to_float fs (dict_get d ''lifecycle_idle_ttl_sec'' (PFloat (Finite 0)))) (\<lambda>ttl.
     let del = to_bool (dict_get d ''lifecycle_delete_expired_secondary'' (PBool False)) in
     bind_result (to_float fs (dict_get d ''lifecycle_cpu_demote_after_sec'' (PFloat (Finite 0)))) (\<lambda>dem.
     bind_result (to_float fs (dict_get d ''lifecycle_cpu_high_watermark'' (PFloat (Finite (9/10))))) (\<lambda>hi.
     bind_result (to_float fs (dict_get d ''lifecycle_cpu_low_watermark'' (PFloat (Finite (7/10))))) (\<lambda>lo.
     bind_result (to_int is (dict_get d ''lifecycle_reclaim_batch_size'' (PInt 64))) (\<lambda>batch.
     bind_result (to_int is (dict_get d ''residency_max_entries'' (PInt 64000))) (\<lambda>entries.
     bind_result (to_int is (dict_get d ''lifecycle_max_sessions'' (PInt 4096))) (\<lambda>msess.
     post_init \<lparr>idle_ttl_sec = ttl, delete_expired_secondary = del, cpu_demote_after_sec = dem,
       cpu_high_watermark = hi, cpu_low_watermark = lo, reclaim_batch_size = batch,
       residency_max_entries = entries, max_sessions = msess,
       residency_tracking_enabled =
         to_bool (dict_get d ''residency_tracking_enabled'' (PBool False))\<rparr>)))))))"

section \<open>Requests and sessions\<close>

definition request_params :: "req_context \<Rightarrow> (string \<times> py_value) list" where
  "request_params ctx = (case kv_transfer_params ctx of None \<Rightarrow> [] | Some d \<Rightarrow> d)"

definition session_param_names :: "string list" where
  "session_param_names = [''session_id'', ''conversation_id'', ''kv_session_id'']"

definition stable_value :: "py_value option \<Rightarrow> bool" where
  "stable_value v = (case v of Some (PStr s) \<Rightarrow> s \<noteq> [] | _ \<Rightarrow> False)"

fun first_session_id :: "(string \<times> py_value) list \<Rightarrow> string list \<Rightarrow> string \<Rightarrow> string" where
  "first_session_id params [] dflt = dflt"
| "first_session_id params (k # ks) dflt =
     (case map_of params k of
        Some (PStr s) \<Rightarrow> if s \<noteq> [] then s else first_session_id params ks dflt
      | _ \<Rightarrow> first_session_id params ks dflt)"

definition get_session_id :: "req_context \<Rightarrow> session_id" where
  "get_session_id ctx = first_session_id (request_params ctx) session_param_names (req_id ctx)"

definition has_stable_session_id :: "req_context \<Rightarrow> bool" where
  "has_stable_session_id ctx =
     list_ex (\<lambda>k. stable_value (map_of (request_params ctx) k)) session_param_names"

datatype lifecycle_status = ACTIVE | IDLE_RETAINED | EXPIRED | DELETED

record session_kv_state =
  ss_session_id :: session_id
  has_stable_id :: bool
  status :: lifecycle_status
  ss_created_at :: instant
  ss_last_access_at :: instant
  ttl_deadline :: "instant option"
  active_req_ids :: "req_id set"
  retained_req_ids :: "req_id set"
  block_keys :: "offload_key set"
  request_count :: int
  reuse_request_count :: int
  reuse_hit_blocks :: int
  last_reuse_at :: "instant option"
  last_reuse_req_id :: "req_id option"

definition is_idle :: "session_kv_state \<Rightarrow> bool" where
  "is_idle st \<longleftrightarrow> status st = IDLE_RETAINED"

record expiration_result =
  expired_sessions :: int
  pruned_sessions :: int
  unreferenced_keys :: "offload_key set"

definition no_expiration :: expiration_result where
  "no_expiration = \<lparr>expired_sessions = 0, pruned_sessions = 0, unreferenced_keys = {}\<rparr>"

section \<open>The manager\<close>

record manager =
  config :: "rat lifecycle_config"
  residency :: tracker
  sessions :: "(session_id \<times> session_kv_state) list"
  req_to_session :: "(req_id \<times> session_id) list"
  next_expiration_at :: "instant option"

definition make_manager :: "rat lifecycle_config \<Rightarrow> manager result" where
  "make_manager c =
     bind_result (make_tracker (residency_max_entries c)) (\<lambda>t.
       Inr \<lparr>config = c, residency = t, sessions = [], req_to_session = [],
            next_expiration_at = None\<rparr>)"

definition enabled :: "manager \<Rightarrow> bool" where
  "enabled m = config_enabled (config m)"

definition session_states :: "manager \<Rightarrow> session_kv_state list" where
  "session_states m = map snd (sessions m)"

definition put_session :: "session_kv_state \<Rightarrow> manager \<Rightarrow> manager" where
  "put_session st m = m\<lparr>sessions := AList.update (ss_session_id st) st (sessions m)\<rparr>"

definition idle_deadlines :: "manager \<Rightarrow> instant list" where
  "idle_deadlines m =
     map (the \<circ> ttl_deadline)
       (filter (\<lambda>st. is_idle st \<and> ttl_deadline st \<noteq> None) (session_states m))"

definition refresh_next_expiration :: "manager \<Rightarrow> manager" where
  "refresh_next_expiration m =
     m\<lparr>next_expiration_at :=
        (if idle_ttl_sec (config m) \<le> 0 then None
         else if idle_deadlines m = [] then None
         else Some (Min (set (idle_deadlines m))))\<rparr>"

definition get_by_req :: "req_context \<Rightarrow> manager \<Rightarrow> session_kv_state option" where
  "get_by_req ctx m =
     map_of (sessions m)
       (case map_of (req_to_session m) (req_id ctx) of None \<Rightarrow> get_session_id ctx | Some sid \<Rightarrow> sid)"

definition delete_state :: "session_kv_state \<Rightarrow> manager \<Rightarrow> manager" where
  "delete_state st m =
     m\<lparr>sessions := AList.delete (ss_session_id st) (sessions m),
       req_to_session := filter (\<lambda>(r, _). r \<notin> active_req_ids st \<union> retained_req_ids st)
                           (req_to_session m)\<rparr>"

definition new_session :: "req_context \<Rightarrow> session_id \<Rightarrow> instant \<Rightarrow> session_kv_state" where
  "new_session ctx sid now =
     \<lparr>ss_session_id = sid, has_stable_id = has_stable_session_id ctx, status = ACTIVE,
      ss_created_at = now, ss_last_access_at = now, ttl_deadline = None,
      active_req_ids = {}, retained_req_ids = {}, block_keys = {},
      request_count = 0, reuse_request_count = 0, reuse_hit_blocks = 0,
      last_reuse_at = None, last_reuse_req_id = None\<rparr>"

text \<open>Finding or creating the session, before the request is entered into it.\<close>

definition open_session :: "req_context \<Rightarrow> session_id \<Rightarrow> instant \<Rightarrow> manager \<Rightarrow> session_kv_state \<times> manager" where
  "open_session ctx sid now m =
     (case map_of (sessions m) sid of
        None \<Rightarrow> let st = new_session ctx sid now in (st, put_session st m)
      | Some st \<Rightarrow>
          let st = st\<lparr>status := ACTIVE, ss_last_access_at := now, ttl_deadline := None\<rparr>
          in (st, refresh_next_expiration (put_session st m)))"

definition on_new_request ::
  "(nat \<Rightarrow> instant) \<Rightarrow> req_context \<Rightarrow> bool \<Rightarrow> manager \<Rightarrow> session_id \<times> manager" where
  "on_new_request clk ctx track_heat m =
     (let sid = get_session_id ctx
      in if \<not> enabled m \<and> \<not> track_heat then (sid, m)
         else
           let (st, m1) = open_session ctx sid (clk 0) m;
               st = st\<lparr>active_req_ids := insert (req_id ctx) (active_req_ids st),
                       retained_req_ids := retained_req_ids st - {req_id ctx},
                       request_count := request_count st + 1\<rparr>;
               m2 = put_session st m1;
               m3 = m2\<lparr>req_to_session := AList.update (req_id ctx) sid (req_to_session m2)\<rparr>
           in (sid,
               if enabled m then m3\<lparr>residency := on_session_active (clk 1) sid (residency m3)\<rparr>
               else m3))"

definition record_reuse_hit :: "instant \<Rightarrow> req_context \<Rightarrow> int \<Rightarrow> manager \<Rightarrow> manager" where
  "record_reuse_hit now ctx num_blocks m =
     (case get_by_req ctx m of
        None \<Rightarrow> m
      | Some st \<Rightarrow>
          let st = (if last_reuse_req_id st \<noteq> Some (req_id ctx)
                    then st\<lparr>reuse_request_count := reuse_request_count st + 1,
                            last_reuse_req_id := Some (req_id ctx)\<rparr> else st)
          in put_session (st\<lparr>reuse_hit_blocks := reuse_hit_blocks st + max 0 num_blocks,
                             last_reuse_at := Some now, ss_last_access_at := now\<rparr>) m)"

definition get_session_heat :: "req_context \<Rightarrow> manager \<Rightarrow> int \<times> rat" where
  "get_session_heat ctx m =
     (case get_by_req ctx m of
        None \<Rightarrow> (0, 0)
      | Some st \<Rightarrow>
          if request_count st \<le> 0 then (0, 0)
          else (request_count st, of_int (request_count st - 1) / of_int (request_count st)))"

definition get_or_open ::
  "(nat \<Rightarrow> instant) \<Rightarrow> req_context \<Rightarrow> bool \<Rightarrow> manager \<Rightarrow> (session_kv_state \<times> manager) result" where
  "get_or_open clk ctx track_heat m =
     (case get_by_req ctx m of
        Some st \<Rightarrow> Inr (st, m)
      | None \<Rightarrow>
          let m' = snd (on_new_request clk ctx track_heat m)
          in case get_by_req ctx m' of None \<Rightarrow> Inl AssertionError | Some st \<Rightarrow> Inr (st, m'))"

definition record_request_keys ::
  "(nat \<Rightarrow> instant) \<Rightarrow> req_context \<Rightarrow> offload_key list \<Rightarrow> manager \<Rightarrow> manager result" where
  "record_request_keys clk ctx keys m =
     (if \<not> enabled m then Inr m
      else bind_result (get_or_open clk ctx False m) (\<lambda>(st, m).
        let m1 = put_session (st\<lparr>block_keys := block_keys st \<union> set keys,
                                 ss_last_access_at := clk 2\<rparr>) m
        in Inr (m1\<lparr>residency := record_access (clk 3) (ss_session_id st) keys (residency m1)\<rparr>)))"

definition on_request_finished ::
  "(nat \<Rightarrow> instant) \<Rightarrow> req_context \<Rightarrow> bool \<Rightarrow> manager \<Rightarrow> manager result" where
  "on_request_finished clk ctx track_heat m =
     (if \<not> enabled m \<and> \<not> track_heat then Inr m
      else bind_result (get_or_open clk ctx track_heat m) (\<lambda>(st, m).
        let now = clk 2;
            st = st\<lparr>active_req_ids := active_req_ids st - {req_id ctx},
                    retained_req_ids := insert (req_id ctx) (retained_req_ids st),
                    ss_last_access_at := now\<rparr>
        in if active_req_ids st \<noteq> {} then Inr (put_session st m)
           else
             let ttl = idle_ttl_sec (config m);
                 st = st\<lparr>status := IDLE_RETAINED,
                         ttl_deadline := (if 0 < ttl then Some (now + ttl) else None)\<rparr>;
                 m1 = put_session st m;
                 m2 = (case ttl_deadline st of
                         None \<Rightarrow> m1
                       | Some d \<Rightarrow>
                           (case next_expiration_at m1 of
                              None \<Rightarrow> m1\<lparr>next_expiration_at := Some d\<rparr>
                            | Some e \<Rightarrow> if d < e then m1\<lparr>next_expiration_at := Some d\<rparr> else m1))
             in Inr (if enabled m2
                     then m2\<lparr>residency := on_session_idle (clk 3) (ss_session_id st) (residency m2)\<rparr>
                     else m2)))"

definition on_request_finalized :: "instant \<Rightarrow> req_context \<Rightarrow> manager \<Rightarrow> manager" where
  "on_request_finalized now ctx m =
     (let found = get_by_req ctx m;
          m1 = m\<lparr>req_to_session := AList.delete (req_id ctx) (req_to_session m)\<rparr>
      in case found of
           None \<Rightarrow> m1
         | Some st0 \<Rightarrow>
             let st = st0\<lparr>retained_req_ids := retained_req_ids st0 - {req_id ctx}\<rparr>;
                 m2 = put_session st m1
             in if active_req_ids st \<noteq> {} \<or> retained_req_ids st \<noteq> {} then m2
                else if has_stable_id st then m2
                else delete_state st
                       (m2\<lparr>residency := snd (release_session now (ss_session_id st) (residency m2))\<rparr>))"

section \<open>Expiry and pruning\<close>

definition remove_session ::
  "(session_id \<Rightarrow> instant) \<Rightarrow> session_kv_state \<Rightarrow> manager \<Rightarrow> offload_key set \<times> manager" where
  "remove_session rel st m =
     (let sid = ss_session_id st;
          (freed, t) = release_session (rel sid) sid (residency m)
      in (freed, delete_state st (m\<lparr>residency := t\<rparr>)))"

definition expirable ::
  "instant \<Rightarrow> offload_key set \<Rightarrow> req_id set \<Rightarrow> session_kv_state \<Rightarrow> bool" where
  "expirable now protected_keys protected_reqs st \<longleftrightarrow>
     is_idle st \<and> (case ttl_deadline st of None \<Rightarrow> False | Some d \<Rightarrow> d \<le> now) \<and>
     block_keys st \<inter> protected_keys = {} \<and> retained_req_ids st \<inter> protected_reqs = {}"

definition expire_one ::
  "instant \<Rightarrow> (session_id \<Rightarrow> instant) \<Rightarrow> offload_key set \<Rightarrow> req_id set \<Rightarrow> session_kv_state \<Rightarrow>
   expiration_result \<times> manager \<Rightarrow> expiration_result \<times> manager" where
  "expire_one now rel pk pr st = (\<lambda>(res, m).
     if \<not> expirable now pk pr st then (res, m)
     else
       let (freed, m') = remove_session rel st m
       in (res\<lparr>unreferenced_keys := unreferenced_keys res \<union> freed,
               expired_sessions := expired_sessions res + 1\<rparr>, m'))"

definition expire_idle_sessions ::
  "instant \<Rightarrow> (session_id \<Rightarrow> instant) \<Rightarrow> offload_key list \<Rightarrow> req_id list \<Rightarrow> manager \<Rightarrow>
   expiration_result \<times> manager" where
  "expire_idle_sessions now rel protected_keys protected_req_ids m =
     (if \<not> enabled m \<or> idle_ttl_sec (config m) \<le> 0 then (no_expiration, m)
      else if (case next_expiration_at m of None \<Rightarrow> True | Some e \<Rightarrow> now < e) then (no_expiration, m)
      else
        let (res, m') = fold (expire_one now rel (set protected_keys) (set protected_req_ids))
                          (session_states m) (no_expiration, m)
        in (res, refresh_next_expiration m'))"

definition has_expiration_due :: "instant \<Rightarrow> manager \<Rightarrow> bool" where
  "has_expiration_due now m = (case next_expiration_at m of None \<Rightarrow> False | Some e \<Rightarrow> e \<le> now)"

definition prune_candidate :: "session_kv_state \<Rightarrow> bool" where
  "prune_candidate st \<longleftrightarrow> is_idle st \<and> active_req_ids st = {} \<and> retained_req_ids st = {}"

definition prune_one ::
  "(session_id \<Rightarrow> instant) \<Rightarrow> session_kv_state \<Rightarrow>
   expiration_result \<times> manager \<Rightarrow> expiration_result \<times> manager" where
  "prune_one rel st = (\<lambda>(res, m).
     let (freed, m') = remove_session rel st m
     in (res\<lparr>unreferenced_keys := unreferenced_keys res \<union> freed,
             pruned_sessions := pruned_sessions res + 1\<rparr>, m'))"

definition prune_idle_sessions ::
  "(session_id \<Rightarrow> instant) \<Rightarrow> manager \<Rightarrow> expiration_result \<times> manager" where
  "prune_idle_sessions rel m =
     (let excess = int (length (sessions m)) - max_sessions (config m)
      in if excess \<le> 0 then (no_expiration, m)
         else
           let candidates = sort_key ss_last_access_at (filter prune_candidate (session_states m))
           in fold (prune_one rel) (py_take excess candidates) (no_expiration, m))"

section \<open>Queries\<close>

definition lc_get_idle_cpu_candidates ::
  "instant \<Rightarrow> int \<Rightarrow> bool \<Rightarrow> manager \<Rightarrow> offload_key list" where
  "lc_get_idle_cpu_candidates now limit require_idle_age m =
     (if require_idle_age
      then if cpu_demote_after_sec (config m) \<le> 0 then []
           else get_idle_cpu_candidates limit (Some (now - cpu_demote_after_sec (config m))) (residency m)
      else get_idle_cpu_candidates limit None (residency m))"

definition has_pending_expiration :: "manager \<Rightarrow> bool" where
  "has_pending_expiration m \<longleftrightarrow> next_expiration_at m \<noteq> None"

definition has_pending_cpu_demotion :: "manager \<Rightarrow> bool" where
  "has_pending_cpu_demotion m \<longleftrightarrow>
     0 < cpu_demote_after_sec (config m) \<and> has_idle_cpu_blocks (residency m)"

record lifecycle_snapshot =
  snap_sessions :: int
  snap_active_sessions :: int
  snap_idle_sessions :: int
  snap_retained_blocks :: int

definition lc_snapshot :: "manager \<Rightarrow> lifecycle_snapshot" where
  "lc_snapshot m =
     \<lparr>snap_sessions = int (length (sessions m)),
      snap_active_sessions = int (length (filter (\<lambda>st. status st = ACTIVE) (session_states m))),
      snap_idle_sessions = int (length (filter is_idle (session_states m))),
      snap_retained_blocks = int (card (\<Union> (block_keys ` set (session_states m))))\<rparr>"

definition heat_snapshot :: "manager \<Rightarrow> int \<times> int" where
  "heat_snapshot m =
     (sum_list (map reuse_request_count (session_states m)),
      sum_list (map reuse_hit_blocks (session_states m)))"

end
