(* ===== verification/Lifecycle_Props.thy ===== *)
theory Lifecycle_Props
  imports Lifecycle
begin

text \<open>
  The invariant of \<open>SessionLifecycleManager\<close>, its preservation by every operation, and
  what its operations promise: the expiry gate loses nothing, expiry and pruning remove
  exactly the right sessions and report exactly the blocks that lose their last user,
  and an anonymous session disappears with its last request.
\<close>

section \<open>The invariant\<close>

definition session_ok :: "rat lifecycle_config \<Rightarrow> session_id \<Rightarrow> session_kv_state \<Rightarrow> bool" where
  "session_ok c sid st \<longleftrightarrow>
     ss_session_id st = sid \<and> 1 \<le> request_count st \<and>
     (status st = ACTIVE \<and> active_req_ids st \<noteq> {} \<and> ttl_deadline st = None \<or>
      status st = IDLE_RETAINED \<and> active_req_ids st = {} \<and>
        (ttl_deadline st \<noteq> None \<longleftrightarrow> 0 < idle_ttl_sec c))"

definition sessions_ok :: "manager \<Rightarrow> bool" where
  "sessions_ok m \<longleftrightarrow> distinct (map fst (sessions m)) \<and>
     (\<forall>sid st. map_of (sessions m) sid = Some st \<longrightarrow> session_ok (config m) sid st)"

definition reqs_ok :: "manager \<Rightarrow> bool" where
  "reqs_ok m \<longleftrightarrow> distinct (map fst (req_to_session m)) \<and>
     (\<forall>r sid. map_of (req_to_session m) r = Some sid \<longrightarrow>
        (\<exists>st. map_of (sessions m) sid = Some st \<and> r \<in> active_req_ids st \<union> retained_req_ids st))"

definition deadlines_ok :: "manager \<Rightarrow> bool" where
  "deadlines_ok m \<longleftrightarrow>
     (\<forall>sid st d. map_of (sessions m) sid = Some st \<and> is_idle st \<and> ttl_deadline st = Some d \<longrightarrow>
        (\<exists>e. next_expiration_at m = Some e \<and> e \<le> d))"

definition session_blocks :: "manager \<Rightarrow> session_id \<Rightarrow> offload_key set" where
  "session_blocks m sid =
     (case map_of (sessions m) sid of None \<Rightarrow> {} | Some st \<Rightarrow> block_keys st)"

definition active_ids :: "manager \<Rightarrow> session_id set" where
  "active_ids m = {sid. \<exists>st. map_of (sessions m) sid = Some st \<and> status st = ACTIVE}"

definition residency_ok :: "manager \<Rightarrow> bool" where
  "residency_ok m \<longleftrightarrow> tracker_inv (residency m) \<and>
     (\<forall>sid. get_session_keys (residency m) sid = session_blocks m sid) \<and>
     active_sessions (residency m) = (if enabled m then active_ids m else {})"

definition manager_inv :: "manager \<Rightarrow> bool" where
  "manager_inv m \<longleftrightarrow> sessions_ok m \<and> reqs_ok m \<and> deadlines_ok m \<and> residency_ok m"

lemma manager_invD:
  assumes "manager_inv m"
  shows "sessions_ok m" "reqs_ok m" "deadlines_ok m" "residency_ok m"
    and "map_of (sessions m) sid = Some st \<Longrightarrow> session_ok (config m) sid st"
  using assms by (auto simp: manager_inv_def sessions_ok_def)

lemma make_manager_inv: "make_manager c = Inr m \<Longrightarrow> manager_inv m"
  by (auto simp: make_manager_def bind_result_def manager_inv_def sessions_ok_def reqs_ok_def
      deadlines_ok_def residency_ok_def session_blocks_def active_ids_def make_tracker_inv
      split: sum.splits)
    (auto simp: make_tracker_def get_session_keys_def dict_get_def split: if_splits)

lemma session_id_of:
  "sessions_ok m \<Longrightarrow> map_of (sessions m) sid = Some st \<Longrightarrow> ss_session_id st = sid"
  by (auto simp: sessions_ok_def session_ok_def)

lemma get_by_req_current:
  assumes "sessions_ok m" "get_by_req ctx m = Some st"
  shows "map_of (sessions m) (ss_session_id st) = Some st"
  using assms session_id_of by (auto simp: get_by_req_def)

lemma put_session_fields [simp]:
  "config (put_session st m) = config m"
  "residency (put_session st m) = residency m"
  "req_to_session (put_session st m) = req_to_session m"
  "next_expiration_at (put_session st m) = next_expiration_at m"
  "enabled (put_session st m) = enabled m"
  "map_of (sessions (put_session st m)) sid =
     (if sid = ss_session_id st then Some st else map_of (sessions m) sid)"
  "distinct (map fst (sessions m)) \<Longrightarrow> distinct (map fst (sessions (put_session st m)))"
  by (simp_all add: put_session_def enabled_def dict_simps)

lemma refresh_fields [simp]:
  "config (refresh_next_expiration m) = config m"
  "residency (refresh_next_expiration m) = residency m"
  "req_to_session (refresh_next_expiration m) = req_to_session m"
  "sessions (refresh_next_expiration m) = sessions m"
  "enabled (refresh_next_expiration m) = enabled m"
  by (simp_all add: refresh_next_expiration_def enabled_def)

lemma refresh_covers:
  assumes "\<And>sid st. map_of (sessions m) sid = Some st \<Longrightarrow> is_idle st \<Longrightarrow>
             ttl_deadline st \<noteq> None \<Longrightarrow> 0 < idle_ttl_sec (config m)"
  shows "deadlines_ok (refresh_next_expiration m)"
  unfolding deadlines_ok_def
proof (intro allI impI; elim conjE)
  fix sid st d
  assume st: "map_of (sessions (refresh_next_expiration m)) sid = Some st" "is_idle st" "ttl_deadline st = Some d"
  then have "(sid, st) \<in> set (sessions m)" by (simp add: map_of_SomeD)
  with st have d: "d \<in> set (idle_deadlines m)"
    by (force simp: idle_deadlines_def session_states_def)
  then have "idle_deadlines m \<noteq> []" and "Min (set (idle_deadlines m)) \<le> d" by auto
  with assms st show "\<exists>e. next_expiration_at (refresh_next_expiration m) = Some e \<and> e \<le> d"
    by (force simp: refresh_next_expiration_def)
qed

lemma residency_frame [simp]:
  "sessions_ok (m\<lparr>residency := t\<rparr>) = sessions_ok m"
  "reqs_ok (m\<lparr>residency := t\<rparr>) = reqs_ok m"
  "deadlines_ok (m\<lparr>residency := t\<rparr>) = deadlines_ok m"
  "session_blocks (m\<lparr>residency := t\<rparr>) = session_blocks m"
  "active_ids (m\<lparr>residency := t\<rparr>) = active_ids m"
  "enabled (m\<lparr>residency := t\<rparr>) = enabled m"
  by (simp_all add: sessions_ok_def reqs_ok_def deadlines_ok_def session_blocks_def fun_eq_iff
      active_ids_def enabled_def)

lemma residency_only_inv:
  assumes inv: "manager_inv m" and t: "tracker_inv t"
    and keys: "\<And>sid. get_session_keys t sid = get_session_keys (residency m) sid"
    and act: "active_sessions t = active_sessions (residency m)"
  shows "manager_inv (m\<lparr>residency := t\<rparr>)"
  using assms by (simp add: manager_inv_def residency_ok_def)

section \<open>Requests\<close>

lemma session_ok_new_request:
  assumes "sessions_ok m"
  shows "ss_session_id (fst (open_session ctx sid now m)) = sid"
    and "0 \<le> request_count (fst (open_session ctx sid now m))"
    and "status (fst (open_session ctx sid now m)) = ACTIVE"
    and "ttl_deadline (fst (open_session ctx sid now m)) = None"
    and "block_keys (fst (open_session ctx sid now m)) = session_blocks m sid"
  using assms unfolding sessions_ok_def session_ok_def
  by (force simp: open_session_def new_session_def session_blocks_def Let_def split: option.splits)+

lemma open_session_fields:
  assumes "sessions_ok m"
  shows "config (snd (open_session ctx sid now m)) = config m"
    and "enabled (snd (open_session ctx sid now m)) = enabled m"
    and "residency (snd (open_session ctx sid now m)) = residency m"
    and "req_to_session (snd (open_session ctx sid now m)) = req_to_session m"
    and "map_of (sessions (snd (open_session ctx sid now m))) s =
       (if s = sid then Some (fst (open_session ctx sid now m)) else map_of (sessions m) s)"
    and "distinct (map fst (sessions (snd (open_session ctx sid now m))))"
  using assms session_id_of [OF assms]
  by (auto simp: open_session_def new_session_def Let_def sessions_ok_def split: option.splits)

lemma open_session_reqs:
  "active_req_ids (fst (open_session ctx sid now m)) =
     (case map_of (sessions m) sid of None \<Rightarrow> {} | Some st \<Rightarrow> active_req_ids st)"
  "retained_req_ids (fst (open_session ctx sid now m)) =
     (case map_of (sessions m) sid of None \<Rightarrow> {} | Some st \<Rightarrow> retained_req_ids st)"
  by (simp_all add: open_session_def new_session_def Let_def split: option.splits)

lemma open_session_deadlines:
  assumes inv: "sessions_ok m" "deadlines_ok m"
  shows "deadlines_ok (snd (open_session ctx sid now m))"
proof (cases "map_of (sessions m) sid")
  case None
  with inv(2) show ?thesis
    by (auto simp: open_session_def deadlines_ok_def new_session_def is_idle_def Let_def)
next
  case (Some st)
  let ?st = "st\<lparr>status := ACTIVE, ss_last_access_at := now, ttl_deadline := None\<rparr>"
  have "0 < idle_ttl_sec (config m)"
    if "map_of (sessions (put_session ?st m)) s = Some st'" "is_idle st'" "ttl_deadline st' \<noteq> None" for s st'
  proof -
    from that have "map_of (sessions m) s = Some st'" by (auto simp: is_idle_def split: if_splits)
    with inv(1) have "session_ok (config m) s st'" unfolding sessions_ok_def by blast
    with that show ?thesis by (simp add: session_ok_def is_idle_def)
  qed
  then have "deadlines_ok (refresh_next_expiration (put_session ?st m))" by (intro refresh_covers) simp
  with Some show ?thesis by (simp add: open_session_def Let_def)
qed

lemma active_ids_put:
  "active_ids (put_session st m) =
     (if status st = ACTIVE then insert (ss_session_id st) (active_ids m)
      else active_ids m - {ss_session_id st})"
  by (auto simp: active_ids_def split: if_splits)

lemma on_session_active_frame:
  "get_session_keys (on_session_active now sid t) s = get_session_keys t s"
  "active_sessions (on_session_active now sid t) = insert sid (active_sessions t)"
  by (simp_all add: on_session_active_def get_session_keys_def Let_def)

lemma on_session_idle_frame:
  "get_session_keys (on_session_idle now sid t) s = get_session_keys t s"
  "active_sessions (on_session_idle now sid t) = active_sessions t - {sid}"
  by (simp_all add: on_session_idle_def get_session_keys_def Let_def)

text \<open>The state that \<open>on_new_request\<close> stores for the session.\<close>

definition joined_session :: "instant \<Rightarrow> req_context \<Rightarrow> manager \<Rightarrow> session_kv_state" where
  "joined_session now ctx m =
     (let st = fst (open_session ctx (get_session_id ctx) now m)
      in st\<lparr>active_req_ids := insert (req_id ctx) (active_req_ids st),
            retained_req_ids := retained_req_ids st - {req_id ctx},
            request_count := request_count st + 1\<rparr>)"

lemma on_new_request_fields:
  assumes "sessions_ok m" and act: "enabled m \<or> heat"
    and m'_def: "m' = snd (on_new_request clk ctx heat m)"
  shows "config m' = config m" "enabled m' = enabled m"
    and "map_of (sessions m') s =
       (if s = get_session_id ctx then Some (joined_session (clk 0) ctx m) else map_of (sessions m) s)"
    and "distinct (map fst (sessions m'))"
    and "req_to_session m' = AList.update (req_id ctx) (get_session_id ctx) (req_to_session m)"
    and "next_expiration_at m' =
       next_expiration_at (snd (open_session ctx (get_session_id ctx) (clk 0) m))"
    and "residency m' = (if enabled m
       then on_session_active (clk 1) (get_session_id ctx) (residency m) else residency m)"
proof -
  let ?sid = "get_session_id ctx"
  let ?m1 = "snd (open_session ctx ?sid (clk 0) m)"
  let ?m2 = "put_session (joined_session (clk 0) ctx m) ?m1"
  let ?m3 = "?m2\<lparr>req_to_session := AList.update (req_id ctx) ?sid (req_to_session ?m2)\<rparr>"
  have id: "ss_session_id (joined_session (clk 0) ctx m) = ?sid"
    using session_ok_new_request(1) [OF assms(1)] by (simp add: joined_session_def Let_def)
  have m': "m' = (if enabled m then ?m3\<lparr>residency := on_session_active (clk 1) ?sid (residency ?m3)\<rparr> else ?m3)"
    using act unfolding m'_def on_new_request_def joined_session_def
    by (auto simp: Let_def case_prod_beta)
  note o = open_session_fields [OF assms(1), of ctx ?sid "clk 0"]
  have e: "enabled (m\<lparr>req_to_session := x\<rparr>) = enabled m" "enabled (m\<lparr>residency := y\<rparr>) = enabled m" for m x y
    by (simp_all add: enabled_def)
  show "config m' = config m" "enabled m' = enabled m"
    "req_to_session m' = AList.update (req_id ctx) ?sid (req_to_session m)"
    "next_expiration_at m' = next_expiration_at ?m1"
    "residency m' = (if enabled m then on_session_active (clk 1) ?sid (residency m) else residency m)"
    by (simp_all add: m' o e)
  show "map_of (sessions m') s =
      (if s = ?sid then Some (joined_session (clk 0) ctx m) else map_of (sessions m) s)"
    by (simp add: m' o id)
  show "distinct (map fst (sessions m'))"
    using put_session_fields(7) [OF o(6)] by (simp add: m')
qed

lemma joined_session_ok:
  assumes "sessions_ok m"
  shows "session_ok (config m) (get_session_id ctx) (joined_session now ctx m)"
    and "block_keys (joined_session now ctx m) = session_blocks m (get_session_id ctx)"
    and "req_id ctx \<in> active_req_ids (joined_session now ctx m)"
    and "\<not> is_idle (joined_session now ctx m)"
    and "status (joined_session now ctx m) = ACTIVE"
  using session_ok_new_request [OF assms, of ctx "get_session_id ctx" now]
  by (simp_all add: joined_session_def session_ok_def is_idle_def Let_def)

lemma joined_session_reqs:
  "map_of (sessions m) (get_session_id ctx) = Some st \<Longrightarrow>
     active_req_ids st \<union> retained_req_ids st \<subseteq>
       active_req_ids (joined_session now ctx m) \<union> retained_req_ids (joined_session now ctx m)"
  by (auto simp: joined_session_def Let_def open_session_reqs)

lemma on_new_request_inv:
  assumes inv: "manager_inv m"
  shows "manager_inv (snd (on_new_request clk ctx heat m))"
proof (cases "enabled m \<or> heat")
  case False
  with inv show ?thesis by (simp add: on_new_request_def Let_def)
next
  case True
  let ?m' = "snd (on_new_request clk ctx heat m)"
  let ?sid = "get_session_id ctx"
  note f = on_new_request_fields [OF manager_invD(1) [OF inv] True refl, of clk ctx]
  note j = joined_session_ok [OF manager_invD(1) [OF inv], where ctx = ctx and now = "clk 0"]
  have "session_ok (config m) ?sid (joined_session (clk 0) ctx m)"
    by (rule joined_session_ok(1) [OF manager_invD(1) [OF inv]])
  then have s: "sessions_ok ?m'"
    unfolding sessions_ok_def using f(4) manager_invD(5) [OF inv] by (simp add: f(1,3))
  have r: "reqs_ok ?m'"
    unfolding reqs_ok_def
  proof (intro conjI allI impI)
    show "distinct (map fst (req_to_session ?m'))"
      using manager_invD(2) [OF inv] by (simp add: f(5) reqs_ok_def distinct_update)
    fix r sid assume "map_of (req_to_session ?m') r = Some sid"
    then have "r = req_id ctx \<and> sid = ?sid \<or> map_of (req_to_session m) r = Some sid"
      by (auto simp: f(5) map_of_update split: if_splits)
    then show "\<exists>st. map_of (sessions ?m') sid = Some st \<and> r \<in> active_req_ids st \<union> retained_req_ids st"
      using j(3) manager_invD(2) [OF inv] joined_session_reqs [of m ctx _ "clk 0"]
      unfolding reqs_ok_def by (fastforce simp: f(3))
  qed
  have d: "deadlines_ok ?m'"
    using open_session_deadlines [OF manager_invD(1,3) [OF inv], of ctx ?sid "clk 0"] j(4)
      open_session_fields(5) [OF manager_invD(1) [OF inv], of ctx ?sid "clk 0"]
    unfolding deadlines_ok_def f(3,6) by (auto split: if_splits)
  have "residency_ok ?m'"
  proof -
    have "session_blocks ?m' s = session_blocks m s" for s
      by (simp add: session_blocks_def f(3) j(2))
    moreover have "active_ids ?m' = insert ?sid (active_ids m)"
      by (auto simp: active_ids_def f(3) j(5))
    ultimately show ?thesis
      using manager_invD(4) [OF inv]
      by (simp add: residency_ok_def f(2,7) on_session_active_inv on_session_active_frame)
  qed
  with s r d show ?thesis by (simp add: manager_inv_def)
qed


text \<open>Rewriting a current session in place, and the residency and deadline gate with it.\<close>

lemma update_session_inv:
  assumes inv: "manager_inv m"
    and cur: "map_of (sessions m) (ss_session_id st) = Some st0"
    and ok: "session_ok (config m) (ss_session_id st) st"
    and reqs: "active_req_ids st0 \<union> retained_req_ids st0 \<subseteq> active_req_ids st \<union> retained_req_ids st"
    and res: "tracker_inv t"
      "\<And>sid. get_session_keys t sid =
          (if sid = ss_session_id st then block_keys st else session_blocks m sid)"
      "active_sessions t = (if enabled m then active_ids (put_session st m) else {})"
    and gate: "\<And>e. next_expiration_at m = Some e \<Longrightarrow> \<exists>e'. nxt = Some e' \<and> e' \<le> e"
      "\<And>d. is_idle st \<Longrightarrow> ttl_deadline st = Some d \<Longrightarrow> \<exists>e. nxt = Some e \<and> e \<le> d"
  shows "manager_inv ((put_session st m)\<lparr>residency := t, next_expiration_at := nxt\<rparr>)"
proof -
  let ?m = "(put_session st m)\<lparr>residency := t, next_expiration_at := nxt\<rparr>"
  have "sessions_ok ?m"
    using manager_invD(1) [OF inv] ok by (simp add: sessions_ok_def)
  moreover have "reqs_ok ?m"
    using manager_invD(2) [OF inv] cur reqs unfolding reqs_ok_def by fastforce
  moreover have "deadlines_ok ?m"
    unfolding deadlines_ok_def
  proof (intro allI impI; elim conjE)
    fix sid st' d
    assume st': "map_of (sessions ?m) sid = Some st'" "is_idle st'" "ttl_deadline st' = Some d"
    show "\<exists>e. next_expiration_at ?m = Some e \<and> e \<le> d"
    proof (cases "sid = ss_session_id st")
      case True
      with st' gate(2) show ?thesis by simp
    next
      case False
      with st' manager_invD(3) [OF inv] obtain e where "next_expiration_at m = Some e" "e \<le> d"
        unfolding deadlines_ok_def by force
      with gate(1) show ?thesis by fastforce
    qed
  qed
  moreover have "residency_ok ?m"
  proof -
    have "session_blocks ?m sid = (if sid = ss_session_id st then block_keys st else session_blocks m sid)" for sid
      by (simp add: session_blocks_def)
    moreover have "active_ids ?m = active_ids (put_session st m)" by (simp add: active_ids_def)
    moreover have "enabled ?m = enabled m" by (simp add: enabled_def put_session_def)
    ultimately show ?thesis using res by (simp add: residency_ok_def)
  qed
  ultimately show ?thesis by (simp add: manager_inv_def)
qed

lemma manager_frame:
  "(put_session st m)\<lparr>residency := residency m, next_expiration_at := next_expiration_at m\<rparr> = put_session st m"
  by (simp add: put_session_def)

lemma session_blocks_residency:
  "manager_inv m \<Longrightarrow> get_session_keys (residency m) sid = session_blocks m sid"
  using manager_invD(4) [of m] by (simp add: residency_ok_def)

lemma tracker_inv_residency: "manager_inv m \<Longrightarrow> tracker_inv (residency m)"
  using manager_invD(4) [of m] by (simp add: residency_ok_def)

lemma active_sessions_residency:
  "manager_inv m \<Longrightarrow> active_sessions (residency m) = (if enabled m then active_ids m else {})"
  using manager_invD(4) [of m] by (simp add: residency_ok_def)

lemma record_reuse_hit_inv:
  assumes inv: "manager_inv m"
  shows "manager_inv (record_reuse_hit now ctx n m)"
proof (cases "get_by_req ctx m")
  case (Some st0)
  let ?st1 = "if last_reuse_req_id st0 \<noteq> Some (req_id ctx)
    then st0\<lparr>reuse_request_count := reuse_request_count st0 + 1, last_reuse_req_id := Some (req_id ctx)\<rparr> else st0"
  let ?st = "?st1\<lparr>reuse_hit_blocks := reuse_hit_blocks ?st1 + max 0 n,
      last_reuse_at := Some now, ss_last_access_at := now\<rparr>"
  have cur: "map_of (sessions m) (ss_session_id st0) = Some st0"
    by (rule get_by_req_current [OF manager_invD(1) [OF inv] Some])
  then have ok: "session_ok (config m) (ss_session_id st0) st0" by (rule manager_invD(5) [OF inv])
  have same: "ss_session_id ?st = ss_session_id st0" "status ?st = status st0"
    "active_req_ids ?st = active_req_ids st0" "retained_req_ids ?st = retained_req_ids st0"
    "block_keys ?st = block_keys st0" "ttl_deadline ?st = ttl_deadline st0" "request_count ?st = request_count st0"
    by auto
  have "active_ids (put_session ?st m) = active_ids m"
    using cur unfolding active_ids_put same by (auto simp: active_ids_def)
  then have "manager_inv ((put_session ?st m)\<lparr>residency := residency m, next_expiration_at := next_expiration_at m\<rparr>)"
    using cur ok manager_invD(3) [OF inv]
    by (intro update_session_inv [OF inv, where st = ?st and st0 = st0])
      (auto simp only: same session_ok_def is_idle_def session_blocks_residency [OF inv]
        tracker_inv_residency [OF inv] active_sessions_residency [OF inv] session_blocks_def
        deadlines_ok_def option.simps split: if_splits)
  moreover have "record_reuse_hit now ctx n m =
      (put_session ?st m)\<lparr>residency := residency m, next_expiration_at := next_expiration_at m\<rparr>"
    using Some by (simp add: record_reuse_hit_def Let_def put_session_def)
  ultimately show ?thesis by simp
qed (use inv in \<open>simp add: record_reuse_hit_def\<close>)

lemma get_by_req_after_new_request:
  assumes "sessions_ok m" "enabled m \<or> heat"
  shows "get_by_req ctx (snd (on_new_request clk ctx heat m)) = Some (joined_session (clk 0) ctx m)"
  using on_new_request_fields [OF assms refl, of clk ctx] by (simp add: get_by_req_def map_of_update)

lemma get_or_open_total:
  assumes inv: "manager_inv m" and act: "enabled m \<or> heat"
  obtains st m' where "get_or_open clk ctx heat m = Inr (st, m')" "manager_inv m'"
    "get_by_req ctx m' = Some st" "map_of (sessions m') (ss_session_id st) = Some st"
    "config m' = config m" "enabled m' = enabled m"
proof (cases "get_by_req ctx m")
  case (Some st)
  with inv that [of st m] show ?thesis
    by (simp add: get_or_open_def get_by_req_current [OF manager_invD(1) [OF inv] Some])
next
  case None
  let ?m' = "snd (on_new_request clk ctx heat m)"
  have g: "get_by_req ctx ?m' = Some (joined_session (clk 0) ctx m)"
    by (rule get_by_req_after_new_request [OF manager_invD(1) [OF inv] act])
  have inv': "manager_inv ?m'" by (rule on_new_request_inv [OF inv])
  show ?thesis
    using None g inv' get_by_req_current [OF manager_invD(1) [OF inv'] g]
      on_new_request_fields(1,2) [OF manager_invD(1) [OF inv] act refl]
    by (intro that [of "joined_session (clk 0) ctx m" ?m']) (simp_all add: get_or_open_def Let_def)
qed

lemma record_request_keys_inv:
  assumes inv: "manager_inv m"
  obtains m' where "record_request_keys clk ctx keys m = Inr m'" "manager_inv m'"
proof (cases "enabled m")
  case False
  with inv that [of m] show ?thesis by (simp add: record_request_keys_def)
next
  case True
  then obtain st m1 where g: "get_or_open clk ctx False m = Inr (st, m1)" "manager_inv m1"
    and cur: "map_of (sessions m1) (ss_session_id st) = Some st"
    using get_or_open_total [OF inv, of False clk ctx] by blast
  let ?st = "st\<lparr>block_keys := block_keys st \<union> set keys, ss_last_access_at := clk 2\<rparr>"
  let ?t = "record_access (clk 3) (ss_session_id st) keys (residency m1)"
  have ok: "session_ok (config m1) (ss_session_id st) st" by (rule manager_invD(5) [OF g(2) cur])
  have acc: "active_sessions ?t = active_sessions (residency m1)"
    unfolding record_access_def
    by (rule fold_invariant [where Q = "\<lambda>_. True" and P = "\<lambda>t. active_sessions t = active_sessions (residency m1)"])
      (simp_all add: record_access_key_def Let_def)
  have same: "active_ids (put_session ?st m1) = active_ids m1"
    using cur unfolding active_ids_put by (auto simp: active_ids_def)
  have "manager_inv ((put_session ?st m1)\<lparr>residency := ?t, next_expiration_at := next_expiration_at m1\<rparr>)"
    using cur ok manager_invD(3) [OF g(2)]
    by (intro update_session_inv [OF g(2), where st = ?st and st0 = st])
      (auto simp: session_ok_def is_idle_def acc same session_blocks_residency [OF g(2)] deadlines_ok_def
        active_sessions_residency [OF g(2)] get_session_keys_record_access session_blocks_def
        intro: record_access_inv tracker_inv_residency [OF g(2)])
  moreover have "record_request_keys clk ctx keys m =
      Inr ((put_session ?st m1)\<lparr>residency := ?t, next_expiration_at := next_expiration_at m1\<rparr>)"
    using True g(1) by (simp add: record_request_keys_def bind_result_def Let_def put_session_def)
  ultimately show ?thesis using that by blast
qed


definition min_deadline :: "instant option \<Rightarrow> instant option \<Rightarrow> instant option" where
  "min_deadline nxt d =
     (case d of None \<Rightarrow> nxt
      | Some v \<Rightarrow> (case nxt of None \<Rightarrow> Some v | Some e \<Rightarrow> if v < e then Some v else Some e))"

definition left_session :: "instant \<Rightarrow> req_context \<Rightarrow> session_kv_state \<Rightarrow> session_kv_state" where
  "left_session now ctx st =
     st\<lparr>active_req_ids := active_req_ids st - {req_id ctx},
        retained_req_ids := insert (req_id ctx) (retained_req_ids st), ss_last_access_at := now\<rparr>"

definition idle_session :: "instant \<Rightarrow> req_context \<Rightarrow> rat \<Rightarrow> session_kv_state \<Rightarrow> session_kv_state" where
  "idle_session now ctx ttl st =
     (left_session now ctx st)\<lparr>status := IDLE_RETAINED,
        ttl_deadline := (if 0 < ttl then Some (now + ttl) else None)\<rparr>"

lemma on_request_finished_eq:
  assumes "enabled m \<or> heat" "get_or_open clk ctx heat m = Inr (st, m1)" "enabled m1 = enabled m"
    "config m1 = config m"
  shows "on_request_finished clk ctx heat m =
    Inr (if active_req_ids st - {req_id ctx} \<noteq> {} then put_session (left_session (clk 2) ctx st) m1
         else (put_session (idle_session (clk 2) ctx (idle_ttl_sec (config m)) st) m1)
           \<lparr>residency := (if enabled m then on_session_idle (clk 3) (ss_session_id st) (residency m1)
                          else residency m1),
            next_expiration_at := min_deadline (next_expiration_at m1)
              (ttl_deadline (idle_session (clk 2) ctx (idle_ttl_sec (config m)) st))\<rparr>)"
  using assms
  by (auto simp: on_request_finished_def bind_result_def Let_def left_session_def idle_session_def
      min_deadline_def enabled_def put_session_def split: option.splits)

lemma on_request_finished_inv:
  assumes inv: "manager_inv m"
  obtains m' where "on_request_finished clk ctx heat m = Inr m'" "manager_inv m'"
proof (cases "enabled m \<or> heat")
  case False
  with inv that [of m] show ?thesis by (simp add: on_request_finished_def)
next
  case True
  then obtain st m1 where g: "get_or_open clk ctx heat m = Inr (st, m1)" "manager_inv m1"
    and cur: "map_of (sessions m1) (ss_session_id st) = Some st"
    and cfg: "config m1 = config m" "enabled m1 = enabled m"
    using get_or_open_total [OF inv, of heat clk ctx] by metis
  note eq = on_request_finished_eq [OF True g(1) cfg(2,1)]
  have ok: "session_ok (config m1) (ss_session_id st) st" by (rule manager_invD(5) [OF g(2) cur])
  show ?thesis
  proof (cases "active_req_ids st - {req_id ctx} = {}")
    case False
    let ?st = "left_session (clk 2) ctx st"
    have act: "status st = ACTIVE" "ttl_deadline st = None" using ok False by (auto simp: session_ok_def)
    then have same: "active_ids (put_session ?st m1) = active_ids m1"
      using cur unfolding active_ids_put by (auto simp: active_ids_def left_session_def)
    have "manager_inv ((put_session ?st m1)\<lparr>residency := residency m1, next_expiration_at := next_expiration_at m1\<rparr>)"
      using cur ok False act
      by (intro update_session_inv [OF g(2), where st = ?st and st0 = st])
        (auto simp: session_ok_def is_idle_def same [unfolded left_session_def]
          session_blocks_residency [OF g(2)] left_session_def
          active_sessions_residency [OF g(2)] session_blocks_def tracker_inv_residency [OF g(2)])
    with eq False that show ?thesis by (simp add: manager_frame)
  next
    case True
    let ?st = "idle_session (clk 2) ctx (idle_ttl_sec (config m)) st"
    let ?t = "if enabled m then on_session_idle (clk 3) (ss_session_id st) (residency m1) else residency m1"
    let ?n = "min_deadline (next_expiration_at m1) (ttl_deadline ?st)"
    have ids: "active_ids (put_session ?st m1) = active_ids m1 - {ss_session_id st}"
      unfolding active_ids_put by (simp add: idle_session_def left_session_def)
    have "manager_inv ((put_session ?st m1)\<lparr>residency := ?t, next_expiration_at := ?n\<rparr>)"
    proof (rule update_session_inv [OF g(2), where st = ?st and st0 = st and t = ?t and nxt = ?n])
      show "map_of (sessions m1) (ss_session_id ?st) = Some st"
        using cur by (simp add: idle_session_def left_session_def)
      show "session_ok (config m1) (ss_session_id ?st) ?st"
        using ok True cfg by (simp add: session_ok_def idle_session_def left_session_def)
      show "active_req_ids st \<union> retained_req_ids st \<subseteq> active_req_ids ?st \<union> retained_req_ids ?st"
        by (auto simp: idle_session_def left_session_def)
      show "tracker_inv ?t" by (simp add: on_session_idle_inv tracker_inv_residency [OF g(2)])
      show "get_session_keys ?t sid = (if sid = ss_session_id ?st then block_keys ?st else session_blocks m1 sid)" for sid
        using cur by (simp add: on_session_idle_frame session_blocks_residency [OF g(2)] session_blocks_def
            idle_session_def left_session_def)
      show "active_sessions ?t = (if enabled m1 then active_ids (put_session ?st m1) else {})"
        by (simp add: ids cfg on_session_idle_frame active_sessions_residency [OF g(2)])
      show "\<exists>e'. ?n = Some e' \<and> e' \<le> e" if "next_expiration_at m1 = Some e" for e
        using that by (auto simp: min_deadline_def split: option.splits)
      show "\<exists>e. ?n = Some e \<and> e \<le> d" if "ttl_deadline ?st = Some d" for d
        unfolding that by (auto simp: min_deadline_def split: option.splits)
    qed
    with eq True that show ?thesis by simp
  qed
qed

section \<open>Removing sessions\<close>

definition remove_all ::
  "(session_id \<Rightarrow> instant) \<Rightarrow> session_kv_state list \<Rightarrow> offload_key set \<times> manager \<Rightarrow>
   offload_key set \<times> manager" where
  "remove_all rel sts um =
     fold (\<lambda>st (u, m). (u \<union> fst (remove_session rel st m), snd (remove_session rel st m))) sts um"

lemma remove_session_fields:
  "config (snd (remove_session rel st m)) = config m"
  "next_expiration_at (snd (remove_session rel st m)) = next_expiration_at m"
  "residency (snd (remove_session rel st m)) =
     snd (release_session (rel (ss_session_id st)) (ss_session_id st) (residency m))"
  "fst (remove_session rel st m) =
     fst (release_session (rel (ss_session_id st)) (ss_session_id st) (residency m))"
  "sessions (snd (remove_session rel st m)) = filter (\<lambda>p. fst p \<noteq> ss_session_id st) (sessions m)"
  "req_to_session (snd (remove_session rel st m)) =
     filter (\<lambda>p. fst p \<notin> active_req_ids st \<union> retained_req_ids st) (req_to_session m)"
  by (auto simp: remove_session_def delete_state_def Let_def case_prod_beta AList.delete_eq
      intro!: filter_cong)

lemma remove_all_fields:
  "config (snd (remove_all rel sts (u, m))) = config m"
  "next_expiration_at (snd (remove_all rel sts (u, m))) = next_expiration_at m"
  "sessions (snd (remove_all rel sts (u, m))) =
     filter (\<lambda>p. fst p \<notin> ss_session_id ` set sts) (sessions m)"
  "req_to_session (snd (remove_all rel sts (u, m))) =
     filter (\<lambda>p. fst p \<notin> (\<Union>st \<in> set sts. active_req_ids st \<union> retained_req_ids st)) (req_to_session m)"
  unfolding remove_all_def
  by (induction sts arbitrary: u m) (auto simp: remove_session_fields intro!: filter_cong)

lemma remove_all_residency:
  "(fst (remove_all rel sts (u, m)), residency (snd (remove_all rel sts (u, m)))) =
     fold (\<lambda>sid (u, t). (u \<union> fst (release_session (rel sid) sid t), snd (release_session (rel sid) sid t)))
       (map ss_session_id sts) (u, residency m)"
  unfolding remove_all_def
  by (induction sts arbitrary: u m) (auto simp: remove_session_fields)

lemma active_sessions_release_all:
  "active_sessions (snd (fold (\<lambda>sid (u, t). (u \<union> fst (release_session (rel sid) sid t),
      snd (release_session (rel sid) sid t))) sids (u, t))) = active_sessions t - set sids"
  by (induction sids arbitrary: u t) (auto simp: release_session_fields)

lemma remove_all_tracker:
  assumes "tracker_inv (residency m)"
  shows "tracker_inv (residency (snd (remove_all rel sts (u, m))))"
    and "owners (residency (snd (remove_all rel sts (u, m)))) k = owners (residency m) k - ss_session_id ` set sts"
    and "fst (remove_all rel sts (u, m)) =
       u \<union> {k. owners (residency m) k \<noteq> {} \<and> owners (residency m) k \<subseteq> ss_session_id ` set sts}"
    and "active_sessions (residency (snd (remove_all rel sts (u, m)))) =
       active_sessions (residency m) - ss_session_id ` set sts"
  using trk.release_list [OF assms, of rel "map ss_session_id sts" u]
    active_sessions_release_all [of rel "map ss_session_id sts" u "residency m"]
  unfolding remove_all_residency [symmetric, of rel sts u m] by simp_all

lemma map_of_filter_neq:
  "map_of (filter (\<lambda>p. fst p \<notin> K) d) k = (if k \<in> K then None else map_of d k)"
  by (rule map_of_remove_keys)

text \<open>Removing idle sessions keeps the invariant.\<close>

lemma remove_all_inv:
  assumes inv: "manager_inv m"
    and cur: "\<And>st. st \<in> set sts \<Longrightarrow> map_of (sessions m) (ss_session_id st) = Some st"
  shows "manager_inv (snd (remove_all rel sts (u, m)))"
proof -
  let ?m = "snd (remove_all rel sts (u, m))" and ?ids = "ss_session_id ` set sts"
  note f = remove_all_fields [of rel sts u m]
  note t = remove_all_tracker [OF tracker_inv_residency [OF inv], of rel sts u]
  have en: "enabled ?m = enabled m" by (simp add: enabled_def f(1))
  have s: "map_of (sessions ?m) sid = (if sid \<in> ?ids then None else map_of (sessions m) sid)" for sid
    by (simp only: f(3) map_of_filter_neq)
  have "sessions_ok ?m"
    using manager_invD(1) [OF inv] unfolding sessions_ok_def s f(1)
    by (auto simp: f(3) distinct_map_filter split: if_splits)
  moreover have "reqs_ok ?m"
    unfolding reqs_ok_def
  proof (intro conjI allI impI)
    show "distinct (map fst (req_to_session ?m))"
      using manager_invD(2) [OF inv] by (auto simp: f(4) reqs_ok_def distinct_map_filter)
    fix r sid assume r: "map_of (req_to_session ?m) r = Some sid"
    then have "map_of (req_to_session m) r = Some sid"
      and free: "r \<notin> (\<Union>st \<in> set sts. active_req_ids st \<union> retained_req_ids st)"
      unfolding f(4) map_of_filter_neq by (simp_all split: if_splits)
    then obtain st where st: "map_of (sessions m) sid = Some st" "r \<in> active_req_ids st \<union> retained_req_ids st"
      using manager_invD(2) [OF inv] unfolding reqs_ok_def by blast
    have "sid \<notin> ?ids"
    proof
      assume "sid \<in> ?ids"
      then obtain st' where "st' \<in> set sts" "sid = ss_session_id st'" by blast
      with cur st(1) have "st \<in> set sts" by fastforce
      with free st(2) show False by blast
    qed
    with st show "\<exists>st. map_of (sessions ?m) sid = Some st \<and> r \<in> active_req_ids st \<union> retained_req_ids st"
      unfolding s by auto
  qed
  moreover have "deadlines_ok ?m"
    using manager_invD(3) [OF inv] unfolding deadlines_ok_def s f(2) by (auto split: if_splits)
  moreover have "residency_ok ?m"
  proof -
    have "get_session_keys (residency ?m) sid = session_blocks ?m sid" for sid
    proof -
      have "k \<in> get_session_keys (residency ?m) sid \<longleftrightarrow> k \<in> session_blocks ?m sid" for k
        using trk.index [OF t(1), of sid k] trk.index [OF tracker_inv_residency [OF inv], of sid k]
        by (simp add: t(2) session_blocks_residency [OF inv]) (auto simp: session_blocks_def s)
      then show ?thesis by blast
    qed
    moreover have "active_ids ?m = active_ids m - ?ids" by (auto simp: active_ids_def s)
    ultimately show ?thesis
      using t(1) by (simp add: residency_ok_def en t(4) active_sessions_residency [OF inv])
  qed
  ultimately show ?thesis by (simp add: manager_inv_def)
qed


lemma unmap_request_inv:
  assumes inv: "manager_inv m"
  shows "manager_inv (m\<lparr>req_to_session := AList.delete r (req_to_session m)\<rparr>)"
proof -
  let ?m = "m\<lparr>req_to_session := AList.delete r (req_to_session m)\<rparr>"
  have "reqs_ok ?m"
    using manager_invD(2) [OF inv] by (auto simp: reqs_ok_def map_of_delete_key distinct_delete)
  moreover have "sessions_ok ?m" "deadlines_ok ?m" "residency_ok ?m"
    using manager_invD(1,3,4) [OF inv]
    by (simp_all add: sessions_ok_def deadlines_ok_def residency_ok_def session_blocks_def
        active_ids_def enabled_def)
  ultimately show ?thesis by (simp add: manager_inv_def)
qed

text \<open>The request leaves the mapping before it leaves the session's retained set.\<close>

definition detached :: "req_context \<Rightarrow> session_kv_state \<Rightarrow> session_kv_state" where
  "detached ctx st = st\<lparr>retained_req_ids := retained_req_ids st - {req_id ctx}\<rparr>"

definition finalizing :: "req_context \<Rightarrow> session_kv_state \<Rightarrow> manager \<Rightarrow> manager" where
  "finalizing ctx st m =
     put_session (detached ctx st) (m\<lparr>req_to_session := AList.delete (req_id ctx) (req_to_session m)\<rparr>)"

lemma on_request_finalized_eq:
  "on_request_finalized now ctx m =
     (case get_by_req ctx m of
        None \<Rightarrow> m\<lparr>req_to_session := AList.delete (req_id ctx) (req_to_session m)\<rparr>
      | Some st \<Rightarrow>
          if active_req_ids st \<noteq> {} \<or> \<not> retained_req_ids st \<subseteq> {req_id ctx} \<or> has_stable_id st
          then finalizing ctx st m
          else snd (remove_all (\<lambda>_. now) [detached ctx st] ({}, finalizing ctx st m)))"
  by (simp add: on_request_finalized_def Let_def detached_def finalizing_def remove_all_def
      remove_session_def case_prod_beta delete_state_def split: option.splits)

lemma finalizing_inv:
  assumes inv: "manager_inv m" and cur: "map_of (sessions m) (ss_session_id st) = Some st"
  shows "manager_inv (finalizing ctx st m)"
    and "map_of (sessions (finalizing ctx st m)) (ss_session_id st) = Some (detached ctx st)"
proof -
  let ?m1 = "m\<lparr>req_to_session := AList.delete (req_id ctx) (req_to_session m)\<rparr>"
  let ?m = "finalizing ctx st m"
  have id: "ss_session_id (detached ctx st) = ss_session_id st" by (simp add: detached_def)
  have inv1: "manager_inv ?m1" by (rule unmap_request_inv [OF inv])
  have ok: "session_ok (config m) (ss_session_id st) st" by (rule manager_invD(5) [OF inv cur])
  have cfg: "config ?m = config m" "enabled ?m = enabled m" "residency ?m = residency m"
    "next_expiration_at ?m = next_expiration_at m"
    "req_to_session ?m = AList.delete (req_id ctx) (req_to_session m)"
    by (simp_all add: finalizing_def enabled_def)
  have s: "map_of (sessions ?m) sid =
      (if sid = ss_session_id st then Some (detached ctx st) else map_of (sessions m) sid)" for sid
    by (simp add: finalizing_def id)
  then show "map_of (sessions ?m) (ss_session_id st) = Some (detached ctx st)" by simp
  have "sessions_ok ?m"
    using manager_invD(1) [OF inv] ok
    unfolding sessions_ok_def s cfg by (auto simp: finalizing_def session_ok_def detached_def put_session_def distinct_update)
  moreover have "reqs_ok ?m"
    unfolding reqs_ok_def s cfg
  proof (intro conjI allI impI)
    show "distinct (map fst (AList.delete (req_id ctx) (req_to_session m)))"
      using manager_invD(2) [OF inv] by (simp add: reqs_ok_def distinct_delete)
    fix r sid assume "map_of (AList.delete (req_id ctx) (req_to_session m)) r = Some sid"
    then have "r \<noteq> req_id ctx" "map_of (req_to_session m) r = Some sid"
      by (simp_all add: map_of_delete_key split: if_splits)
    with manager_invD(2) [OF inv] obtain st' where "map_of (sessions m) sid = Some st'"
        "r \<in> active_req_ids st' \<union> retained_req_ids st'" unfolding reqs_ok_def by blast
    with \<open>r \<noteq> req_id ctx\<close> cur
    show "\<exists>st'. (if sid = ss_session_id st then Some (detached ctx st) else map_of (sessions m) sid) = Some st' \<and>
        r \<in> active_req_ids st' \<union> retained_req_ids st'"
      by (cases "sid = ss_session_id st") (auto simp: detached_def)
  qed
  moreover have "deadlines_ok ?m"
    using manager_invD(3) [OF inv] cur
    unfolding deadlines_ok_def s cfg by (auto simp: detached_def is_idle_def)
  moreover have "residency_ok ?m"
  proof -
    have "session_blocks ?m = session_blocks m" "active_ids ?m = active_ids m"
      using cur by (auto simp: session_blocks_def active_ids_def s detached_def fun_eq_iff)
    then show ?thesis using manager_invD(4) [OF inv] by (simp add: residency_ok_def cfg)
  qed
  ultimately show "manager_inv ?m" by (simp add: manager_inv_def)
qed

lemma on_request_finalized_inv:
  assumes inv: "manager_inv m"
  shows "manager_inv (on_request_finalized now ctx m)"
proof (cases "get_by_req ctx m")
  case None
  then show ?thesis by (simp add: on_request_finalized_eq unmap_request_inv [OF inv])
next
  case (Some st)
  have cur: "map_of (sessions m) (ss_session_id st) = Some st"
    by (rule get_by_req_current [OF manager_invD(1) [OF inv] Some])
  note fin = finalizing_inv [OF inv cur, of ctx]
  have "manager_inv (snd (remove_all (\<lambda>_. now) [detached ctx st] ({}, finalizing ctx st m)))"
    using fin(2) by (intro remove_all_inv [OF fin(1)]) (simp add: detached_def)
  with Some fin(1) show ?thesis by (simp add: on_request_finalized_eq)
qed

section \<open>Expiry\<close>

lemma current_states:
  assumes "sessions_ok m"
  shows "st \<in> set (session_states m) \<longleftrightarrow> map_of (sessions m) (ss_session_id st) = Some st"
    and "distinct (session_states m)" and "inj_on ss_session_id (set (session_states m))"
proof -
  have d: "distinct (map fst (sessions m))" using assms by (simp add: sessions_ok_def)
  have id: "ss_session_id (snd p) = fst p" if "p \<in> set (sessions m)" for p
    using session_id_of [OF assms, of "fst p" "snd p"] that d by (simp add: map_of_eq_Some_iff)
  show "st \<in> set (session_states m) \<longleftrightarrow> map_of (sessions m) (ss_session_id st) = Some st"
    using in_values_iff [OF d, of st] session_id_of [OF assms] by (auto simp: session_states_def)
  have "map ss_session_id (session_states m) = map fst (sessions m)"
    using id by (simp add: session_states_def)
  then show "distinct (session_states m)" "inj_on ss_session_id (set (session_states m))"
    using d by (metis distinct_map)+
qed

lemma expire_fold:
  "fold (expire_one now rel pk pr) sts (res, m) =
     (let (u, m') = remove_all rel (filter (expirable now pk pr) sts) (unreferenced_keys res, m)
      in (res\<lparr>unreferenced_keys := u,
              expired_sessions := expired_sessions res + int (length (filter (expirable now pk pr) sts))\<rparr>, m'))"
  by (induction sts arbitrary: res m)
    (simp_all add: expire_one_def remove_all_def case_prod_beta Let_def)

definition due_sessions :: "instant \<Rightarrow> offload_key list \<Rightarrow> req_id list \<Rightarrow> manager \<Rightarrow> session_kv_state list" where
  "due_sessions now pk pr m = filter (expirable now (set pk) (set pr)) (session_states m)"

text \<open>Expiry without the gate: every due session is removed, whatever \<open>_next_expiration_at\<close> says.\<close>

definition ungated_expiry ::
  "instant \<Rightarrow> (session_id \<Rightarrow> instant) \<Rightarrow> offload_key list \<Rightarrow> req_id list \<Rightarrow> manager \<Rightarrow>
   expiration_result \<times> manager" where
  "ungated_expiry now rel pk pr m =
     (let (u, m') = remove_all rel (due_sessions now pk pr m) ({}, m)
      in (\<lparr>expired_sessions = int (length (due_sessions now pk pr m)), pruned_sessions = 0,
           unreferenced_keys = u\<rparr>, m'))"

lemma expire_idle_eq:
  "enabled m \<Longrightarrow> 0 < idle_ttl_sec (config m) \<Longrightarrow> has_expiration_due now m \<Longrightarrow>
     expire_idle_sessions now rel pk pr m =
       (fst (ungated_expiry now rel pk pr m), refresh_next_expiration (snd (ungated_expiry now rel pk pr m)))"
  by (auto simp: expire_idle_sessions_def has_expiration_due_def expire_fold ungated_expiry_def
      due_sessions_def no_expiration_def Let_def case_prod_beta split: option.splits)

lemma no_due_sessions:
  assumes inv: "manager_inv m" and gate: "\<not> has_expiration_due now m"
  shows "due_sessions now pk pr m = []"
proof -
  have "\<not> expirable now (set pk) (set pr) st" if "st \<in> set (session_states m)" for st
  proof
    assume ex: "expirable now (set pk) (set pr) st"
    then obtain d where d: "ttl_deadline st = Some d" "d \<le> now" "is_idle st"
      by (auto simp: expirable_def split: option.splits)
    from that have "map_of (sessions m) (ss_session_id st) = Some st"
      using current_states(1) [OF manager_invD(1) [OF inv]] by blast
    with d manager_invD(3) [OF inv] obtain e where "next_expiration_at m = Some e" "e \<le> d"
      unfolding deadlines_ok_def by blast
    with d(2) gate show False by (simp add: has_expiration_due_def)
  qed
  then show ?thesis by (simp add: due_sessions_def)
qed

end
