(* ===== verification/Lifecycle_Policy.thy ===== *)
theory Lifecycle_Policy
  imports Lifecycle_Props
begin

text \<open>
  What \<open>SessionLifecycleManager\<close> promises to the tiering manager: no assertion of it can
  fail, expiry and pruning are exact, the session heat is a bounded estimate, anonymous
  sessions leave nothing behind, and configurations are validated.
\<close>

section \<open>Any sequence of operations\<close>

datatype manager_op =
    NewRequest "nat \<Rightarrow> instant" req_context bool
  | ReuseHit instant req_context int
  | RequestKeys "nat \<Rightarrow> instant" req_context "offload_key list"
  | RequestFinished "nat \<Rightarrow> instant" req_context bool
  | RequestFinalized instant req_context
  | ExpireIdle instant "session_id \<Rightarrow> instant" "offload_key list" "req_id list"
  | PruneIdle "session_id \<Rightarrow> instant"
  | TrackerOp tracker_op

fun manager_step :: "manager_op \<Rightarrow> manager \<Rightarrow> manager result" where
  "manager_step (NewRequest clk ctx heat) m = Inr (snd (on_new_request clk ctx heat m))"
| "manager_step (ReuseHit now ctx n) m = Inr (record_reuse_hit now ctx n m)"
| "manager_step (RequestKeys clk ctx ks) m = record_request_keys clk ctx ks m"
| "manager_step (RequestFinished clk ctx heat) m = on_request_finished clk ctx heat m"
| "manager_step (RequestFinalized now ctx) m = Inr (on_request_finalized now ctx m)"
| "manager_step (ExpireIdle now rel pk pr) m = Inr (snd (expire_idle_sessions now rel pk pr m))"
| "manager_step (PruneIdle rel) m = Inr (snd (prune_idle_sessions rel m))"
| "manager_step (TrackerOp op) m = Inr (m\<lparr>residency := tracker_step op (residency m)\<rparr>)"

text \<open>
  The tiering manager also calls the tracker directly, for residency and transfers; the
  operations that change sessions go through the lifecycle manager.
\<close>

fun metadata_op :: "tracker_op \<Rightarrow> bool" where
  "metadata_op (MarkCpuResident _ _ _) = True"
| "metadata_op (MarkSecondaryResident _ _ _ _) = True"
| "metadata_op (StartTransfer _ _ _ _) = True"
| "metadata_op (FinishTransfer _ _ _) = True"
| "metadata_op ClearCpuResidency = True"
| "metadata_op Prune = True"
| "metadata_op _ = False"

fun allowed_op :: "manager_op \<Rightarrow> bool" where
  "allowed_op (TrackerOp op) = metadata_op op"
| "allowed_op _ = True"

lemma fold_frame: "(\<And>x s. f (g x s) = f s) \<Longrightarrow> f (fold g xs s) = f s"
  by (induction xs arbitrary: s) simp_all

lemma mark_cpu_frame [simp]:
  "session_keys (mark_cpu_resident now ks b t) = session_keys t"
  "active_sessions (mark_cpu_resident now ks b t) = active_sessions t"
  by (simp_all add: mark_cpu_resident_def fold_frame [where f = session_keys]
      fold_frame [where f = active_sessions])

lemma mark_secondary_frame [simp]:
  "session_keys (mark_secondary_resident now ks tier b t) = session_keys t"
  "active_sessions (mark_secondary_resident now ks tier b t) = active_sessions t"
  by (simp_all add: mark_secondary_resident_def fold_frame [where f = session_keys]
      fold_frame [where f = active_sessions])

lemma start_transfer_frame [simp]:
  "session_keys (start_transfer now ks src tgt t) = session_keys t"
  "active_sessions (start_transfer now ks src tgt t) = active_sessions t"
  by (simp_all add: start_transfer_def fold_frame [where f = session_keys]
      fold_frame [where f = active_sessions])

lemma finish_transfer_key_frame [simp]:
  "session_keys (finish_transfer_key tr k t) = session_keys t"
  "active_sessions (finish_transfer_key tr k t) = active_sessions t"
  by (simp_all add: finish_transfer_key_def split: option.splits)

lemma finish_transfer_frame [simp]:
  "session_keys (finish_transfer ks src tgt t) = session_keys t"
  "active_sessions (finish_transfer ks src tgt t) = active_sessions t"
  by (simp_all add: finish_transfer_def fold_frame [where f = session_keys]
      fold_frame [where f = active_sessions])

lemma clear_cpu_frame [simp]:
  "session_keys (clear_cpu_residency t) = session_keys t"
  "active_sessions (clear_cpu_residency t) = active_sessions t"
  by (simp_all add: clear_cpu_residency_def)

lemma metadata_frame:
  assumes "metadata_op op"
  shows "session_keys (tracker_step op t) = session_keys t"
    and "active_sessions (tracker_step op t) = active_sessions t"
  using assms by (cases op; simp)+

lemma prune_fold:
  "fold (prune_one rel) sts (res, m) =
     (let (u, m') = remove_all rel sts (unreferenced_keys res, m)
      in (res\<lparr>unreferenced_keys := u, pruned_sessions := pruned_sessions res + int (length sts)\<rparr>, m'))"
  by (induction sts arbitrary: res m)
    (simp_all add: prune_one_def remove_all_def case_prod_beta Let_def)

definition prune_targets :: "manager \<Rightarrow> session_kv_state list" where
  "prune_targets m =
     (if int (length (sessions m)) \<le> max_sessions (config m) then []
      else py_take (int (length (sessions m)) - max_sessions (config m))
             (sort_key ss_last_access_at (filter prune_candidate (session_states m))))"

lemma prune_idle_eq:
  "prune_idle_sessions rel m =
     (no_expiration\<lparr>unreferenced_keys := fst (remove_all rel (prune_targets m) ({}, m)),
                    pruned_sessions := int (length (prune_targets m))\<rparr>,
      snd (remove_all rel (prune_targets m) ({}, m)))"
  by (auto simp: prune_idle_sessions_def prune_targets_def prune_fold no_expiration_def
      case_prod_beta Let_def remove_all_def)

lemma prune_targets_subset: "st \<in> set (prune_targets m) \<Longrightarrow> st \<in> set (session_states m) \<and> prune_candidate st"
  using py_take_sort_subset [of _ ss_last_access_at "filter prune_candidate (session_states m)"]
  by (auto simp: prune_targets_def split: if_splits)

lemma prune_targets_current:
  assumes "manager_inv m" "st \<in> set (prune_targets m)"
  shows "map_of (sessions m) (ss_session_id st) = Some st" "prune_candidate st"
  using prune_targets_subset [OF assms(2)] current_states(1) [OF manager_invD(1) [OF assms(1)]] by auto

lemma prune_idle_sessions_inv:
  "manager_inv m \<Longrightarrow> manager_inv (snd (prune_idle_sessions rel m))"
  by (simp add: prune_idle_eq remove_all_inv prune_targets_current(1))

lemma idle_ttl_pos:
  "manager_inv m \<Longrightarrow> map_of (sessions m) sid = Some st \<Longrightarrow> is_idle st \<Longrightarrow> ttl_deadline st \<noteq> None \<Longrightarrow>
     0 < idle_ttl_sec (config m)"
  using manager_invD(5) [of m sid st] by (simp add: session_ok_def is_idle_def)

lemma refresh_inv:
  assumes inv: "manager_inv m"
  shows "manager_inv (refresh_next_expiration m)"
proof -
  have "deadlines_ok (refresh_next_expiration m)"
    by (rule refresh_covers) (rule idle_ttl_pos [OF inv])
  with manager_invD [OF inv] show ?thesis
    by (simp add: manager_inv_def sessions_ok_def reqs_ok_def residency_ok_def session_blocks_def
        active_ids_def)
qed

lemma due_current:
  assumes "manager_inv m" "st \<in> set (due_sessions now pk pr m)"
  shows "map_of (sessions m) (ss_session_id st) = Some st" "expirable now (set pk) (set pr) st"
  using assms(2) current_states(1) [OF manager_invD(1) [OF assms(1)]] by (auto simp: due_sessions_def)

lemma ungated_expiry_inv: "manager_inv m \<Longrightarrow> manager_inv (snd (ungated_expiry now rel pk pr m))"
  by (simp add: ungated_expiry_def case_prod_beta Let_def remove_all_inv due_current(1))

lemma expire_idle_cases:
  assumes inv: "manager_inv m"
  obtains (gated) "expire_idle_sessions now rel pk pr m = (no_expiration, m)"
  | (due) "enabled m" "0 < idle_ttl_sec (config m)" "expire_idle_sessions now rel pk pr m =
       (fst (ungated_expiry now rel pk pr m), refresh_next_expiration (snd (ungated_expiry now rel pk pr m)))"
  using expire_idle_eq [of m now rel pk pr]
  by (cases "enabled m \<and> 0 < idle_ttl_sec (config m) \<and> has_expiration_due now m")
    (auto simp: expire_idle_sessions_def has_expiration_due_def not_less not_le split: option.splits)

lemma expire_idle_sessions_inv:
  assumes inv: "manager_inv m"
  shows "manager_inv (snd (expire_idle_sessions now rel pk pr m))"
  using inv by (cases rule: expire_idle_cases [OF inv, of now rel pk pr])
    (simp_all add: refresh_inv ungated_expiry_inv)

lemma manager_step_inv:
  assumes inv: "manager_inv m" and ok: "allowed_op op"
  shows "\<exists>m'. manager_step op m = Inr m' \<and> manager_inv m'"
proof (cases op)
  case (TrackerOp top)
  with ok have "metadata_op top" by simp
  with TrackerOp show ?thesis
    using residency_only_inv [OF inv tracker_step_inv [OF tracker_inv_residency [OF inv]], of top]
    by (simp add: metadata_frame get_session_keys_def)
qed (use inv in \<open>auto simp: on_new_request_inv record_reuse_hit_inv on_request_finalized_inv
      expire_idle_sessions_inv prune_idle_sessions_inv
      elim: record_request_keys_inv on_request_finished_inv\<close>)

definition manager_run :: "manager_op list \<Rightarrow> manager \<Rightarrow> manager result" where
  "manager_run ops m = fold (\<lambda>op r. bind_result r (manager_step op)) ops (Inr m)"

interpretation mgr_run: fallible_component manager_step manager_inv allowed_op
  by unfold_locales (rule manager_step_inv)

text \<open>C12: Starting from a new manager, no sequence of lifecycle operations (interleaved with
  residency updates of the tracker) fails an assertion, and the manager stays consistent:
  a session is active exactly when it has active requests, every mapped request belongs to
  a live session that holds it, the residency tracker's active sessions and ownership are
  those of the sessions, and the expiry gate is no later than any pending deadline.\<close>

theorem manager_reachable_inv:
  assumes "make_manager c = Inr m" and "list_all allowed_op ops"
  shows "\<exists>m'. manager_run ops m = Inr m' \<and> manager_inv m'"
  unfolding manager_run_def using make_manager_inv [OF assms(1)] assms(2) by (rule mgr_run.run_ok)

definition sample_config :: "rat lifecycle_config" where
  "sample_config = \<lparr>idle_ttl_sec = 10, delete_expired_secondary = False, cpu_demote_after_sec = 5,
     cpu_high_watermark = 9/10, cpu_low_watermark = 7/10, reclaim_batch_size = 64,
     residency_max_entries = 100, max_sessions = 2, residency_tracking_enabled = True\<rparr>"

definition sample_manager :: manager where
  "sample_manager = \<lparr>config = sample_config,
     residency = \<lparr>max_entries = 100, blocks = [], session_keys = [], active_sessions = {}\<rparr>,
     sessions = [], req_to_session = [], next_expiration_at = None\<rparr>"

definition sample_ctx :: "string \<Rightarrow> req_context" where
  "sample_ctx r = \<lparr>req_id = r, kv_transfer_params = Some [(''session_id'', PStr ''conv'')]\<rparr>"

definition anon_ctx :: "string \<Rightarrow> req_context" where
  "anon_ctx r = \<lparr>req_id = r, kv_transfer_params = None\<rparr>"

definition sample_clock :: "rat \<Rightarrow> nat \<Rightarrow> instant" where
  "sample_clock t i = t + of_nat i / 10"

definition sample_ops :: "manager_op list" where
  "sample_ops = [NewRequest (sample_clock 1) (sample_ctx ''r1'') True,
     RequestKeys (sample_clock 2) (sample_ctx ''r1'') [''k1'', ''k2''],
     TrackerOp (MarkCpuResident 3 [''k1''] True),
     RequestFinished (sample_clock 4) (sample_ctx ''r1'') True,
     NewRequest (sample_clock 5) (anon_ctx ''r2'') True,
     RequestKeys (sample_clock 6) (anon_ctx ''r2'') [''k2''],
     RequestFinalized 7 (sample_ctx ''r1'')]"

lemma make_sample: "make_manager sample_config = Inr sample_manager"
  by (simp add: make_manager_def make_tracker_def bind_result_def sample_config_def sample_manager_def)

theorem manager_reachable_inv_witness:
  "\<exists>m'. manager_run sample_ops sample_manager = Inr m' \<and> manager_inv m'"
  by (rule manager_reachable_inv [OF make_sample]) (simp add: sample_ops_def)


section \<open>Expiry and pruning are exact\<close>

lemma ungated_fields:
  "sessions (snd (ungated_expiry now rel pk pr m)) =
     sessions (snd (remove_all rel (due_sessions now pk pr m) ({}, m)))"
  "residency (snd (ungated_expiry now rel pk pr m)) =
     residency (snd (remove_all rel (due_sessions now pk pr m) ({}, m)))"
  "req_to_session (snd (ungated_expiry now rel pk pr m)) =
     req_to_session (snd (remove_all rel (due_sessions now pk pr m) ({}, m)))"
  "unreferenced_keys (fst (ungated_expiry now rel pk pr m)) =
     fst (remove_all rel (due_sessions now pk pr m) ({}, m))"
  "expired_sessions (fst (ungated_expiry now rel pk pr m)) = int (length (due_sessions now pk pr m))"
  "pruned_sessions (fst (ungated_expiry now rel pk pr m)) = 0"
  by (simp_all add: ungated_expiry_def case_prod_beta Let_def)

lemma gate_equiv:
  assumes inv: "manager_inv m" and on: "enabled m" "0 < idle_ttl_sec (config m)"
    and e: "expire_idle_sessions now rel pk pr m = (res, m')"
    and u: "ungated_expiry now rel pk pr m = (res_u, m_u)"
  shows "res = res_u \<and> sessions m' = sessions m_u \<and> residency m' = residency m_u \<and>
    req_to_session m' = req_to_session m_u"
proof (cases "has_expiration_due now m")
  case True
  with expire_idle_eq [OF on True] e u show ?thesis by auto
next
  case False
  then have "expire_idle_sessions now rel pk pr m = (no_expiration, m)"
    by (auto simp: expire_idle_sessions_def has_expiration_due_def split: option.splits)
  moreover have "ungated_expiry now rel pk pr m = (no_expiration, m)"
    by (simp add: ungated_expiry_def no_due_sessions [OF inv False] remove_all_def no_expiration_def)
  ultimately show ?thesis using e u by simp
qed

text \<open>C31: The cheap gate loses no expiry. \<open>expire_idle_sessions\<close>, which returns at once while
  the recorded next deadline lies in the future, gives the result of scanning every
  session: the same counts and freed blocks, sessions, ownership and request mapping.\<close>

theorem expiry_gate_sound:
  assumes inv: "manager_inv m" and on: "enabled m" "0 < idle_ttl_sec (config m)"
    and e: "expire_idle_sessions now rel pk pr m = (res, m')"
    and u: "ungated_expiry now rel pk pr m = (res_u, m_u)"
  shows "res = res_u \<and> sessions m' = sessions m_u \<and> residency m' = residency m_u \<and>
    req_to_session m' = req_to_session m_u"
  by (rule gate_equiv [OF assms])

text \<open>What removing sessions frees: the blocks that had a user before and have none after.\<close>

lemma unreferenced_remove_all:
  assumes inv: "manager_inv m"
    and cur: "\<And>st. st \<in> set sts \<Longrightarrow> map_of (sessions m) (ss_session_id st) = Some st"
  shows "fst (remove_all rel sts ({}, m)) =
    {k. (\<exists>sid. k \<in> session_blocks m sid) \<and>
        (\<forall>sid. k \<notin> session_blocks (snd (remove_all rel sts ({}, m))) sid)}"
proof -
  let ?m = "snd (remove_all rel sts ({}, m))" and ?ids = "ss_session_id ` set sts"
  have own: "sid \<in> owners (residency m) k \<longleftrightarrow> k \<in> session_blocks m sid" for sid k
    using trk.index [OF tracker_inv_residency [OF inv]] session_blocks_residency [OF inv] by simp
  have s: "k \<in> session_blocks ?m sid \<longleftrightarrow> k \<in> session_blocks m sid \<and> sid \<notin> ?ids" for sid k
    by (simp add: session_blocks_def remove_all_fields map_of_filter_neq)
  have "k \<in> fst (remove_all rel sts ({}, m)) \<longleftrightarrow>
      owners (residency m) k \<noteq> {} \<and> owners (residency m) k \<subseteq> ?ids" for k
    by (simp add: remove_all_tracker(3) [OF tracker_inv_residency [OF inv]])
  also have "owners (residency m) k \<noteq> {} \<and> owners (residency m) k \<subseteq> ?ids \<longleftrightarrow>
      (\<exists>sid. k \<in> session_blocks m sid) \<and> (\<forall>sid. k \<notin> session_blocks ?m sid)" for k
    unfolding s own [symmetric] by blast
  finally show ?thesis by blast
qed

lemma length_remove_all:
  assumes inv: "manager_inv m" and d: "distinct sts"
    and cur: "\<And>st. st \<in> set sts \<Longrightarrow> map_of (sessions m) (ss_session_id st) = Some st"
  shows "length (sessions (snd (remove_all rel sts ({}, m)))) + length sts = length (sessions m)"
proof -
  have inj: "inj_on ss_session_id (set sts)"
    using cur by (metis inj_onI option.inject)
  have "distinct (map fst (sessions m))" using manager_invD(1) [OF inv] by (simp add: sessions_ok_def)
  moreover have "distinct (map ss_session_id sts)" using d inj by (simp add: distinct_map)
  moreover have "set (map ss_session_id sts) \<subseteq> fst ` set (sessions m)"
    using cur by (force dest: map_of_SomeD)
  ultimately show ?thesis
    using length_filter_out_keys [of "sessions m" "map ss_session_id sts"] by (simp add: remove_all_fields)
qed

lemma due_session_iff:
  assumes inv: "manager_inv m" and st: "map_of (sessions m) sid = Some st"
  shows "sid \<in> ss_session_id ` set (due_sessions now pk pr m) \<longleftrightarrow> expirable now (set pk) (set pr) st"
proof
  assume "sid \<in> ss_session_id ` set (due_sessions now pk pr m)"
  then obtain st' where st': "st' \<in> set (due_sessions now pk pr m)" "ss_session_id st' = sid" by blast
  with due_current(1) [OF inv st'(1)] st have "st' = st" by simp
  with due_current(2) [OF inv st'(1)] show "expirable now (set pk) (set pr) st" by simp
next
  have id: "ss_session_id st = sid" by (rule session_id_of [OF manager_invD(1) [OF inv] st])
  assume "expirable now (set pk) (set pr) st"
  moreover have "st \<in> set (session_states m)" using st id current_states(1) [OF manager_invD(1) [OF inv], of st] by simp
  ultimately have "st \<in> set (due_sessions now pk pr m)" by (simp add: due_sessions_def)
  then show "sid \<in> ss_session_id ` set (due_sessions now pk pr m)" using id by blast
qed

text \<open>C17: \<open>expire_idle_sessions\<close> removes exactly the idle sessions past their deadline that
  hold no protected block or request, and leaves every other session as it was; it counts
  the removed sessions; and it reports as unreferenced exactly the blocks that some session
  used before and none uses afterwards, so never a protected one.\<close>

theorem expire_correct:
  assumes inv: "manager_inv m" and on: "enabled m" "0 < idle_ttl_sec (config m)"
    and e: "expire_idle_sessions now rel pk pr m = (res, m')"
  shows "(\<forall>sid. map_of (sessions m') sid =
       (case map_of (sessions m) sid of None \<Rightarrow> None
        | Some st \<Rightarrow> if expirable now (set pk) (set pr) st then None else Some st)) \<and>
    expired_sessions res = int (length (sessions m)) - int (length (sessions m')) \<and>
    unreferenced_keys res = {k. (\<exists>sid. k \<in> session_blocks m sid) \<and> (\<forall>sid. k \<notin> session_blocks m' sid)} \<and>
    unreferenced_keys res \<inter> set pk = {}"
proof -
  let ?due = "due_sessions now pk pr m"
  let ?r = "remove_all rel ?due ({}, m)"
  obtain res_u m_u where u: "ungated_expiry now rel pk pr m = (res_u, m_u)" by fastforce
  note same = gate_equiv [OF inv on e u]
  have s: "sessions m' = sessions (snd ?r)" "unreferenced_keys res = fst ?r"
    "expired_sessions res = int (length ?due)"
    using same ungated_fields [of now rel pk pr m] u by simp_all
  have blocks: "session_blocks m' = session_blocks (snd ?r)" by (simp add: session_blocks_def fun_eq_iff s(1))
  have look: "map_of (sessions m') sid = (case map_of (sessions m) sid of None \<Rightarrow> None
        | Some st \<Rightarrow> if expirable now (set pk) (set pr) st then None else Some st)" for sid
    using due_session_iff [OF inv, of sid]
    by (simp add: s(1) remove_all_fields map_of_filter_neq split: option.split)
  have "distinct ?due" using current_states(2) [OF manager_invD(1) [OF inv]] by (simp add: due_sessions_def)
  then have "length (sessions (snd ?r)) + length ?due = length (sessions m)"
    by (rule length_remove_all [OF inv _ due_current(1) [OF inv]])
  then have len: "expired_sessions res = int (length (sessions m)) - int (length (sessions m'))"
    by (simp add: s)
  have unref: "unreferenced_keys res =
      {k. (\<exists>sid. k \<in> session_blocks m sid) \<and> (\<forall>sid. k \<notin> session_blocks m' sid)}"
    unfolding s(2) blocks by (rule unreferenced_remove_all [OF inv due_current(1) [OF inv]])
  have "k \<notin> set pk" if "k \<in> unreferenced_keys res" for k
  proof -
    from that unref obtain sid where k: "k \<in> session_blocks m sid" "k \<notin> session_blocks m' sid" by blast
    then obtain st where "map_of (sessions m) sid = Some st" "k \<in> block_keys st"
      by (auto simp: session_blocks_def split: option.splits)
    with k(2) look [of sid] have "expirable now (set pk) (set pr) st"
      by (auto simp: session_blocks_def split: if_splits)
    with \<open>k \<in> block_keys st\<close> show ?thesis by (auto simp: expirable_def)
  qed
  with look len unref show ?thesis by blast
qed

lemma prune_targets_oldest:
  assumes "st \<in> set (prune_targets m)"
    and "st' \<in> set (filter prune_candidate (session_states m))" "st' \<notin> set (prune_targets m)"
  shows "ss_last_access_at st \<le> ss_last_access_at st'"
proof -
  have "\<not> int (length (sessions m)) \<le> max_sessions (config m)"
    using assms(1) by (auto simp: prune_targets_def)
  then have "prune_targets m = py_take (int (length (sessions m)) - max_sessions (config m))
      (sort_key ss_last_access_at (filter prune_candidate (session_states m)))"
    by (simp add: prune_targets_def)
  with assms show ?thesis by (intro py_take_sort_least) simp_all
qed

text \<open>The sessions that a prune leaves, in number and by their last access.\<close>

lemma map_of_pruned:
  "map_of (sessions (snd (remove_all rel (prune_targets m) ({}, m)))) sid =
     (if sid \<in> ss_session_id ` set (prune_targets m) then None else map_of (sessions m) sid)"
  by (simp add: remove_all_fields map_of_filter_neq)

lemma length_pruned:
  assumes inv: "manager_inv m" and m': "m' = snd (remove_all rel (prune_targets m) ({}, m))"
  shows "length (sessions m') + length (prune_targets m) = length (sessions m)"
proof -
  have "distinct (prune_targets m)"
    using current_states(2) [OF manager_invD(1) [OF inv]] by (simp add: prune_targets_def distinct_py_take)
  then show ?thesis unfolding m' by (rule length_remove_all [OF inv _ prune_targets_current(1) [OF inv]])
qed

lemma pruned_bound:
  assumes inv: "manager_inv m" and m': "m' = snd (remove_all rel (prune_targets m) ({}, m))"
  shows "int (length (sessions m')) \<le> max_sessions (config m) \<or> (\<forall>st \<in> set (session_states m'). \<not> prune_candidate st)"
proof (cases "int (length (sessions m)) - max_sessions (config m) \<le> int (length (filter prune_candidate (session_states m)))")
  case True
  then show ?thesis using length_pruned [OF inv m'] by (auto simp: prune_targets_def length_py_take split: if_splits)
next
  case False
  then have "set (prune_targets m) = set (filter prune_candidate (session_states m))" by (simp add: prune_targets_def py_take_def)
  moreover have ok': "sessions_ok m'"
    using manager_invD(1) [OF remove_all_inv [OF inv prune_targets_current(1) [OF inv]]] by (simp add: m')
  ultimately have "\<not> prune_candidate st" if "st \<in> set (session_states m')" for st
    using that current_states(1) [OF ok', of st] current_states(1) [OF manager_invD(1) [OF inv], of st] map_of_pruned [of rel m]
    by (auto simp: m' split: if_splits)
  then show ?thesis by blast
qed

lemma pruned_oldest:
  assumes inv: "manager_inv m" and m': "m' = snd (remove_all rel (prune_targets m) ({}, m))"
    and st: "map_of (sessions m) sid = Some st" "map_of (sessions m') sid = None"
    and st': "map_of (sessions m') sid' = Some st'" "prune_candidate st'"
  shows "ss_last_access_at st \<le> ss_last_access_at st'"
proof (rule prune_targets_oldest)
  show "st \<in> set (prune_targets m)"
    using st prune_targets_current(1) [OF inv] by (auto simp: m' map_of_pruned split: if_splits)
  have "map_of (sessions m) sid' = Some st'" "sid' \<notin> ss_session_id ` set (prune_targets m)"
    using st'(1) by (auto simp: m' map_of_pruned split: if_splits)
  then show "st' \<in> set (filter prune_candidate (session_states m))" "st' \<notin> set (prune_targets m)"
    using st'(2) current_states(1) [OF manager_invD(1) [OF inv], of st'] session_id_of [OF manager_invD(1) [OF inv], of sid' st'] by auto
qed

text \<open>C32: \<open>prune_idle_sessions\<close> bounds the number of sessions: afterwards there are at most
  \<open>max_sessions\<close>, or every idle session without requests is gone. It removes only such
  sessions, the least recently used first; it counts them, and it reports exactly the
  blocks that lose their last user.\<close>

theorem prune_sessions_correct:
  assumes inv: "manager_inv m" and p: "prune_idle_sessions rel m = (res, m')"
  shows "(int (length (sessions m')) \<le> max_sessions (config m) \<or>
       (\<forall>st \<in> set (session_states m'). \<not> prune_candidate st)) \<and>
    pruned_sessions res = int (length (sessions m)) - int (length (sessions m')) \<and>
    (\<forall>sid st. map_of (sessions m) sid = Some st \<and> \<not> prune_candidate st \<longrightarrow>
       map_of (sessions m') sid = Some st) \<and>
    (\<forall>sid st sid' st'. map_of (sessions m) sid = Some st \<and> map_of (sessions m') sid = None \<and>
       map_of (sessions m') sid' = Some st' \<and> prune_candidate st' \<longrightarrow>
       ss_last_access_at st \<le> ss_last_access_at st') \<and>
    unreferenced_keys res = {k. (\<exists>sid. k \<in> session_blocks m sid) \<and> (\<forall>sid. k \<notin> session_blocks m' sid)}"
proof -
  let ?ts = "prune_targets m"
  have r: "m' = snd (remove_all rel ?ts ({}, m))" "unreferenced_keys res = fst (remove_all rel ?ts ({}, m))"
    "pruned_sessions res = int (length ?ts)"
    using p by (auto simp: prune_idle_eq)
  note cur = prune_targets_current [OF inv]
  have keep: "map_of (sessions m') sid = Some st"
    if "map_of (sessions m) sid = Some st" "\<not> prune_candidate st" for sid st
    using that cur by (auto simp: r(1) map_of_pruned)
  have old: "ss_last_access_at st \<le> ss_last_access_at st'"
    if "map_of (sessions m) sid = Some st" "map_of (sessions m') sid = None"
      "map_of (sessions m') sid' = Some st'" "prune_candidate st'" for sid st sid' st'
    by (rule pruned_oldest [OF inv r(1) that])
  have "unreferenced_keys res = {k. (\<exists>sid. k \<in> session_blocks m sid) \<and> (\<forall>sid. k \<notin> session_blocks m' sid)}"
    unfolding r by (rule unreferenced_remove_all [OF inv cur(1)])
  moreover have "pruned_sessions res = int (length (sessions m)) - int (length (sessions m'))"
    using length_pruned [OF inv r(1)] r(3) by simp
  ultimately show ?thesis using pruned_bound [OF inv r(1)] keep old by blast
qed


definition expiry_ops :: "manager_op list" where
  "expiry_ops = [NewRequest (sample_clock 1) (sample_ctx ''r1'') True,
     RequestKeys (sample_clock 2) (sample_ctx ''r1'') [''k1'', ''k2''],
     NewRequest (sample_clock 3) (anon_ctx ''r2'') True,
     RequestKeys (sample_clock 4) (anon_ctx ''r2'') [''k2''],
     RequestFinished (sample_clock 5) (sample_ctx ''r1'') True,
     RequestFinalized 6 (sample_ctx ''r1''),
     NewRequest (sample_clock 7) (anon_ctx ''r3'') True]"

definition expiry_example :: manager where
  "expiry_example = (case manager_run expiry_ops sample_manager of Inl _ \<Rightarrow> sample_manager | Inr m \<Rightarrow> m)"

lemma expiry_example_inv: "manager_inv expiry_example"
proof -
  have "list_all allowed_op expiry_ops" by (simp add: expiry_ops_def)
  from mgr_run.run_ok [OF make_manager_inv [OF make_sample] this] show ?thesis
    by (auto simp: expiry_example_def manager_run_def)
qed

lemma expiry_example_config: "enabled expiry_example" "0 < idle_ttl_sec (config expiry_example)"
  by code_simp+

theorem expiry_gate_sound_witness:
  "fst (expire_idle_sessions 20 (\<lambda>_. 21) [] [] expiry_example) =
   fst (ungated_expiry 20 (\<lambda>_. 21) [] [] expiry_example)"
  using expiry_gate_sound [OF expiry_example_inv expiry_example_config, of 20 "\<lambda>_. 21" "[]" "[]"]
  by (metis prod.collapse)

theorem expire_correct_witness:
  "expired_sessions (fst (expire_idle_sessions 20 (\<lambda>_. 21) [''k9''] [] expiry_example)) = 1 \<and>
   unreferenced_keys (fst (expire_idle_sessions 20 (\<lambda>_. 21) [''k9''] [] expiry_example)) = {''k1''} \<and>
   ''k9'' \<notin> unreferenced_keys (fst (expire_idle_sessions 20 (\<lambda>_. 21) [''k9''] [] expiry_example))"
proof -
  let ?e = "expire_idle_sessions 20 (\<lambda>_. 21) [''k9''] [] expiry_example"
  have "expired_sessions (fst ?e) = 1" "unreferenced_keys (fst ?e) = {''k1''}" by code_simp+
  moreover have "unreferenced_keys (fst ?e) \<inter> set [''k9''] = {}"
    using expire_correct [OF expiry_example_inv expiry_example_config surjective_pairing,
        of 20 "\<lambda>_. 21" "[''k9'']" "[]"] by blast
  ultimately show ?thesis by simp
qed

theorem prune_sessions_correct_witness:
  "\<exists>res m'. prune_idle_sessions (\<lambda>_. 9) expiry_example = (res, m') \<and> pruned_sessions res = 1 \<and>
     pruned_sessions res = int (length (sessions expiry_example)) - int (length (sessions m'))"
proof -
  let ?p = "prune_idle_sessions (\<lambda>_. 9) expiry_example"
  have "pruned_sessions (fst ?p) = 1" by code_simp
  moreover have "pruned_sessions (fst ?p) =
      int (length (sessions expiry_example)) - int (length (sessions (snd ?p)))"
    using prune_sessions_correct [OF expiry_example_inv, of "\<lambda>_. 9" "fst ?p" "snd ?p"] by simp
  ultimately show ?thesis by (intro exI [of _ "fst ?p"] exI [of _ "snd ?p"]) simp
qed

section \<open>Session heat\<close>

text \<open>The heat of a request's session is its number of requests \<open>n\<close> with the return
  estimate \<open>(n - 1) / n\<close>, which lies in \<open>[0, 1)\<close>; it is \<open>(0, 0)\<close> exactly when the session is
  unknown; and a further request of the session raises it to \<open>(n + 1, n / (n + 1))\<close>.\<close>

theorem session_heat_correct:
  assumes inv: "manager_inv m" and h: "get_session_heat ctx m = (n, p)"
  shows "0 \<le> p \<and> p < 1 \<and> (n = 0 \<longleftrightarrow> get_by_req ctx m = None) \<and>
    (\<forall>st. get_by_req ctx m = Some st \<longrightarrow> n = request_count st \<and> p * of_int n = of_int (n - 1)) \<and>
    (\<forall>st clk heat. enabled m \<or> heat \<longrightarrow> map_of (sessions m) (get_session_id ctx) = Some st \<longrightarrow>
       get_session_heat ctx (snd (on_new_request clk ctx heat m)) =
         (request_count st + 1, of_int (request_count st) / of_int (request_count st + 1)))"
proof -
  have pos: "1 \<le> request_count st" if "map_of (sessions m) sid = Some st" for sid st
    using manager_invD(5) [OF inv that] by (simp add: session_ok_def)
  have next_heat: "get_session_heat ctx (snd (on_new_request clk ctx heat m)) =
         (request_count st + 1, of_int (request_count st) / of_int (request_count st + 1))"
    if "enabled m \<or> heat" "map_of (sessions m) (get_session_id ctx) = Some st" for st clk heat
  proof -
    have "request_count (joined_session (clk 0) ctx m) = request_count st + 1"
      using that(2) by (simp add: joined_session_def open_session_def Let_def)
    then show ?thesis
      using get_by_req_after_new_request [OF manager_invD(1) [OF inv] that(1), of ctx clk] pos [OF that(2)]
      by (simp add: get_session_heat_def)
  qed
  show ?thesis
  proof (cases "get_by_req ctx m")
    case None
    with h next_heat show ?thesis by (auto simp: get_session_heat_def)
  next
    case (Some st)
    have c: "1 \<le> request_count st"
      using pos get_by_req_current [OF manager_invD(1) [OF inv] Some] by blast
    from Some h c have n: "n = request_count st" and p: "p = of_int (n - 1) / of_int n"
      by (auto simp: get_session_heat_def)
    have r: "(1::rat) \<le> of_int n" using c n by simp
    then have "0 \<le> p" "p < 1" "p * of_int n = of_int (n - 1)" by (simp_all add: p)
    with c n Some next_heat show ?thesis by simp
  qed
qed

theorem session_heat_correct_witness:
  "get_session_heat (sample_ctx ''r9'') expiry_example = (1, 0) \<and> (0::rat) < 1"
proof -
  have h: "get_session_heat (sample_ctx ''r9'') expiry_example = (1, 0)" by code_simp
  from session_heat_correct [OF expiry_example_inv h] h show ?thesis by simp
qed

section \<open>Session identifiers\<close>

lemma stable_value_iff: "stable_value v \<longleftrightarrow> (\<exists>s. v = Some (PStr s) \<and> s \<noteq> [])"
  by (auto simp: stable_value_def split: option.splits py_value.splits)

lemma first_session_id_Cons:
  "first_session_id d (k # ks) dflt =
     (if stable_value (map_of d k) then (case map_of d k of Some (PStr s) \<Rightarrow> s | _ \<Rightarrow> dflt)
      else first_session_id d ks dflt)"
  by (auto simp: stable_value_iff split: option.splits py_value.splits)

lemma first_session_id_stable:
  "list_ex (\<lambda>k. stable_value (map_of d k)) ks \<Longrightarrow>
     \<exists>k \<in> set ks. map_of d k = Some (PStr (first_session_id d ks dflt)) \<and> first_session_id d ks dflt \<noteq> []"
proof (induction ks)
  case (Cons k ks)
  show ?case
  proof (cases "stable_value (map_of d k)")
    case True
    then obtain s where "map_of d k = Some (PStr s)" "s \<noteq> []" by (auto simp: stable_value_iff)
    then show ?thesis by simp
  next
    case False
    with Cons show ?thesis by (auto simp: first_session_id_Cons simp del: first_session_id.simps)
  qed
qed simp

lemma first_session_id_unstable:
  "\<not> list_ex (\<lambda>k. stable_value (map_of d k)) ks \<Longrightarrow> first_session_id d ks dflt = dflt"
  by (induction ks) (auto simp: first_session_id_Cons simp del: first_session_id.simps(2))

text \<open>A request's session identifier and the test for a stable one agree: with a stable
  identifier it is a non-empty string found under one of the three parameter names, and
  without one it is the request's own identifier.\<close>

theorem session_id_stable_iff:
  "(has_stable_session_id ctx \<longrightarrow>
     (\<exists>k \<in> set session_param_names.
        map_of (request_params ctx) k = Some (PStr (get_session_id ctx)) \<and> get_session_id ctx \<noteq> [])) \<and>
   (\<not> has_stable_session_id ctx \<longrightarrow> get_session_id ctx = req_id ctx)"
  using first_session_id_stable [of "request_params ctx" session_param_names "req_id ctx"]
    first_session_id_unstable [of "request_params ctx" session_param_names "req_id ctx"]
  by (simp add: has_stable_session_id_def get_session_id_def)

theorem session_id_stable_iff_witness:
  "has_stable_session_id (sample_ctx ''r'') \<and> get_session_id (sample_ctx ''r'') \<noteq> [] \<and>
   get_session_id (anon_ctx ''r'') = ''r''"
proof -
  have "has_stable_session_id (sample_ctx ''r'')" "\<not> has_stable_session_id (anon_ctx ''r'')" by code_simp+
  with session_id_stable_iff [of "sample_ctx ''r''"] session_id_stable_iff [of "anon_ctx ''r''"]
  show ?thesis by (auto simp: anon_ctx_def)
qed


section \<open>Anonymous sessions\<close>

lemma anonymous_id: "\<not> has_stable_session_id ctx \<Longrightarrow> get_session_id ctx = req_id ctx"
  unfolding has_stable_session_id_def get_session_id_def by (rule first_session_id_unstable)

lemma record_request_keys_eq:
  assumes "enabled m" "get_by_req ctx m = Some st"
  shows "record_request_keys clk ctx keys m =
    Inr ((put_session (st\<lparr>block_keys := block_keys st \<union> set keys, ss_last_access_at := clk 2\<rparr>) m)
           \<lparr>residency := record_access (clk 3) (ss_session_id st) keys (residency m)\<rparr>)"
  using assms by (simp add: record_request_keys_def get_or_open_def bind_result_def Let_def)

text \<open>
  The life of a request that carries no session identifier and has not been seen before:
  it opens its own session, records its blocks, finishes and is finalized.
\<close>

definition anonymous_life ::
  "(nat \<Rightarrow> nat \<Rightarrow> instant) \<Rightarrow> req_context \<Rightarrow> offload_key list \<Rightarrow> manager \<Rightarrow> manager result" where
  "anonymous_life clk ctx keys m =
     bind_result (record_request_keys (clk 1) ctx keys (snd (on_new_request (clk 0) ctx False m)))
       (\<lambda>m. bind_result (on_request_finished (clk 2) ctx False m)
         (\<lambda>m. Inr (on_request_finalized (clk 3 0) ctx m)))"

lemma anonymous_removed:
  assumes inv: "manager_inv m"
    and st: "get_by_req ctx m = Some st" "ss_session_id st = req_id ctx" "\<not> has_stable_id st"
      "active_req_ids st = {}" "retained_req_ids st \<subseteq> {req_id ctx}"
  shows "map_of (sessions (on_request_finalized now ctx m)) sid =
       (if sid = req_id ctx then None else map_of (sessions m) sid)"
    and "map_of (req_to_session (on_request_finalized now ctx m)) r =
       (if r = req_id ctx then None else map_of (req_to_session m) r)"
proof -
  have "retained_req_ids (detached ctx st) = {}" "active_req_ids (detached ctx st) = {}"
    "ss_session_id (detached ctx st) = req_id ctx"
    using st by (auto simp: detached_def)
  moreover have fin: "on_request_finalized now ctx m =
      snd (remove_all (\<lambda>_. now) [detached ctx st] ({}, finalizing ctx st m))"
    using st by (simp add: on_request_finalized_eq)
  moreover have "req_to_session (finalizing ctx st m) = AList.delete (req_id ctx) (req_to_session m)"
    by (simp add: finalizing_def)
  moreover have "map_of (sessions (finalizing ctx st m)) sid =
      (if sid = req_id ctx then Some (detached ctx st) else map_of (sessions m) sid)"
    using st(2) by (simp add: finalizing_def detached_def)
  ultimately show "map_of (sessions (on_request_finalized now ctx m)) sid =
       (if sid = req_id ctx then None else map_of (sessions m) sid)"
    and "map_of (req_to_session (on_request_finalized now ctx m)) r =
       (if r = req_id ctx then None else map_of (req_to_session m) r)"
    using map_of_filter_neq [of "{req_id ctx}" "sessions (finalizing ctx st m)" sid]
      map_of_filter_neq [of "{}" "req_to_session (finalizing ctx st m)" r]
    by (simp_all add: remove_all_fields map_of_delete_key)
qed

text \<open>A request without a session identifier leaves nothing behind: opening its session,
  recording its blocks, finishing and finalizing it never fails and restores the sessions,
  the request mapping and the ownership of blocks to what they were.\<close>

theorem anonymous_session_removed:
  assumes inv: "manager_inv m" and on: "enabled m" and anon: "\<not> has_stable_session_id ctx"
    and fresh: "map_of (sessions m) (req_id ctx) = None" "map_of (req_to_session m) (req_id ctx) = None"
  shows "\<exists>m'. anonymous_life clk ctx keys m = Inr m' \<and>
    map_of (sessions m') = map_of (sessions m) \<and> map_of (req_to_session m') = map_of (req_to_session m) \<and>
    get_session_keys (residency m') = get_session_keys (residency m)"
proof -
  let ?r = "req_id ctx"
  let ?m1 = "snd (on_new_request (clk 0) ctx False m)"
  let ?st1 = "joined_session (clk 0 0) ctx m"
  have act: "enabled m \<or> False" using on by simp
  note ok = manager_invD(1) [OF inv] and id = anonymous_id [OF anon]
  note f = on_new_request_fields [OF ok act refl, of "clk 0" ctx, unfolded id]
  have st1: "?st1 = (new_session ctx ?r (clk 0 0))\<lparr>active_req_ids := {?r}, request_count := 1\<rparr>"
    using fresh(1) by (simp add: joined_session_def open_session_def Let_def id new_session_def)
  have inv1: "manager_inv ?m1" by (rule on_new_request_inv [OF inv])
  have g1: "get_by_req ctx ?m1 = Some ?st1" by (rule get_by_req_after_new_request [OF ok act])
  let ?st2 = "?st1\<lparr>block_keys := block_keys ?st1 \<union> set keys, ss_last_access_at := clk 1 2\<rparr>"
  obtain m2 where m2: "record_request_keys (clk 1) ctx keys ?m1 = Inr m2" "manager_inv m2"
    by (rule record_request_keys_inv [OF inv1])
  have m2_eq: "m2 = (put_session ?st2 ?m1)
      \<lparr>residency := record_access (clk 1 3) (ss_session_id ?st1) keys (residency ?m1)\<rparr>"
    using record_request_keys_eq [OF _ g1, of "clk 1" keys] m2(1) on f(2) by simp
  have id2: "ss_session_id ?st1 = ?r" by (simp add: st1 new_session_def)
  have s2: "map_of (sessions m2) sid = (if sid = ?r then Some ?st2 else map_of (sessions m) sid)" for sid
    by (simp add: m2_eq id2 f(3))
  have r2: "req_to_session m2 = AList.update ?r ?r (req_to_session m)"
    by (simp add: m2_eq f(5))
  have g2: "get_by_req ctx m2 = Some ?st2" by (simp add: get_by_req_def r2 map_of_update s2)
  have on2: "enabled m2" "config m2 = config m"
    using on f(1,2) by (simp_all add: m2_eq enabled_def)
  obtain m3 where m3: "on_request_finished (clk 2) ctx False m2 = Inr m3" "manager_inv m3"
    by (rule on_request_finished_inv [OF m2(2)])
  let ?st3 = "idle_session (clk 2 2) ctx (idle_ttl_sec (config m2)) ?st2"
  have "get_or_open (clk 2) ctx False m2 = Inr (?st2, m2)" by (simp add: get_or_open_def g2)
  from on_request_finished_eq [OF _ this refl refl] on2 m3(1)
  have m3_eq: "\<exists>t n. m3 = (put_session ?st3 m2)\<lparr>residency := t, next_expiration_at := n\<rparr>"
    by (auto simp: st1)
  have st3: "ss_session_id ?st3 = ?r" "active_req_ids ?st3 = {}" "retained_req_ids ?st3 = {?r}" "\<not> has_stable_id ?st3"
    using anon by (auto simp: st1 idle_session_def left_session_def new_session_def)
  have s3: "map_of (sessions m3) sid = (if sid = ?r then Some ?st3 else map_of (sessions m) sid)" for sid
    using m3_eq st3(1) by (auto simp: s2)
  have r3: "req_to_session m3 = AList.update ?r ?r (req_to_session m)" using m3_eq by (auto simp: r2)
  have g3: "get_by_req ctx m3 = Some ?st3" by (simp add: get_by_req_def r3 map_of_update s3)
  let ?m4 = "on_request_finalized (clk 3 0) ctx m3"
  have sub: "retained_req_ids ?st3 \<subseteq> {?r}" by (rule equalityD1 [OF st3(3)])
  note rm = anonymous_removed [OF m3(2) g3 st3(1,4,2) sub, of "clk 3 0"]
  have sess: "map_of (sessions ?m4) = map_of (sessions m)"
    using fresh(1) by (auto simp: fun_eq_iff rm(1) s3)
  moreover have "map_of (req_to_session ?m4) = map_of (req_to_session m)"
    using fresh(2) by (auto simp: fun_eq_iff rm(2) r3 map_of_update)
  moreover have "get_session_keys (residency ?m4) = get_session_keys (residency m)"
    using session_blocks_residency [OF on_request_finalized_inv [OF m3(2)], of "clk 3 0" ctx]
      session_blocks_residency [OF inv] sess by (simp add: fun_eq_iff session_blocks_def)
  moreover have "anonymous_life clk ctx keys m = Inr ?m4"
    using m2(1) m3(1) by (simp add: anonymous_life_def bind_result_def)
  ultimately show ?thesis by blast
qed

theorem anonymous_session_removed_witness:
  "\<exists>m'. anonymous_life (\<lambda>i. sample_clock (of_nat i)) (anon_ctx ''r7'') [''k1'', ''k5''] expiry_example = Inr m' \<and>
     map_of (sessions m') = map_of (sessions expiry_example)"
proof -
  have "\<not> has_stable_session_id (anon_ctx ''r7'')"
    "map_of (sessions expiry_example) (req_id (anon_ctx ''r7'')) = None"
    "map_of (req_to_session expiry_example) (req_id (anon_ctx ''r7'')) = None" by code_simp+
  from anonymous_session_removed [OF expiry_example_inv expiry_example_config(1) this] show ?thesis by blast
qed

section \<open>Configuration and snapshot\<close>

definition valid_config :: "rat lifecycle_config \<Rightarrow> bool" where
  "valid_config c \<longleftrightarrow> 0 \<le> idle_ttl_sec c \<and> 0 \<le> cpu_demote_after_sec c \<and>
     0 < cpu_low_watermark c \<and> cpu_low_watermark c \<le> cpu_high_watermark c \<and> cpu_high_watermark c \<le> 1 \<and>
     0 < reclaim_batch_size c \<and> 0 < residency_max_entries c \<and> 0 < max_sessions c"

definition raw_config :: "rat lifecycle_config \<Rightarrow> pyfloat lifecycle_config" where
  "raw_config c =
     \<lparr>idle_ttl_sec = Finite (idle_ttl_sec c), delete_expired_secondary = delete_expired_secondary c,
      cpu_demote_after_sec = Finite (cpu_demote_after_sec c),
      cpu_high_watermark = Finite (cpu_high_watermark c), cpu_low_watermark = Finite (cpu_low_watermark c),
      reclaim_batch_size = reclaim_batch_size c, residency_max_entries = residency_max_entries c,
      max_sessions = max_sessions c, residency_tracking_enabled = residency_tracking_enabled c\<rparr>"

lemma pf_finite_iff: "pf_isfinite x \<longleftrightarrow> (\<exists>r. x = Finite r)"
  by (cases x) auto

lemma pf_bounds:
  "pf_less (Finite 0) lo \<Longrightarrow> pf_le lo hi \<Longrightarrow> pf_le hi (Finite 1) \<Longrightarrow>
     \<exists>a b. lo = Finite a \<and> hi = Finite b \<and> 0 < a \<and> a \<le> b \<and> b \<le> 1"
  by (cases lo; cases hi) auto

lemma post_init_accepts:
  "(post_init raw = Inr c \<longleftrightarrow> raw = raw_config c \<and> valid_config c) \<and>
   (post_init raw = Inr c \<longrightarrow> (\<exists>m. make_manager c = Inr m \<and> manager_inv m))"
proof -
  have fwd: "raw = raw_config c \<and> valid_config c" if p: "post_init raw = Inr c"
  proof -
    from p have w: "pf_less (Finite 0) (cpu_low_watermark raw)"
      "pf_le (cpu_low_watermark raw) (cpu_high_watermark raw)" "pf_le (cpu_high_watermark raw) (Finite 1)"
      and t: "\<not> bad_seconds (idle_ttl_sec raw)" "\<not> bad_seconds (cpu_demote_after_sec raw)"
      by (auto simp: post_init_def split: if_splits)
    from pf_bounds [OF w] obtain a b where ab: "cpu_low_watermark raw = Finite a"
      "cpu_high_watermark raw = Finite b" "0 < a" "a \<le> b" "b \<le> 1" by blast
    from t obtain s d where "idle_ttl_sec raw = Finite s" "cpu_demote_after_sec raw = Finite d" "0 \<le> s" "0 \<le> d"
      by (auto simp: bad_seconds_def pf_finite_iff)
    with ab p show ?thesis
      by (cases raw) (auto simp: post_init_def raw_config_def valid_config_def split: if_splits)
  qed
  have "post_init (raw_config c) = Inr c" if "valid_config c"
    using that by (cases c) (auto simp: post_init_def raw_config_def valid_config_def bad_seconds_def)
  moreover have "\<exists>m. make_manager c = Inr m \<and> manager_inv m" if "valid_config c"
  proof -
    have "\<exists>m. make_manager c = Inr m"
      using that by (simp add: make_manager_def make_tracker_def bind_result_def valid_config_def)
    then show ?thesis using make_manager_inv by blast
  qed
  ultimately show ?thesis using fwd by blast
qed

text \<open>C33: \<open>LifecycleConfig\<close> accepts a configuration exactly when its times are finite and
  non-negative, its watermarks satisfy \<open>0 < low <= high <= 1\<close> and its sizes are positive;
  infinities and not-a-number are rejected everywhere; an accepted configuration is
  stored unchanged and always gives a working manager.\<close>

theorem post_init_accepts_iff:
  "(post_init raw = Inr c \<longleftrightarrow> raw = raw_config c \<and> valid_config c) \<and>
   (post_init raw = Inr c \<longrightarrow> (\<exists>m. make_manager c = Inr m \<and> manager_inv m))"
  by (rule post_init_accepts)

theorem post_init_accepts_iff_witness:
  "post_init (raw_config sample_config) = Inr sample_config \<and>
   post_init ((raw_config sample_config)\<lparr>cpu_low_watermark := NaN\<rparr>) \<noteq> Inr sample_config"
proof -
  have "valid_config sample_config" by (simp add: valid_config_def sample_config_def)
  moreover have "(raw_config sample_config)\<lparr>cpu_low_watermark := NaN\<rparr> \<noteq> raw_config sample_config"
    by (simp add: raw_config_def)
  ultimately show ?thesis
    using post_init_accepts_iff [of "raw_config sample_config" sample_config]
      post_init_accepts_iff [of "(raw_config sample_config)\<lparr>cpu_low_watermark := NaN\<rparr>" sample_config]
    by blast
qed

text \<open>An empty extra configuration turns lifecycle management on: \<open>from_extra_config\<close>
  defaults the high watermark to 0.9, below 1, whereas the defaults of the class itself
  leave it off. Whatever it accepts is a valid configuration.\<close>

theorem from_extra_config_defaults:
  "(\<exists>c. from_extra_config fs is [] = Inr c \<and> config_enabled c \<and> cpu_high_watermark c = 9/10) \<and>
   (\<exists>c. post_init default_lifecycle_config = Inr c \<and> \<not> config_enabled c) \<and>
   (\<forall>d c. from_extra_config fs is d = Inr c \<longrightarrow> valid_config c)"
proof (intro conjI allI impI)
  show "\<exists>c. from_extra_config fs is [] = Inr c \<and> config_enabled c \<and> cpu_high_watermark c = 9/10"
    by (simp add: from_extra_config_def bind_result_def post_init_def bad_seconds_def config_enabled_def dict_get_def)
  show "\<exists>c. post_init default_lifecycle_config = Inr c \<and> \<not> config_enabled c"
    by (simp add: default_lifecycle_config_def post_init_def bad_seconds_def config_enabled_def)
  show "valid_config c" if "from_extra_config fs is d = Inr c" for d c
    using that post_init_accepts unfolding from_extra_config_def bind_result_def Let_def
    by (auto split: sum.splits)
qed

theorem from_extra_config_defaults_witness:
  "\<exists>c. from_extra_config (\<lambda>_. None) (\<lambda>_. None) [(''lifecycle_idle_ttl_sec'', PInt 30)] = Inr c \<and>
     idle_ttl_sec c = 30 \<and> valid_config c"
proof -
  have "\<exists>c. from_extra_config (\<lambda>_. None) (\<lambda>_. None) [(''lifecycle_idle_ttl_sec'', PInt 30)] = Inr c \<and>
      idle_ttl_sec c = 30"
    by (simp add: from_extra_config_def bind_result_def post_init_def bad_seconds_def dict_get_def)
  then show ?thesis
    using from_extra_config_defaults [of "\<lambda>_. None" "\<lambda>_. None"] by blast
qed

text \<open>The lifecycle snapshot is consistent: every session is either active or idle, so the
  two counts add up to the number of sessions, which is the number of session keys.\<close>

theorem snapshot_consistent:
  assumes "manager_inv m"
  shows "snap_active_sessions (lc_snapshot m) + snap_idle_sessions (lc_snapshot m) = snap_sessions (lc_snapshot m) \<and>
    snap_sessions (lc_snapshot m) = int (card (dom (map_of (sessions m))))"
proof -
  have "is_idle st \<longleftrightarrow> status st \<noteq> ACTIVE" if "st \<in> set (session_states m)" for st
    using that current_states(1) [OF manager_invD(1) [OF assms], of st]
      manager_invD(5) [OF assms, of "ss_session_id st" st] by (auto simp: session_ok_def is_idle_def)
  then have "filter is_idle (session_states m) = filter (\<lambda>st. status st \<noteq> ACTIVE) (session_states m)"
    by (rule filter_cong [OF refl])
  moreover have "card (set (map fst (sessions m))) = length (map fst (sessions m))"
    using manager_invD(1) [OF assms] by (intro distinct_card) (simp add: sessions_ok_def)
  then have "card (dom (map_of (sessions m))) = length (sessions m)"
    by (simp add: dom_map_of_conv_image_fst)
  ultimately show ?thesis
    using sum_length_filter_compl [of "\<lambda>st. status st = ACTIVE" "session_states m"]
    by (simp add: lc_snapshot_def session_states_def flip: of_nat_add)
qed

theorem snapshot_consistent_witness:
  "snap_active_sessions (lc_snapshot expiry_example) + snap_idle_sessions (lc_snapshot expiry_example) =
     snap_sessions (lc_snapshot expiry_example)"
  using snapshot_consistent [OF expiry_example_inv] by blast

end
