(* ===== verification/Async_Lookup.thy ===== *)
theory Async_Lookup
  imports Tiering_Prelude
begin

text \<open>
  \<open>async_lookup.py\<close>: existence checks that a background thread answers. The scheduler owns
  the lookup states, the reverse index and the batch of this step; two queues connect it
  to the worker. The state holds both threads; every scheduler call and every move of the
  worker is one operation, so a sequence of operations is an interleaving of the threads.
  \<open>batch_lookup\<close>, which subclasses provide, is an argument of the worker's move.
\<close>

section \<open>State\<close>

record lookup_entry =
  lk_result :: "bool option"
  request_ids :: "req_id set"

type_synonym batch = "(offload_key \<times> req_context) list"
type_synonym batch_fn = "offload_key list \<Rightarrow> req_context \<Rightarrow> bool list result"

text \<open>Where the worker thread is: waiting for a batch, working on one, or ended.\<close>

datatype worker_state = Waiting | Processing batch | Stopped

record async_lookup =
  lookup_state :: "(offload_key \<times> lookup_entry) list"
  req_keys :: "(req_id \<times> offload_key set) list"
  lookup_batch :: batch
  lookup_queue :: "batch option list"
  pending_results :: "(offload_key \<times> bool) list list"
  worker :: worker_state

definition make_async_lookup :: async_lookup where
  "make_async_lookup = \<lparr>lookup_state = [], req_keys = [], lookup_batch = [], lookup_queue = [],
     pending_results = [], worker = Waiting\<rparr>"

section \<open>Scheduler calls\<close>

definition apply_result :: "offload_key \<times> bool \<Rightarrow> (offload_key \<times> lookup_entry) list \<Rightarrow>
    (offload_key \<times> lookup_entry) list" where
  "apply_result kr d =
     (case map_of d (fst kr) of
        None \<Rightarrow> d
      | Some st \<Rightarrow> AList.update (fst kr) (st\<lparr>lk_result := Some (snd kr)\<rparr>) d)"

definition drain_results :: "async_lookup \<Rightarrow> async_lookup" where
  "drain_results s =
     s\<lparr>lookup_state := fold (fold apply_result) (pending_results s) (lookup_state s),
       pending_results := []\<rparr>"

definition lookup_drained :: "offload_key \<Rightarrow> req_context \<Rightarrow> async_lookup \<Rightarrow> bool option \<times> async_lookup" where
  "lookup_drained key ctx s =
     (let (st, batch) =
            (case map_of (lookup_state s) key of
               None \<Rightarrow> (\<lparr>lk_result = None, request_ids = {}\<rparr>, lookup_batch s @ [(key, ctx)])
             | Some st \<Rightarrow> (st, lookup_batch s));
          st = st\<lparr>request_ids := insert (req_id ctx) (request_ids st)\<rparr>
      in (lk_result st,
          s\<lparr>lookup_state := AList.update key st (lookup_state s),
            req_keys := AList.update (req_id ctx)
                          (insert key (dict_get (req_keys s) (req_id ctx) {})) (req_keys s),
            lookup_batch := batch\<rparr>))"

definition lookup :: "offload_key \<Rightarrow> req_context \<Rightarrow> async_lookup \<Rightarrow> bool option \<times> async_lookup" where
  "lookup key ctx s = lookup_drained key ctx (drain_results s)"

definition flush :: "async_lookup \<Rightarrow> async_lookup" where
  "flush s =
     (if lookup_batch s = [] then s
      else s\<lparr>lookup_queue := lookup_queue s @ [Some (lookup_batch s)], lookup_batch := []\<rparr>)"

text \<open>
  The loop of \<open>cleanup\<close> visits a Python set, in the order given by the list. The operation
  itself is stated over the set; the two agree for every order (\<open>cleanup_any_order\<close>).
\<close>

definition drop_request :: "req_id \<Rightarrow> lookup_entry \<Rightarrow> lookup_entry" where
  "drop_request r st = st\<lparr>request_ids := request_ids st - {r}\<rparr>"

fun cleanup_loop :: "req_id \<Rightarrow> offload_key list \<Rightarrow> (offload_key \<times> lookup_entry) list \<Rightarrow>
    (offload_key \<times> lookup_entry) list result" where
  "cleanup_loop r [] d = Inr d"
| "cleanup_loop r (k # ks) d =
     (case map_of d k of
        None \<Rightarrow> Inl KeyError
      | Some st \<Rightarrow>
          let st = drop_request r st
          in cleanup_loop r ks (if request_ids st = {} then AList.delete k d else AList.update k st d))"

definition cleanup_entries :: "req_id \<Rightarrow> offload_key set \<Rightarrow> (offload_key \<times> lookup_entry) list \<Rightarrow>
    (offload_key \<times> lookup_entry) list" where
  "cleanup_entries r ks d =
     dict_map (\<lambda>k st. if k \<in> ks then drop_request r st else st)
       (filter (\<lambda>(k, st). \<not> (k \<in> ks \<and> request_ids (drop_request r st) = {})) d)"

definition cleanup :: "req_id \<Rightarrow> async_lookup \<Rightarrow> async_lookup result" where
  "cleanup r s =
     (let ks = dict_get (req_keys s) r {}
      in if \<exists>k \<in> ks. map_of (lookup_state s) k = None then Inl KeyError
         else Inr (s\<lparr>req_keys := AList.delete r (req_keys s),
                     lookup_state := cleanup_entries r ks (lookup_state s)\<rparr>))"

text \<open>\<open>shutdown\<close> posts the sentinel and joins the thread: the join is waiting for \<open>Stopped\<close>.\<close>

definition post_sentinel :: "async_lookup \<Rightarrow> async_lookup" where
  "post_sentinel s = s\<lparr>lookup_queue := lookup_queue s @ [None]\<rparr>"

section \<open>The worker\<close>

definition group_step :: "offload_key \<times> req_context \<Rightarrow>
    (req_id \<times> req_context \<times> offload_key list) list \<Rightarrow> (req_id \<times> req_context \<times> offload_key list) list" where
  "group_step kc batches =
     (let r = req_id (snd kc);
          batches = setdefault r (snd kc, []) batches
      in dict_map (\<lambda>r' (c, ks). if r' = r then (c, ks @ [fst kc]) else (c, ks)) batches)"

definition group_by_req :: "batch \<Rightarrow> (req_id \<times> req_context \<times> offload_key list) list" where
  "group_by_req pending = fold group_step pending []"

definition request_results :: "batch_fn \<Rightarrow> req_context \<Rightarrow> offload_key list \<Rightarrow> (offload_key \<times> bool) list" where
  "request_results f ctx keys =
     zip keys (case f keys ctx of Inl _ \<Rightarrow> map (\<lambda>_. False) keys | Inr hits \<Rightarrow> hits)"

definition worker_results :: "batch_fn \<Rightarrow> batch \<Rightarrow> (offload_key \<times> bool) list" where
  "worker_results f pending = concat (map (\<lambda>(_, ctx, keys). request_results f ctx keys) (group_by_req pending))"

text \<open>One move of the worker: it takes a batch (or the sentinel), or answers the batch it has.\<close>

definition worker_move :: "batch_fn \<Rightarrow> async_lookup \<Rightarrow> async_lookup" where
  "worker_move f s =
     (case worker s of
        Stopped \<Rightarrow> s
      | Waiting \<Rightarrow>
          (case lookup_queue s of
             [] \<Rightarrow> s
           | None # q \<Rightarrow> s\<lparr>lookup_queue := q, worker := Stopped\<rparr>
           | Some b # q \<Rightarrow> s\<lparr>lookup_queue := q, worker := Processing b\<rparr>)
      | Processing b \<Rightarrow>
          let results = worker_results f b
          in s\<lparr>pending_results := pending_results s @ (if results = [] then [] else [results]),
               worker := Waiting\<rparr>)"

section \<open>Operations in any interleaving\<close>

datatype lookup_op =
    LookupKey offload_key req_context
  | Flush
  | Drain
  | Cleanup req_id
  | PostSentinel
  | WorkerMove batch_fn

fun lookup_step :: "lookup_op \<Rightarrow> async_lookup \<Rightarrow> async_lookup result" where
  "lookup_step (LookupKey k ctx) s = Inr (snd (lookup k ctx s))"
| "lookup_step Flush s = Inr (flush s)"
| "lookup_step Drain s = Inr (drain_results s)"
| "lookup_step (Cleanup r) s = cleanup r s"
| "lookup_step PostSentinel s = Inr (post_sentinel s)"
| "lookup_step (WorkerMove f) s = Inr (worker_move f s)"

end
