(* ===== verification/Async_Lookup_Props.thy ===== *)
theory Async_Lookup_Props
  imports Async_Lookup
begin

text \<open>
  The asynchronous lookup is correct in every interleaving of scheduler and worker: its
  index never loses an entry it needs (no \<open>KeyError\<close>), no lookup is lost, a positive answer
  was found by the tier, and everything is released with the last request.
\<close>

section \<open>The invariant\<close>

definition lookup_owners :: "async_lookup \<Rightarrow> offload_key \<Rightarrow> req_id set" where
  "lookup_owners s k = (case map_of (lookup_state s) k of None \<Rightarrow> {} | Some st \<Rightarrow> request_ids st)"

definition lookup_owned :: "async_lookup \<Rightarrow> req_id \<Rightarrow> offload_key set" where
  "lookup_owned s r = dict_get (req_keys s) r {}"

definition index_ok :: "async_lookup \<Rightarrow> bool" where
  "index_ok s \<longleftrightarrow> distinct (map fst (lookup_state s)) \<and> distinct (map fst (req_keys s)) \<and>
     (\<forall>k st. map_of (lookup_state s) k = Some st \<longrightarrow> request_ids st \<noteq> {}) \<and>
     (\<forall>r k. r \<in> lookup_owners s k \<longleftrightarrow> k \<in> lookup_owned s r)"

definition hand_batch :: "worker_state \<Rightarrow> batch" where
  "hand_batch w = (case w of Processing b \<Rightarrow> b | _ \<Rightarrow> [])"

definition queue_batch :: "batch option \<Rightarrow> batch" where
  "queue_batch q = (case q of None \<Rightarrow> [] | Some b \<Rightarrow> b)"

text \<open>The keys on their way to an answer: batched, queued, in the worker's hand or answered.\<close>

definition outstanding :: "async_lookup \<Rightarrow> offload_key set" where
  "outstanding s = fst ` set (lookup_batch s) \<union> fst ` set (concat (map queue_batch (lookup_queue s))) \<union>
     fst ` set (hand_batch (worker s)) \<union> fst ` set (concat (pending_results s))"

definition flight_ok :: "async_lookup \<Rightarrow> bool" where
  "flight_ok s \<longleftrightarrow> (\<forall>k st. map_of (lookup_state s) k = Some st \<and> lk_result st = None \<longrightarrow> k \<in> outstanding s)"

definition lookup_inv :: "async_lookup \<Rightarrow> bool" where
  "lookup_inv s \<longleftrightarrow> index_ok s \<and> flight_ok s"

lemma index_okD:
  assumes "index_ok s"
  shows "distinct (map fst (lookup_state s))" "distinct (map fst (req_keys s))"
    "map_of (lookup_state s) k = Some st \<Longrightarrow> request_ids st \<noteq> {}"
    "r \<in> lookup_owners s k \<longleftrightarrow> k \<in> lookup_owned s r"
  using assms unfolding index_ok_def by blast+

lemma make_async_lookup_inv: "lookup_inv make_async_lookup"
  by (simp add: lookup_inv_def index_ok_def flight_ok_def make_async_lookup_def lookup_owners_def lookup_owned_def)

section \<open>Draining results\<close>

definition latest :: "(offload_key \<times> bool) list \<Rightarrow> offload_key \<Rightarrow> bool option \<Rightarrow> bool option" where
  "latest rs k r = fold (\<lambda>(k', b) r. if k' = k then Some b else r) rs r"

lemma latest_simps [simp]:
  "latest [] k r = r"
  "latest (kb # rs) k r = latest rs k (if fst kb = k then Some (snd kb) else r)"
  by (simp_all add: latest_def case_prod_beta)

lemma latest_Some: "k \<in> fst ` set rs \<Longrightarrow> \<exists>b. (k, b) \<in> set rs \<and> latest rs k r = Some b"
proof (induction rs arbitrary: r)
  case (Cons kb rs)
  show ?case
  proof (cases "k \<in> fst ` set rs")
    case True
    from Cons.IH [OF this, of "if fst kb = k then Some (snd kb) else r"] show ?thesis by auto
  next
    case False
    then have "latest rs k r' = r'" for r' by (induction rs arbitrary: r') auto
    with False Cons.prems show ?thesis by (cases kb) auto
  qed
qed simp

lemma latest_other: "k \<notin> fst ` set rs \<Longrightarrow> latest rs k r = r"
  by (induction rs arbitrary: r) auto

lemma fold_fold_concat: "fold (fold f) xss x = fold f (concat xss) x"
  by (induction xss arbitrary: x) simp_all

lemma map_of_apply_result:
  "map_of (apply_result kr d) k =
     map_option (\<lambda>st. if fst kr = k then st\<lparr>lk_result := Some (snd kr)\<rparr> else st) (map_of d k)"
  by (cases "map_of d k") (auto simp: apply_result_def dict_simps split: option.splits)

lemma map_of_apply_results:
  "map_of (fold apply_result rs d) k =
     map_option (\<lambda>st. st\<lparr>lk_result := latest rs k (lk_result st)\<rparr>) (map_of d k)"
proof (induction rs arbitrary: d)
  case Nil
  show ?case by (cases "map_of d k") simp_all
next
  case (Cons kr rs)
  show ?case by (cases "map_of d k") (auto simp: Cons map_of_apply_result)
qed

lemma keys_apply_results: "map fst (fold apply_result rs d) = map fst d"
proof (induction rs arbitrary: d)
  case (Cons kr rs)
  have "map fst (apply_result kr d) = map fst d"
    by (cases "map_of d (fst kr)") (simp_all add: apply_result_def keys_update_present)
  with Cons show ?case by simp
qed simp


lemma drain_fields:
  "map_of (lookup_state (drain_results s)) k =
     map_option (\<lambda>st. st\<lparr>lk_result := latest (concat (pending_results s)) k (lk_result st)\<rparr>)
       (map_of (lookup_state s) k)"
  "map fst (lookup_state (drain_results s)) = map fst (lookup_state s)"
  "req_keys (drain_results s) = req_keys s"
  "lookup_owners (drain_results s) = lookup_owners s"
  "lookup_owned (drain_results s) = lookup_owned s"
  by (auto simp: drain_results_def fold_fold_concat map_of_apply_results keys_apply_results
      lookup_owners_def lookup_owned_def fun_eq_iff split: option.splits)

lemma drain_outstanding: "outstanding s = outstanding (drain_results s) \<union> fst ` set (concat (pending_results s))"
  by (auto simp: outstanding_def drain_results_def)

lemma drain_index: "index_ok s \<Longrightarrow> index_ok (drain_results s)"
  by (auto simp: index_ok_def drain_fields)

lemma drain_resolves:
  assumes "k \<in> fst ` set (concat (pending_results s))" "map_of (lookup_state (drain_results s)) k = Some st"
  shows "lk_result st \<noteq> None"
proof -
  obtain st0 where "st = st0\<lparr>lk_result := latest (concat (pending_results s)) k (lk_result st0)\<rparr>"
    using assms(2) by (auto simp: drain_fields(1))
  then show ?thesis using latest_Some [OF assms(1), of "lk_result st0"] by auto
qed

lemma drain_flight:
  assumes "flight_ok s"
  shows "flight_ok (drain_results s)"
  unfolding flight_ok_def
proof (intro allI impI)
  fix k st
  assume a: "map_of (lookup_state (drain_results s)) k = Some st \<and> lk_result st = None"
  then have k: "k \<notin> fst ` set (concat (pending_results s))" using drain_resolves [of k s st] by blast
  from a obtain st0 where st0: "map_of (lookup_state s) k = Some st0"
      "st = st0\<lparr>lk_result := latest (concat (pending_results s)) k (lk_result st0)\<rparr>"
    by (auto simp: drain_fields(1))
  with a have "lk_result st0 = None" by (simp add: latest_other [OF k])
  with assms st0(1) have "k \<in> outstanding s" unfolding flight_ok_def by blast
  with k show "k \<in> outstanding (drain_results s)" using drain_outstanding [of s] by blast
qed

lemma drain_inv: "lookup_inv s \<Longrightarrow> lookup_inv (drain_results s)"
  by (simp add: lookup_inv_def drain_index drain_flight)

section \<open>Looking up\<close>

lemma lookup_drained_owned:
  "lookup_owned (snd (lookup_drained key ctx s)) r =
     (if r = req_id ctx then insert key (lookup_owned s r) else lookup_owned s r)"
  by (simp add: lookup_owned_def lookup_drained_def case_prod_beta Let_def dict_simps)

lemma lookup_drained_owners:
  "lookup_owners (snd (lookup_drained key ctx s)) k =
     (if k = key then insert (req_id ctx) (lookup_owners s k) else lookup_owners s k)"
  by (auto simp: lookup_owners_def lookup_drained_def case_prod_beta Let_def dict_simps split: option.splits)

lemma lookup_drained_entry:
  "map_of (lookup_state (snd (lookup_drained key ctx s))) k =
     (if k = key then
        Some \<lparr>lk_result = (case map_of (lookup_state s) key of None \<Rightarrow> None | Some st \<Rightarrow> lk_result st),
              request_ids = insert (req_id ctx) (lookup_owners s key)\<rparr>
      else map_of (lookup_state s) k)"
  by (auto simp: lookup_drained_def lookup_owners_def case_prod_beta Let_def dict_simps split: option.splits)

lemma lookup_drained_keys:
  "distinct (map fst (lookup_state s)) \<Longrightarrow> distinct (map fst (lookup_state (snd (lookup_drained key ctx s))))"
  "distinct (map fst (req_keys s)) \<Longrightarrow> distinct (map fst (req_keys (snd (lookup_drained key ctx s))))"
  by (simp_all add: lookup_drained_def case_prod_beta Let_def distinct_update)

lemma lookup_drained_index:
  assumes "index_ok s"
  shows "index_ok (snd (lookup_drained key ctx s))"
  using assms lookup_drained_keys
  by (auto simp: index_ok_def lookup_drained_owned lookup_drained_owners lookup_drained_entry split: if_splits)

lemma lookup_drained_outstanding:
  "outstanding (snd (lookup_drained key ctx s)) =
     outstanding s \<union> (if map_of (lookup_state s) key = None then {key} else {})"
  by (auto simp: outstanding_def lookup_drained_def case_prod_beta Let_def split: option.splits)

lemma lookup_drained_flight: "flight_ok s \<Longrightarrow> flight_ok (snd (lookup_drained key ctx s))"
  by (force simp: flight_ok_def lookup_drained_entry lookup_drained_outstanding split: if_splits option.splits)

lemma lookup_inv_lookup: "lookup_inv s \<Longrightarrow> lookup_inv (snd (lookup key ctx s))"
  using drain_inv [of s] by (simp add: lookup_inv_def lookup_def lookup_drained_index lookup_drained_flight)

text \<open>Operations that only move keys along keep the invariant.\<close>

lemma moved_inv:
  assumes "lookup_inv s" "lookup_state s' = lookup_state s" "req_keys s' = req_keys s"
    and "outstanding s \<subseteq> outstanding s'"
  shows "lookup_inv s'"
  using assms by (force simp: lookup_inv_def index_ok_def flight_ok_def lookup_owners_def lookup_owned_def)

lemma flush_outstanding: "outstanding (flush s) = outstanding s"
  by (simp add: outstanding_def flush_def queue_batch_def image_Un Un_ac)

lemma flush_inv: "lookup_inv s \<Longrightarrow> lookup_inv (flush s)"
  by (rule moved_inv [where s = s]) (simp_all add: flush_outstanding, simp_all add: flush_def)

lemma post_sentinel_inv: "lookup_inv s \<Longrightarrow> lookup_inv (post_sentinel s)"
  by (erule moved_inv) (auto simp: post_sentinel_def outstanding_def queue_batch_def)

section \<open>Cleaning up\<close>

lemma map_of_cleanup_entries:
  assumes "distinct (map fst d)"
  shows "map_of (cleanup_entries r ks d) k =
    (case map_of d k of None \<Rightarrow> None
     | Some st \<Rightarrow> if k \<notin> ks then Some st
                 else if request_ids st \<subseteq> {r} then None else Some (drop_request r st))"
  using assms
proof (induction d)
  case (Cons p d)
  have "map_of d k = None" if "k = fst p" using Cons.prems that by (auto simp: map_of_eq_None_iff)
  with Cons show ?case
    by (cases p) (auto simp: cleanup_entries_def dict_map_def drop_request_def)
qed (simp add: cleanup_entries_def dict_map_def)

lemma keys_cleanup_entries: "distinct (map fst d) \<Longrightarrow> distinct (map fst (cleanup_entries r ks d))"
  by (simp add: cleanup_entries_def dict_simps distinct_map_filter)

lemma cleanup_any_order:
  assumes "distinct (map fst d)" "distinct ks" "\<forall>k \<in> set ks. map_of d k \<noteq> None"
  shows "\<exists>d'. cleanup_loop r ks d = Inr d' \<and> map_of d' = map_of (cleanup_entries r (set ks) d)"
  using assms
proof (induction ks arbitrary: d)
  case Nil
  show ?case by (auto simp: fun_eq_iff map_of_cleanup_entries Nil split: option.splits)
next
  case (Cons k ks)
  then obtain st where st: "map_of d k = Some st" by auto
  let ?st = "drop_request r st"
  let ?d = "if request_ids ?st = {} then AList.delete k d else AList.update k ?st d"
  have d: "distinct (map fst ?d)" using Cons.prems(1) by (simp add: distinct_update distinct_delete)
  have "\<forall>k' \<in> set ks. map_of ?d k' \<noteq> None" using Cons.prems by (auto simp: dict_simps)
  with Cons.IH [OF d] Cons.prems(2) obtain d' where
    d': "cleanup_loop r ks ?d = Inr d'" "map_of d' = map_of (cleanup_entries r (set ks) ?d)" by auto
  have "cleanup_loop r (k # ks) d = Inr d'"
    using d'(1) by (simp add: st Let_def)
  moreover have "map_of (cleanup_entries r (set ks) ?d) x = map_of (cleanup_entries r (set (k # ks)) d) x" for x
    unfolding map_of_cleanup_entries [OF d] map_of_cleanup_entries [OF Cons.prems(1)]
    using Cons.prems(2) st by (auto simp: dict_simps drop_request_def split: option.splits)
  ultimately show ?case using d'(2) by (auto simp: fun_eq_iff)
qed

text \<open>The total part of \<open>cleanup\<close>: the state it leaves and the keys it forgets.\<close>

definition cleaned :: "req_id \<Rightarrow> async_lookup \<Rightarrow> async_lookup" where
  "cleaned r s = s\<lparr>req_keys := AList.delete r (req_keys s),
     lookup_state := cleanup_entries r (lookup_owned s r) (lookup_state s)\<rparr>"

definition forgotten :: "req_id \<Rightarrow> async_lookup \<Rightarrow> offload_key set" where
  "forgotten r s = {k. map_of (lookup_state s) k \<noteq> None \<and> map_of (lookup_state (cleaned r s)) k = None}"

lemma cleanup_succeeds: "index_ok s \<Longrightarrow> cleanup r s = Inr (cleaned r s)"
  using index_okD(4) [of s r]
  by (fastforce simp: cleanup_def cleaned_def lookup_owned_def lookup_owners_def Let_def split: option.splits)

lemma cleaned_owned:
  "lookup_owned (cleaned r s) r' = (if r' = r then {} else lookup_owned s r')"
  by (simp add: lookup_owned_def cleaned_def dict_simps)

lemma cleaned_entry:
  "index_ok s \<Longrightarrow> map_of (lookup_state (cleaned r s)) k =
    (case map_of (lookup_state s) k of None \<Rightarrow> None
     | Some st \<Rightarrow> if k \<notin> lookup_owned s r then Some st
                 else if request_ids st \<subseteq> {r} then None else Some (drop_request r st))"
  by (simp add: cleaned_def map_of_cleanup_entries index_okD(1))

lemma cleaned_owners:
  assumes "index_ok s"
  shows "lookup_owners (cleaned r s) k = lookup_owners s k - {r}"
  using index_okD(4) [OF assms, of r k]
  by (auto simp: lookup_owners_def cleaned_entry [OF assms] drop_request_def split: option.splits)

lemma cleaned_index:
  assumes "index_ok s"
  shows "index_ok (cleaned r s)"
  unfolding index_ok_def
proof (intro conjI allI impI)
  show "distinct (map fst (lookup_state (cleaned r s)))" "distinct (map fst (req_keys (cleaned r s)))"
    using index_okD(1,2) [OF assms] by (simp_all add: cleaned_def keys_cleanup_entries distinct_delete)
  show "request_ids st \<noteq> {}" if "map_of (lookup_state (cleaned r s)) k = Some st" for k st
    using that index_okD(3) [OF assms, of k]
    by (auto simp: cleaned_entry [OF assms] drop_request_def split: option.splits if_splits)
  show "r' \<in> lookup_owners (cleaned r s) k \<longleftrightarrow> k \<in> lookup_owned (cleaned r s) r'" for r' k
    using index_okD(4) [OF assms, of r' k] by (auto simp: cleaned_owners [OF assms] cleaned_owned)
qed

lemma cleaned_inv:
  assumes "lookup_inv s"
  shows "lookup_inv (cleaned r s)"
proof -
  have i: "index_ok s" and f: "flight_ok s" using assms by (simp_all add: lookup_inv_def)
  have "outstanding (cleaned r s) = outstanding s" by (simp add: outstanding_def cleaned_def)
  with f have "flight_ok (cleaned r s)"
    by (fastforce simp: flight_ok_def cleaned_entry [OF i] drop_request_def split: option.splits if_splits)
  with cleaned_index [OF i] show ?thesis by (simp add: lookup_inv_def)
qed

text \<open>The lookups and clean-ups of requests are an ownership index.\<close>

definition lookup_all :: "(string \<times> py_value) list option \<Rightarrow> req_id \<Rightarrow> offload_key list \<Rightarrow> async_lookup \<Rightarrow> async_lookup" where
  "lookup_all p r ks s = fold (\<lambda>k s. snd (lookup k \<lparr>req_id = r, kv_transfer_params = p\<rparr> s)) ks s"

lemma lookup_all_inv: "lookup_inv s \<Longrightarrow> lookup_inv (lookup_all p r ks s)"
  unfolding lookup_all_def by (induction ks arbitrary: s) (simp_all add: lookup_inv_lookup)

lemma lookup_all_owned:
  "lookup_owned (lookup_all p r ks s) r' = lookup_owned s r' \<union> (if r' = r then set ks else {})"
  unfolding lookup_all_def
  by (induction ks arbitrary: s) (auto simp: lookup_def lookup_drained_owned drain_fields)

interpretation lk: ownership_index lookup_inv lookup_owners lookup_owned "lookup_all p"
  "\<lambda>r s. (forgotten r s, cleaned r s)"
proof (unfold_locales, goal_cases)
  case (1 s ow k) then show ?case by (simp add: lookup_inv_def index_okD(4))
next
  case (6 s ow)
  then have i: "index_ok s" by (simp add: lookup_inv_def)
  have "k \<in> forgotten ow s \<longleftrightarrow> lookup_owners s k = {ow}" for k
    using index_okD(3) [OF i, of k] index_okD(4) [OF i, of ow k]
    by (auto simp: forgotten_def cleaned_entry [OF i] lookup_owners_def split: option.splits if_splits)
  then show ?case by auto
qed (simp_all add: lookup_all_inv cleaned_inv lookup_all_owned cleaned_owned)

section \<open>The worker's answers\<close>

text \<open>Grouping keeps every key: under each request its first context and its keys in order.\<close>

lemma map_of_group_step:
  "map_of (group_step (k, ctx) bs) r =
     (if r = req_id ctx then
        Some (case map_of bs r of None \<Rightarrow> (ctx, [k]) | Some (c, ks) \<Rightarrow> (c, ks @ [k]))
      else map_of bs r)"
  by (auto simp: group_step_def Let_def dict_simps option.map_id split: option.splits)

lemma distinct_group_step: "distinct (map fst bs) \<Longrightarrow> distinct (map fst (group_step kc bs))"
  by (simp add: group_step_def Let_def dict_simps)

definition request_part :: "req_id \<Rightarrow> batch \<Rightarrow> batch" where
  "request_part r b = filter (\<lambda>kc. req_id (snd kc) = r) b"

lemma request_part_simps [simp]:
  "request_part r [] = []"
  "request_part r ((k, ctx) # b) = (if req_id ctx = r then (k, ctx) # request_part r b else request_part r b)"
  by (simp_all add: request_part_def)

lemma map_of_group_by_req:
  "map_of (group_by_req b) r =
     (case request_part r b of [] \<Rightarrow> None | kc # p \<Rightarrow> Some (snd kc, map fst (kc # p)))"
proof -
  have "map_of (fold group_step b bs) r =
     (case map_of bs r of
        Some (c, ks) \<Rightarrow> Some (c, ks @ map fst (request_part r b))
      | None \<Rightarrow> (case request_part r b of [] \<Rightarrow> None | kc # p \<Rightarrow> Some (snd kc, map fst (kc # p))))" for bs
  proof (induction b arbitrary: bs)
    case (Cons kc b)
    obtain k ctx where kc: "kc = (k, ctx)" by (cases kc)
    show ?case by (auto simp: kc Cons map_of_group_step split: option.splits)
  qed (auto simp: request_part_def split: option.splits)
  from this [of "[]"] show ?thesis by (simp add: group_by_req_def)
qed

lemma distinct_group_by_req: "distinct (map fst (group_by_req b))"
proof -
  have "distinct (map fst bs) \<Longrightarrow> distinct (map fst (fold group_step b bs))" for bs
    by (induction b arbitrary: bs) (simp_all add: distinct_group_step)
  from this [of "[]"] show ?thesis by (simp add: group_by_req_def)
qed

lemma group_by_req_mem:
  "(r, ctx, ks) \<in> set (group_by_req b) \<longleftrightarrow>
     request_part r b \<noteq> [] \<and> ctx = snd (hd (request_part r b)) \<and> ks = map fst (request_part r b)"
proof -
  have "(r, ctx, ks) \<in> set (group_by_req b) \<longleftrightarrow> map_of (group_by_req b) r = Some (ctx, ks)"
    using distinct_group_by_req by (metis map_of_eq_Some_iff)
  also have "\<dots> \<longleftrightarrow> request_part r b \<noteq> [] \<and> ctx = snd (hd (request_part r b)) \<and> ks = map fst (request_part r b)"
    by (auto simp: map_of_group_by_req split: list.splits)
  finally show ?thesis .
qed

text \<open>
  What \<open>batch_lookup\<close> documents: the result is parallel to the keys it was given. It may
  also raise, and then every key of the call counts as absent.
\<close>

definition parallel_fn :: "batch_fn \<Rightarrow> bool" where
  "parallel_fn f \<longleftrightarrow> (\<forall>ks ctx hits. f ks ctx = Inr hits \<longrightarrow> length hits = length ks)"

lemma request_results_keys: "parallel_fn f \<Longrightarrow> map fst (request_results f ctx ks) = ks"
  by (auto simp: parallel_fn_def request_results_def split: sum.splits)

lemma worker_results_keys:
  assumes "parallel_fn f"
  shows "fst ` set (worker_results f b) = fst ` set b"
proof -
  have keys: "fst ` set (request_results f ctx ks) = set ks" for ctx ks
    using request_results_keys [OF assms] by (metis set_map)
  have "fst ` set (worker_results f b) = (\<Union>g \<in> set (group_by_req b). set (snd (snd g)))"
    by (simp add: worker_results_def image_UN keys case_prod_beta)
  also have "\<dots> = fst ` set b"
  proof (intro equalityI subsetI)
    fix k assume "k \<in> (\<Union>g \<in> set (group_by_req b). set (snd (snd g)))"
    then obtain r ctx ks where "(r, ctx, ks) \<in> set (group_by_req b)" "k \<in> set ks" by auto
    then show "k \<in> fst ` set b" by (auto simp: group_by_req_mem request_part_def)
  next
    fix k assume "k \<in> fst ` set b"
    then obtain ctx where kc: "(k, ctx) \<in> set (request_part (req_id ctx) b)" by (auto simp: request_part_def)
    let ?p = "request_part (req_id ctx) b"
    have "(req_id ctx, snd (hd ?p), map fst ?p) \<in> set (group_by_req b)"
      using kc by (auto simp: group_by_req_mem)
    moreover have "k \<in> set (map fst ?p)" using kc by force
    ultimately show "k \<in> (\<Union>g \<in> set (group_by_req b). set (snd (snd g)))" by force
  qed
  finally show ?thesis .
qed

lemma worker_move_inv:
  assumes "lookup_inv s" "parallel_fn f"
  shows "lookup_inv (worker_move f s)"
proof (rule moved_inv [OF assms(1)])
  show "outstanding s \<subseteq> outstanding (worker_move f s)"
  proof (cases "worker s")
    case Waiting
    then show ?thesis
      by (cases "lookup_queue s"; cases "hd (lookup_queue s)")
        (simp_all add: worker_move_def outstanding_def hand_batch_def queue_batch_def image_Un Un_ac)
  next
    case (Processing b)
    let ?r = "worker_results f b"
    have "fst ` set (concat (if ?r = [] then [] else [?r])) = fst ` set b"
      using worker_results_keys [OF assms(2), of b] by auto
    with Processing show ?thesis
      by (simp add: worker_move_def outstanding_def hand_batch_def Let_def image_Un del: set_concat) blast
  qed (simp add: worker_move_def)
qed (auto simp: worker_move_def Let_def split: worker_state.splits list.splits option.splits)

end
