(* ===== verification/Async_Lookup_Policy.thy ===== *)
theory Async_Lookup_Policy
  imports Async_Lookup_Props "HOL-Library.Multiset"
begin

text \<open>
  What the asynchronous lookup promises to the tier that owns it, over every interleaving
  of the scheduler's calls and the worker's moves.
\<close>

section \<open>Every interleaving\<close>

fun parallel_op :: "lookup_op \<Rightarrow> bool" where
  "parallel_op (WorkerMove f) = parallel_fn f"
| "parallel_op _ = True"

definition lookup_run :: "lookup_op list \<Rightarrow> async_lookup \<Rightarrow> async_lookup result" where
  "lookup_run ops s = fold (\<lambda>op r. bind_result r (lookup_step op)) ops (Inr s)"

lemma lookup_step_inv:
  assumes "parallel_op op" "lookup_inv s"
  shows "\<exists>s'. lookup_step op s = Inr s' \<and> lookup_inv s'"
  using assms
  by (cases op) (simp_all add: lookup_inv_lookup flush_inv drain_inv post_sentinel_inv
      worker_move_inv cleanup_succeeds [of s] cleaned_inv lookup_inv_def [of s])

interpretation lk_run: fallible_component lookup_step lookup_inv parallel_op
  by unfold_locales (rule lookup_step_inv)

text \<open>In every interleaving of scheduler calls and worker moves on a new lookup manager,
  \<open>cleanup\<close> never raises \<open>KeyError\<close>, both directions of the index agree, and every lookup
  without an answer is still on its way: batched, queued, with the worker or answered.\<close>

theorem lookup_reachable_inv:
  assumes "list_all parallel_op ops"
  shows "\<exists>s. lookup_run ops make_async_lookup = Inr s \<and> lookup_inv s"
  unfolding lookup_run_def using make_async_lookup_inv assms by (rule lk_run.run_ok)

definition ctx_a :: req_context where "ctx_a = \<lparr>req_id = ''a'', kv_transfer_params = None\<rparr>"
definition ctx_b :: req_context where "ctx_b = \<lparr>req_id = ''b'', kv_transfer_params = None\<rparr>"

text \<open>A tier that holds the block \<open>k1\<close> only and cannot be reached for request \<open>b\<close>.\<close>

definition sample_fn :: batch_fn where
  "sample_fn ks ctx = (if req_id ctx = ''b'' then Inl (OSError ''unreachable'') else Inr (map (\<lambda>k. k = ''k1'') ks))"

lemma sample_fn_parallel: "parallel_fn sample_fn"
  by (auto simp: parallel_fn_def sample_fn_def)

definition lookup_ops :: "lookup_op list" where
  "lookup_ops = [LookupKey ''k1'' ctx_a, LookupKey ''k2'' ctx_b, LookupKey ''k3'' ctx_a, Flush,
     WorkerMove sample_fn, LookupKey ''k1'' ctx_b, Flush]"

definition lookup_example :: async_lookup where
  "lookup_example = (case lookup_run lookup_ops make_async_lookup of Inl _ \<Rightarrow> make_async_lookup | Inr s \<Rightarrow> s)"

lemma lookup_ops_parallel: "list_all parallel_op lookup_ops"
  by (simp add: lookup_ops_def sample_fn_parallel)

lemma lookup_example_inv: "lookup_inv lookup_example"
  using lk_run.run_ok [OF make_async_lookup_inv lookup_ops_parallel]
  by (auto simp: lookup_example_def lookup_run_def)

theorem lookup_reachable_inv_witness:
  "\<exists>s. lookup_run lookup_ops make_async_lookup = Inr s \<and> lookup_inv s"
  by (rule lookup_reachable_inv [OF lookup_ops_parallel])

section \<open>Every lookup is answered\<close>

text \<open>How many moves the worker has to make before it waits on an empty queue.\<close>

definition worker_work :: "async_lookup \<Rightarrow> nat" where
  "worker_work s = 2 * length (lookup_queue s) + (case worker s of Processing _ \<Rightarrow> 1 | _ \<Rightarrow> 0)"

lemma worker_move_work:
  assumes "worker s \<noteq> Stopped" "None \<notin> set (lookup_queue s)"
  shows "worker_work (worker_move f s) = worker_work s - 1"
    and "worker (worker_move f s) \<noteq> Stopped" "None \<notin> set (lookup_queue (worker_move f s))"
  using assms
  by (auto simp: worker_move_def worker_work_def Let_def split: worker_state.splits list.splits option.splits)

lemma worker_move_frame:
  "lookup_state (worker_move f s) = lookup_state s" "lookup_batch (worker_move f s) = lookup_batch s"
  by (auto simp: worker_move_def Let_def split: worker_state.splits list.splits option.splits)

lemma worker_moves:
  assumes "lookup_inv s" "parallel_fn f" "worker s \<noteq> Stopped" "None \<notin> set (lookup_queue s)"
  shows "lookup_inv ((worker_move f ^^ n) s) \<and> worker ((worker_move f ^^ n) s) \<noteq> Stopped \<and>
    None \<notin> set (lookup_queue ((worker_move f ^^ n) s)) \<and>
    worker_work ((worker_move f ^^ n) s) = worker_work s - n \<and>
    lookup_state ((worker_move f ^^ n) s) = lookup_state s \<and>
    lookup_batch ((worker_move f ^^ n) s) = lookup_batch s"
  by (induction n) (simp_all add: assms worker_move_inv worker_move_work worker_move_frame)

lemma idle_worker:
  assumes "worker_work s = 0" "worker s \<noteq> Stopped"
  shows "lookup_queue s = []" "worker s = Waiting"
  using assms by (auto simp: worker_work_def split: worker_state.splits)

text \<open>C21: No lookup waits for ever. Once the step's batch is flushed and the worker has made at
  most two moves per queued batch, the next lookup of any key that was looked up before
  returns an answer, even when no new key was flushed in between; \<open>batch_lookup\<close> may raise.\<close>

theorem lookup_answered:
  assumes inv: "lookup_inv s" and f: "parallel_fn f"
    and run: "worker s \<noteq> Stopped" "None \<notin> set (lookup_queue s)"
    and k: "map_of (lookup_state s) k \<noteq> None" and n: "worker_work (flush s) \<le> n"
  shows "fst (lookup k ctx ((worker_move f ^^ n) (flush s))) \<noteq> None"
proof -
  let ?s = "(worker_move f ^^ n) (flush s)"
  have "worker (flush s) \<noteq> Stopped" "None \<notin> set (lookup_queue (flush s))"
    using run by (auto simp: flush_def)
  note m = worker_moves [OF flush_inv [OF inv] f this, of n]
  with n have idle: "lookup_queue ?s = []" "worker ?s = Waiting"
    using idle_worker [of ?s] by auto
  have batch: "lookup_batch ?s = []" "lookup_state ?s = lookup_state s"
    using m by (simp_all only:) (simp_all add: flush_def)
  obtain st where st: "map_of (lookup_state (drain_results ?s)) k = Some st"
    using k batch(2) by (auto simp: drain_fields(1))
  have d: "flight_ok (drain_results ?s)" using m drain_inv [of ?s] by (auto simp: lookup_inv_def)
  have none: "outstanding (drain_results ?s) = {}"
    by (simp add: outstanding_def drain_results_def batch idle hand_batch_def)
  have "lk_result st \<noteq> None"
  proof
    assume "lk_result st = None"
    with d st have "k \<in> outstanding (drain_results ?s)" unfolding flight_ok_def by blast
    with none show False by simp
  qed
  then show ?thesis by (simp add: lookup_def lookup_drained_def st)
qed

theorem lookup_answered_witness:
  "fst (lookup ''k1'' ctx_b ((worker_move sample_fn ^^ 4) (flush lookup_example))) = Some True \<and>
   fst (lookup ''k2'' ctx_b ((worker_move sample_fn ^^ 4) (flush lookup_example))) \<noteq> None"
proof -
  have "worker lookup_example \<noteq> Stopped" "None \<notin> set (lookup_queue lookup_example)"
    "map_of (lookup_state lookup_example) ''k2'' \<noteq> None" "worker_work (flush lookup_example) \<le> 4" by code_simp+
  from lookup_answered [OF lookup_example_inv sample_fn_parallel this] have
    "fst (lookup ''k2'' ctx_b ((worker_move sample_fn ^^ 4) (flush lookup_example))) \<noteq> None" .
  moreover have "fst (lookup ''k1'' ctx_b ((worker_move sample_fn ^^ 4) (flush lookup_example))) = Some True"
    by code_simp
  ultimately show ?thesis by simp
qed

section \<open>Positive answers come from the tier\<close>

text \<open>Some worker move of the run asked the tier and was told that it holds \<open>k\<close>.\<close>

definition tier_found :: "lookup_op list \<Rightarrow> offload_key \<Rightarrow> bool" where
  "tier_found ops k \<longleftrightarrow>
     (\<exists>f ks ctx hits. WorkerMove f \<in> set ops \<and> f ks ctx = Inr hits \<and> (k, True) \<in> set (zip ks hits))"

definition answers_found :: "(offload_key \<Rightarrow> bool) \<Rightarrow> async_lookup \<Rightarrow> bool" where
  "answers_found P s \<longleftrightarrow>
     (\<forall>k st. map_of (lookup_state s) k = Some st \<and> lk_result st = Some True \<longrightarrow> P k) \<and>
     (\<forall>k. (k, True) \<in> set (concat (pending_results s)) \<longrightarrow> P k)"

lemma request_results_True:
  "(k, True) \<in> set (request_results f ctx ks) \<Longrightarrow> \<exists>hits. f ks ctx = Inr hits \<and> (k, True) \<in> set (zip ks hits)"
  by (auto simp: request_results_def zip_map2 split: sum.splits)

lemma worker_results_True:
  "(k, True) \<in> set (worker_results f b) \<Longrightarrow> \<exists>ks ctx hits. f ks ctx = Inr hits \<and> (k, True) \<in> set (zip ks hits)"
  unfolding worker_results_def by (auto dest!: request_results_True)

lemma drain_answers:
  assumes "answers_found P s"
  shows "answers_found P (drain_results s)"
proof -
  have "P k" if "map_of (lookup_state (drain_results s)) k = Some st" "lk_result st = Some True" for k st
  proof -
    let ?rs = "concat (pending_results s)"
    from that(1) obtain st0 where st0: "map_of (lookup_state s) k = Some st0"
      "st = st0\<lparr>lk_result := latest ?rs k (lk_result st0)\<rparr>" by (auto simp: drain_fields(1))
    with that(2) have r: "latest ?rs k (lk_result st0) = Some True" by simp
    show ?thesis
    proof (cases "k \<in> fst ` set ?rs")
      case True
      with latest_Some [OF True, of "lk_result st0"] r have "(k, True) \<in> set ?rs" by auto
      with assms show ?thesis unfolding answers_found_def by blast
    next
      case False
      with r latest_other [OF False] st0(1) assms show ?thesis unfolding answers_found_def by auto
    qed
  qed
  then show ?thesis by (auto simp: answers_found_def drain_results_def)
qed

lemma lookup_answers: "answers_found P s \<Longrightarrow> answers_found P (snd (lookup k ctx s))"
proof -
  assume "answers_found P s"
  then have d: "answers_found P (drain_results s)" by (rule drain_answers)
  have "pending_results (snd (lookup k ctx s)) = []"
    by (simp add: lookup_def lookup_drained_def drain_results_def case_prod_beta Let_def)
  with d show ?thesis
    unfolding answers_found_def lookup_def by (auto simp: lookup_drained_entry split: if_splits option.splits)
qed

lemma worker_answers:
  assumes "answers_found P s"
    and "\<And>ks ctx hits k. f ks ctx = Inr hits \<Longrightarrow> (k, True) \<in> set (zip ks hits) \<Longrightarrow> P k"
  shows "answers_found P (worker_move f s)"
proof -
  have "P k" if "(k, True) \<in> set (worker_results f b)" for k b
    using worker_results_True [OF that] assms(2) by blast
  with assms(1) show ?thesis
    by (auto simp: answers_found_def worker_move_def Let_def split: worker_state.splits list.splits option.splits)
qed

lemma cleaned_pending: "pending_results (cleaned q s) = pending_results s"
  by (simp add: cleaned_def)

lemma step_answers:
  assumes a: "answers_found P s" and inv: "index_ok s" and r: "lookup_step op s = Inr s'"
    and P: "\<And>f ks ctx hits k. op = WorkerMove f \<Longrightarrow> f ks ctx = Inr hits \<Longrightarrow> (k, True) \<in> set (zip ks hits) \<Longrightarrow> P k"
  shows "answers_found P s'"
proof (cases op)
  case (Cleanup q)
  with r have "s' = cleaned q s" by (simp add: cleanup_succeeds [OF inv])
  with a show ?thesis
    by (simp add: answers_found_def cleaned_entry [OF inv] cleaned_pending)
      (fastforce simp: drop_request_def split: option.splits if_splits)
next
  case (WorkerMove f)
  with r a P show ?thesis by (auto intro: worker_answers)
qed (use a r in \<open>auto simp: lookup_answers drain_answers\<close>,
     auto simp: answers_found_def flush_def post_sentinel_def)

lemma run_answers:
  assumes "lookup_run ops s = Inr s'" "answers_found P s" "lookup_inv s" "list_all parallel_op ops"
    and "\<And>f ks ctx hits k. WorkerMove f \<in> set ops \<Longrightarrow> f ks ctx = Inr hits \<Longrightarrow> (k, True) \<in> set (zip ks hits) \<Longrightarrow> P k"
  shows "answers_found P s'"
  using assms
proof (induction ops arbitrary: s)
  case (Cons op ops)
  obtain s1 where s1: "lookup_step op s = Inr s1" "lookup_inv s1"
    using lookup_step_inv [of op s] Cons.prems(3,4) by auto
  have "index_ok s" using Cons.prems(3) by (simp add: lookup_inv_def)
  have "answers_found P s1"
  proof (rule step_answers [OF Cons.prems(2) \<open>index_ok s\<close> s1(1)])
    show "P k" if "op = WorkerMove f" "f ks ctx = Inr hits" "(k, True) \<in> set (zip ks hits)" for f ks ctx hits k
      using that by (intro Cons.prems(5) [of f ks ctx hits k]) simp_all
  qed
  moreover have "lookup_run ops s1 = Inr s'"
    using Cons.prems(1) s1(1) by (simp add: lookup_run_def bind_result_def)
  moreover have "list_all parallel_op ops" using Cons.prems(4) by simp
  ultimately show ?case
  proof (intro Cons.IH [of s1])
    show "P k" if "WorkerMove f \<in> set ops" "f ks ctx = Inr hits" "(k, True) \<in> set (zip ks hits)" for f ks ctx hits k
      using that by (intro Cons.prems(5) [of f ks ctx hits k]) simp_all
  qed (use s1(2) in simp_all)
qed (simp add: lookup_run_def)

text \<open>C34: A positive answer is sound: \<open>lookup\<close> says that a block is present only if, in some
  move of the worker, the tier's \<open>batch_lookup\<close> reported that very key present. A failed
  \<open>batch_lookup\<close> never yields a positive answer.\<close>

theorem lookup_true_found:
  assumes "list_all parallel_op ops" and "lookup_run ops make_async_lookup = Inr s"
    and "fst (lookup k ctx s) = Some True"
  shows "tier_found ops k"
proof -
  have "answers_found (tier_found ops) make_async_lookup"
    by (simp add: answers_found_def make_async_lookup_def)
  then have "answers_found (tier_found ops) s"
    by (rule run_answers [OF assms(2) _ make_async_lookup_inv assms(1)]) (auto simp: tier_found_def)
  then have "answers_found (tier_found ops) (drain_results s)" by (rule drain_answers)
  with assms(3) show ?thesis
    by (auto simp: answers_found_def lookup_def lookup_drained_def case_prod_beta Let_def split: option.splits)
qed

theorem lookup_true_found_witness:
  "\<exists>s. lookup_run (lookup_ops @ [WorkerMove sample_fn]) make_async_lookup = Inr s \<and>
     fst (lookup ''k1'' ctx_b s) = Some True \<and> tier_found (lookup_ops @ [WorkerMove sample_fn]) ''k1''"
proof -
  let ?ops = "lookup_ops @ [WorkerMove sample_fn]" and ?s = "worker_move sample_fn lookup_example"
  have p: "list_all parallel_op ?ops" using lookup_ops_parallel by (simp add: sample_fn_parallel)
  have r: "lookup_run ?ops make_async_lookup = Inr ?s"
    using lk_run.run_ok [OF make_async_lookup_inv lookup_ops_parallel]
    by (auto simp: lookup_run_def lookup_example_def bind_result_def)
  have t: "fst (lookup ''k1'' ctx_b ?s) = Some True" by code_simp
  from lookup_true_found [OF p r t] r t show ?thesis by blast
qed

section \<open>Clean-up\<close>

lemma cleanup_loop_missing:
  "distinct ks \<Longrightarrow> \<exists>k \<in> set ks. map_of d k = None \<Longrightarrow> cleanup_loop r ks d = Inl KeyError"
proof (induction ks arbitrary: d)
  case (Cons k ks)
  show ?case
  proof (cases "map_of d k")
    case (Some st)
    let ?d = "if request_ids (drop_request r st) = {} then AList.delete k d
              else AList.update k (drop_request r st) d"
    from Cons.prems Some have "\<exists>k' \<in> set ks. map_of ?d k' = None" by (auto simp: dict_simps)
    with Cons.IH [of ?d] Cons.prems(1) Some show ?thesis by (simp add: Let_def)
  qed simp
qed simp

text \<open>\<open>cleanup\<close> visits the request's keys in the unspecified order of a Python set. Every
  order gives what the model states over the set: the same error, or the same states.\<close>

theorem cleanup_loop_any_order:
  assumes d: "distinct (map fst (lookup_state s))" and ks: "set ks = dict_get (req_keys s) r {}" "distinct ks"
  shows "case cleanup r s of
      Inl e \<Rightarrow> cleanup_loop r ks (lookup_state s) = Inl e
    | Inr s' \<Rightarrow> \<exists>d'. cleanup_loop r ks (lookup_state s) = Inr d' \<and> map_of d' = map_of (lookup_state s')"
proof (cases "\<exists>k \<in> set ks. map_of (lookup_state s) k = None")
  case True
  then have "cleanup r s = Inl KeyError" by (simp add: cleanup_def Let_def flip: ks(1))
  with cleanup_loop_missing [OF ks(2) True] show ?thesis by simp
next
  case False
  then have "\<forall>k \<in> set ks. map_of (lookup_state s) k \<noteq> None" by simp
  with cleanup_any_order [OF d ks(2) this, of r] show ?thesis by (auto simp: cleanup_def Let_def simp flip: ks(1))
qed

theorem cleanup_loop_any_order_witness:
  "\<exists>d'. cleanup_loop ''b'' [''k2'', ''k1''] (lookup_state lookup_example) = Inr d' \<and>
     map_of d' ''k2'' = None \<and> map_of d' ''k1'' \<noteq> None"
proof -
  obtain s' where s': "cleanup ''b'' lookup_example = Inr s'" "map_of (lookup_state s') ''k2'' = None"
      "map_of (lookup_state s') ''k1'' \<noteq> None"
  proof -
    let ?c = "cleanup ''b'' lookup_example"
    have "\<not> isl ?c \<and> map_of (lookup_state (projr ?c)) ''k2'' = None \<and>
        map_of (lookup_state (projr ?c)) ''k1'' \<noteq> None" by code_simp
    then show ?thesis using that [of "projr ?c"] by (metis sum.collapse(2))
  qed
  have "distinct (map fst (lookup_state lookup_example))"
    "set [''k2'', ''k1''] = dict_get (req_keys lookup_example) ''b'' {}" "distinct [''k2'', ''k1'']" by code_simp+
  from cleanup_loop_any_order [OF this] s' show ?thesis by auto
qed

text \<open>C22: Nothing is retained for finished requests: cleaning up a request removes it from every
  lookup and forgets exactly the keys that only it had looked up, and once every request
  that looked something up is cleaned up, no lookup state is left.\<close>

theorem cleanup_releases:
  assumes inv: "lookup_inv s"
  shows "(\<forall>r. \<exists>s'. cleanup r s = Inr s' \<and>
       (\<forall>k. map_of (lookup_state s') k = None \<longleftrightarrow> map_of (lookup_state s) k = None \<or> lookup_owners s k = {r})) \<and>
    (\<forall>rs. fst ` set (req_keys s) \<subseteq> set rs \<longrightarrow>
       (\<exists>s'. lookup_run (map Cleanup rs) s = Inr s' \<and> lookup_state s' = []))"
proof -
  have i: "index_ok s" using inv by (simp add: lookup_inv_def)
  have one: "map_of (lookup_state (cleaned r s)) k = None \<longleftrightarrow>
      map_of (lookup_state s) k = None \<or> lookup_owners s k = {r}" for r k
    using index_okD(3) [OF i, of k] index_okD(4) [OF i, of r k]
    by (auto simp: cleaned_entry [OF i] lookup_owners_def split: option.splits)
  have run: "\<exists>s'. lookup_run (map Cleanup rs) s = Inr s' \<and> lookup_inv s' \<and>
      (\<forall>k. lookup_owners s' k = lookup_owners s k - set rs)" if "lookup_inv s" for rs s
    using that
  proof (induction rs arbitrary: s)
    case (Cons r rs)
    have "index_ok s" using Cons.prems by (simp add: lookup_inv_def)
    note c = cleanup_succeeds [OF this, of r] cleaned_owners [OF this, of r]
    from Cons.IH [OF cleaned_inv [OF Cons.prems, of r]] c show ?case
      by (auto simp: lookup_run_def bind_result_def)
  qed (simp add: lookup_run_def)
  have "\<exists>s'. lookup_run (map Cleanup rs) s = Inr s' \<and> lookup_state s' = []"
    if rs: "fst ` set (req_keys s) \<subseteq> set rs" for rs
  proof -
    obtain s' where s': "lookup_run (map Cleanup rs) s = Inr s'" "lookup_inv s'"
      "\<And>k. lookup_owners s' k = lookup_owners s k - set rs" using run [OF inv] by blast
    have "lookup_owners s k \<subseteq> set rs" for k
      using rs index_okD(4) [OF i, of _ k]
      by (force simp: lookup_owned_def dict_get_def dest: map_of_SomeD split: option.splits)
    then have none: "lookup_owners s' k = {}" for k by (simp add: s'(3) Diff_eq_empty_iff)
    have "map_of (lookup_state s') k \<noteq> Some st" for k st
      using index_okD(3) [of s' k st] s'(2) none [of k] by (auto simp: lookup_inv_def lookup_owners_def)
    then have "\<forall>k. map_of (lookup_state s') k = None" by (metis not_Some_eq)
    then have "lookup_state s' = []" by (cases "lookup_state s'") (auto split: if_splits)
    with s'(1) show ?thesis by blast
  qed
  with one cleanup_succeeds [OF i] show ?thesis by blast
qed

theorem cleanup_releases_witness:
  "\<exists>s'. lookup_run (map Cleanup [''b'', ''a'']) lookup_example = Inr s' \<and> lookup_state s' = []"
proof -
  have "fst ` set (req_keys lookup_example) \<subseteq> set [''b'', ''a'']" by code_simp
  with cleanup_releases [OF lookup_example_inv] show ?thesis by blast
qed

section \<open>The worker's answers\<close>

definition group_keys :: "(req_id \<times> req_context \<times> offload_key list) list \<Rightarrow> offload_key multiset" where
  "group_keys bs = mset (concat (map (\<lambda>g. snd (snd g)) bs))"

lemma group_keys_add:
  assumes "distinct (map fst bs)" "map_of bs r \<noteq> None"
  shows "group_keys (dict_map (\<lambda>r' (c, ks). if r' = r then (c, ks @ [k]) else (c, ks)) bs) = add_mset k (group_keys bs)"
  using assms
proof (induction bs)
  case (Cons b bs)
  obtain r0 c0 ks0 where b: "b = (r0, c0, ks0)" by (cases b)
  show ?case
  proof (cases "r0 = r")
    case True
    with Cons.prems b have "dict_map (\<lambda>r' (c, ks). if r' = r then (c, ks @ [k]) else (c, ks)) bs = bs"
      unfolding dict_map_def by (intro map_idI) force
    with True b show ?thesis by (simp add: dict_map_def group_keys_def)
  next
    case False
    with Cons b show ?thesis by (simp add: dict_map_def group_keys_def)
  qed
qed simp

lemma group_keys_step:
  assumes "distinct (map fst bs)"
  shows "group_keys (group_step kc bs) = add_mset (fst kc) (group_keys bs)"
proof -
  let ?bs = "setdefault (req_id (snd kc)) (snd kc, []) bs"
  have "group_keys ?bs = group_keys bs"
    by (auto simp: setdefault_def group_keys_def update_absent split: option.splits)
  moreover have "distinct (map fst ?bs)" "map_of ?bs (req_id (snd kc)) \<noteq> None"
    using assms by (auto simp: dict_simps)
  note group_keys_add [OF this, of "fst kc"]
  ultimately show ?thesis unfolding group_step_def Let_def by argo
qed

lemma group_keys_all: "group_keys (group_by_req b) = mset (map fst b)"
proof -
  have "distinct (map fst bs) \<Longrightarrow> group_keys (fold group_step b bs) = mset (map fst b) + group_keys bs" for bs
    by (induction b arbitrary: bs) (simp_all add: group_keys_step distinct_group_step)
  from this [of "[]"] show ?thesis by (simp add: group_by_req_def group_keys_def)
qed

text \<open>The worker answers every entry of a batch exactly once, whatever the mix of requests,
  and asks the tier once per request, for that request's keys in order and with the
  context it looked them up with first; a key counts as present exactly if the tier's answer
  to that call says so, and as absent when the call raised.\<close>

theorem worker_answers_batch:
  assumes f: "parallel_fn f"
  shows "mset (map fst (worker_results f b)) = mset (map fst b) \<and>
    (\<forall>k hit. (k, hit) \<in> set (worker_results f b) \<longleftrightarrow>
       (\<exists>r ctx ks. ks = map fst (request_part r b) \<and> ks \<noteq> [] \<and> ctx = snd (hd (request_part r b)) \<and>
          (case f ks ctx of Inl _ \<Rightarrow> k \<in> set ks \<and> \<not> hit | Inr hits \<Rightarrow> (k, hit) \<in> set (zip ks hits))))"
proof -
  have "map fst (worker_results f b) = concat (map (\<lambda>g. snd (snd g)) (group_by_req b))"
    by (simp add: worker_results_def map_concat comp_def case_prod_beta request_results_keys [OF f])
  then have "mset (map fst (worker_results f b)) = mset (map fst b)"
    using group_keys_all [of b] by (simp add: group_keys_def)
  moreover have "(k, hit) \<in> set (request_results f ctx ks) \<longleftrightarrow>
      (case f ks ctx of Inl _ \<Rightarrow> k \<in> set ks \<and> \<not> hit | Inr hits \<Rightarrow> (k, hit) \<in> set (zip ks hits))" for k hit ctx ks
    by (auto simp: request_results_def zip_map2 zip_same_conv_map split: sum.splits)
  then have "(k, hit) \<in> set (worker_results f b) \<longleftrightarrow>
       (\<exists>r ctx ks. (r, ctx, ks) \<in> set (group_by_req b) \<and>
          (case f ks ctx of Inl _ \<Rightarrow> k \<in> set ks \<and> \<not> hit | Inr hits \<Rightarrow> (k, hit) \<in> set (zip ks hits)))" for k hit
    by (force simp: worker_results_def)
  then have "(k, hit) \<in> set (worker_results f b) \<longleftrightarrow>
       (\<exists>r ctx ks. ks = map fst (request_part r b) \<and> ks \<noteq> [] \<and> ctx = snd (hd (request_part r b)) \<and>
          (case f ks ctx of Inl _ \<Rightarrow> k \<in> set ks \<and> \<not> hit | Inr hits \<Rightarrow> (k, hit) \<in> set (zip ks hits)))" for k hit
    unfolding group_by_req_mem by auto
  ultimately show ?thesis by blast
qed

theorem worker_answers_batch_witness:
  "mset (map fst (worker_results sample_fn [(''k1'', ctx_a), (''k2'', ctx_b), (''k3'', ctx_a)])) =
     {#''k1'', ''k2'', ''k3''#}"
  using worker_answers_batch [OF sample_fn_parallel, of "[(''k1'', ctx_a), (''k2'', ctx_b), (''k3'', ctx_a)]"]
  by simp

section \<open>Shutdown\<close>

definition answered :: "async_lookup \<Rightarrow> offload_key set" where
  "answered s = fst ` set (concat (pending_results s))"

lemma worker_move_simps:
  "worker s = Waiting \<Longrightarrow> lookup_queue s = None # q \<Longrightarrow>
     worker_move f s = s\<lparr>lookup_queue := q, worker := Stopped\<rparr>"
  "worker s = Waiting \<Longrightarrow> lookup_queue s = Some b # q \<Longrightarrow>
     worker_move f s = s\<lparr>lookup_queue := q, worker := Processing b\<rparr>"
  "worker s = Processing b \<Longrightarrow> worker_move f s =
     s\<lparr>pending_results := pending_results s @ (if worker_results f b = [] then [] else [worker_results f b]),
       worker := Waiting\<rparr>"
  by (simp_all add: worker_move_def)

lemma answer_batch:
  assumes "parallel_fn f" "worker s = Processing b"
  shows "worker (worker_move f s) = Waiting" "lookup_queue (worker_move f s) = lookup_queue s"
    and "answered (worker_move f s) = answered s \<union> fst ` set b"
proof -
  have "fst ` set (concat (if worker_results f b = [] then [] else [worker_results f b])) = fst ` set b"
    using worker_results_keys [OF assms(1), of b] by auto
  with assms(2) show "answered (worker_move f s) = answered s \<union> fst ` set b"
    by (simp add: worker_move_simps answered_def image_Un del: set_concat)
qed (use assms(2) in \<open>simp_all add: worker_move_simps\<close>)

lemma waiting_worker_stops:
  assumes "parallel_fn f" "worker s = Waiting" "lookup_queue s = map Some bs @ [None]"
  shows "worker ((worker_move f ^^ Suc (2 * length bs)) s) = Stopped \<and>
    answered ((worker_move f ^^ Suc (2 * length bs)) s) = answered s \<union> fst ` set (concat bs)"
  using assms(2,3)
proof (induction bs arbitrary: s)
  case Nil
  then show ?case by (simp add: worker_move_simps answered_def)
next
  case (Cons b bs)
  let ?s1 = "worker_move f s"
  have s1: "?s1 = s\<lparr>lookup_queue := map Some bs @ [None], worker := Processing b\<rparr>"
    using Cons.prems by (simp add: worker_move_simps)
  then have "worker ?s1 = Processing b" "answered ?s1 = answered s" "lookup_queue ?s1 = map Some bs @ [None]"
    by (simp_all add: answered_def)
  with answer_batch [OF assms(1), of ?s1 b] Cons.IH [of "worker_move f ?s1"] show ?case
    by (simp add: funpow_swap1 image_Un Un_assoc del: funpow.simps(2) add: funpow_Suc_right)
qed

text \<open>\<open>shutdown\<close> returns. After it posts the sentinel, the worker reaches its end, so that the
  join succeeds, within two moves per queued batch, and it first answers the batch in its
  hand and every batch that was queued before the sentinel.\<close>

theorem shutdown_joins:
  assumes f: "parallel_fn f" and w: "worker s \<noteq> Stopped" and q: "lookup_queue s = map Some bs"
  shows "\<exists>n \<le> 2 * length bs + 2. worker ((worker_move f ^^ n) (post_sentinel s)) = Stopped \<and>
    answered ((worker_move f ^^ n) (post_sentinel s)) =
      answered s \<union> fst ` set (concat bs) \<union> fst ` set (hand_batch (worker s))"
proof (cases "worker s")
  case Waiting
  have "worker (post_sentinel s) = Waiting" "lookup_queue (post_sentinel s) = map Some bs @ [None]"
    "answered (post_sentinel s) = answered s"
    using Waiting q by (simp_all add: post_sentinel_def answered_def)
  with waiting_worker_stops [OF f, of "post_sentinel s" bs] Waiting show ?thesis
    by (intro exI [of _ "Suc (2 * length bs)"]) (simp add: hand_batch_def del: funpow.simps(2))
next
  case (Processing b)
  then have p: "worker (post_sentinel s) = Processing b" "lookup_queue (post_sentinel s) = map Some bs @ [None]"
    "answered (post_sentinel s) = answered s"
    using q by (simp_all add: post_sentinel_def answered_def)
  let ?s1 = "worker_move f (post_sentinel s)"
  from answer_batch [OF f p(1)] p(2,3) waiting_worker_stops [OF f, of ?s1 bs]
  have "worker ((worker_move f ^^ Suc (2 * length bs)) ?s1) = Stopped"
    "answered ((worker_move f ^^ Suc (2 * length bs)) ?s1) = answered s \<union> fst ` set b \<union> fst ` set (concat bs)"
    by simp_all
  with Processing show ?thesis
    by (intro exI [of _ "Suc (Suc (2 * length bs))"])
      (simp add: hand_batch_def funpow_swap1 Un_ac del: funpow.simps(2) add: funpow_Suc_right)
qed (use w in simp)

theorem shutdown_joins_witness:
  "\<exists>n. worker ((worker_move sample_fn ^^ n) (post_sentinel lookup_example)) = Stopped \<and>
     ''k2'' \<in> answered ((worker_move sample_fn ^^ n) (post_sentinel lookup_example))"
proof -
  have "worker lookup_example \<noteq> Stopped" "lookup_queue lookup_example = map Some []"
    "''k2'' \<in> fst ` set (hand_batch (worker lookup_example))" by code_simp+
  with shutdown_joins [OF sample_fn_parallel this(1,2)] show ?thesis by blast
qed

end
