(* ===== verification/Thread_Pool.thy ===== *)
theory Thread_Pool
  imports Tiering_Prelude
begin

text \<open>
  \<open>fs/thread_pool.py\<close>: a pool with a load and a store queue whose threads prefer one of
  them. A task is opaque (\<open>'a\<close>); whether it raised, and whether the job's completion
  callback (\<open>'c\<close>) raised, are arguments of the step that runs it. \<open>JobState\<close> objects are
  shared by the tasks of a job, so they live in a store and tasks hold their address. An
  operation is one critical section of the code; threads interleave between them.
\<close>

section \<open>Job states\<close>

record 'c job_state =
  js_job_id :: int
  n_tasks :: nat
  completed :: nat
  js_success :: bool
  on_complete :: "'c option"

definition new_job_state :: "int \<Rightarrow> nat \<Rightarrow> 'c option \<Rightarrow> 'c job_state" where
  "new_job_state job_id n cb =
     \<lparr>js_job_id = job_id, n_tasks = n, completed = 0, js_success = True, on_complete = cb\<rparr>"

text \<open>
  \<open>task_done(success)\<close>: the new state, whether the job is completed, the success flag, and
  the argument the callback was called with, if it was (\<open>raises\<close>: the callback raises).
\<close>

definition task_done :: "bool \<Rightarrow> bool \<Rightarrow> 'c job_state \<Rightarrow> 'c job_state \<times> bool \<times> bool \<times> bool option" where
  "task_done ok raises js =
     (let js = js\<lparr>completed := completed js + 1\<rparr>;
          js = (if \<not> ok then js\<lparr>js_success := False\<rparr> else js);
          is_completed = (completed js = n_tasks js);
          success = js_success js
      in if is_completed \<and> on_complete js \<noteq> None
         then (js, is_completed, (if raises then False else success), Some success)
         else (js, is_completed, success, None))"

section \<open>The pool\<close>

text \<open>A worker thread waits on the condition, runs a task, is about to report a job, or ended.\<close>

datatype 'a thread_state = Idle | Running 'a nat | Reporting nat bool | Exited

record ('a, 'c) pool =
  load_q :: "('a \<times> nat) list"
  store_q :: "('a \<times> nat) list"
  stop :: bool
  threads :: "(bool \<times> 'a thread_state) list"
  finished_q :: "(int \<times> bool) list"
  inflight_jobs :: int
  jobs :: "'c job_state list"

definition make_pool :: "nat \<Rightarrow> nat \<Rightarrow> ('a, 'c) pool" where
  "make_pool n_read n_write =
     \<lparr>load_q = [], store_q = [], stop = False,
      threads = replicate n_read (True, Idle) @ replicate n_write (False, Idle),
      finished_q = [], inflight_jobs = 0, jobs = []\<rparr>"

definition enqueue_load :: "int \<Rightarrow> nat \<Rightarrow> 'a list \<Rightarrow> ('a, 'c) pool \<Rightarrow> ('a, 'c) pool" where
  "enqueue_load job_id n tasks p =
     p\<lparr>jobs := jobs p @ [new_job_state job_id n None],
       inflight_jobs := inflight_jobs p + 1,
       load_q := load_q p @ map (\<lambda>fn. (fn, length (jobs p))) tasks\<rparr>"

definition enqueue_store :: "int \<Rightarrow> nat \<Rightarrow> 'a list \<Rightarrow> 'c option \<Rightarrow> ('a, 'c) pool \<Rightarrow> ('a, 'c) pool" where
  "enqueue_store job_id n tasks cb p =
     p\<lparr>jobs := jobs p @ [new_job_state job_id n cb],
       inflight_jobs := inflight_jobs p + 1,
       store_q := store_q p @ map (\<lambda>fn. (fn, length (jobs p))) tasks\<rparr>"

definition get_finished :: "('a, 'c) pool \<Rightarrow> (int \<times> bool) list \<times> ('a, 'c) pool" where
  "get_finished p = (finished_q p, p\<lparr>finished_q := []\<rparr>)"

text \<open>\<open>wait_idle\<close> returns in the states where its condition holds.\<close>

definition wait_idle_returns :: "('a, 'c) pool \<Rightarrow> bool" where
  "wait_idle_returns p \<longleftrightarrow> inflight_jobs p = 0"

text \<open>\<open>shutdown\<close> before the joins; a join of a thread waits until it has \<open>Exited\<close>.\<close>

definition pool_shutdown :: "('a, 'c) pool \<Rightarrow> ('a, 'c) pool" where
  "pool_shutdown p = p\<lparr>stop := True, load_q := [], store_q := [], inflight_jobs := 0\<rparr>"

section \<open>The worker loop\<close>

definition set_thread :: "nat \<Rightarrow> 'a thread_state \<Rightarrow> ('a, 'c) pool \<Rightarrow> ('a, 'c) pool" where
  "set_thread i t p = p\<lparr>threads := (threads p)[i := (fst (threads p ! i), t)]\<rparr>"

text \<open>The first critical section: leave, wait (\<open>None\<close>) or take a task by priority.\<close>

definition pop_task :: "bool \<Rightarrow> ('a, 'c) pool \<Rightarrow> (('a \<times> nat) \<times> ('a, 'c) pool) option" where
  "pop_task load_priority p =
     (case (load_q p, store_q p) of
        ([], []) \<Rightarrow> None
      | (l # ls, []) \<Rightarrow> Some (l, p\<lparr>load_q := ls\<rparr>)
      | ([], s # ss) \<Rightarrow> Some (s, p\<lparr>store_q := ss\<rparr>)
      | (l # ls, s # ss) \<Rightarrow>
          if load_priority then Some (l, p\<lparr>load_q := ls\<rparr>) else Some (s, p\<lparr>store_q := ss\<rparr>))"

definition worker_take :: "nat \<Rightarrow> ('a, 'c) pool \<Rightarrow> ('a, 'c) pool option" where
  "worker_take i p =
     (if i < length (threads p) \<and> snd (threads p ! i) = Idle
      then if stop p then Some (set_thread i Exited p)
           else (case pop_task (fst (threads p ! i)) p of
                   None \<Rightarrow> None
                 | Some ((task, j), p') \<Rightarrow> Some (set_thread i (Running task j) p'))
      else None)"

text \<open>Running the task and \<open>task_done\<close>, with the argument of the callback if it was called.\<close>

definition worker_done :: "nat \<Rightarrow> bool \<Rightarrow> bool \<Rightarrow> ('a, 'c) pool \<Rightarrow> (nat \<times> bool option \<times> ('a, 'c) pool) option" where
  "worker_done i ok raises p =
     (if i < length (threads p)
      then (case snd (threads p ! i) of
              Running task j \<Rightarrow>
                (let (js, is_completed, success, call) = task_done ok raises (jobs p ! j)
                 in Some (j, call, set_thread i (if is_completed then Reporting j success else Idle)
                                     (p\<lparr>jobs := (jobs p)[j := js]\<rparr>)))
            | _ \<Rightarrow> None)
      else None)"

text \<open>The last critical section: the job is published and leaves the in-flight count.\<close>

definition worker_report :: "nat \<Rightarrow> ('a, 'c) pool \<Rightarrow> (nat \<times> bool \<times> ('a, 'c) pool) option" where
  "worker_report i p =
     (if i < length (threads p)
      then (case snd (threads p ! i) of
              Reporting j success \<Rightarrow>
                Some (j, success,
                  set_thread i Idle
                    (p\<lparr>finished_q := finished_q p @ [(js_job_id (jobs p ! j), success)],
                       inflight_jobs := inflight_jobs p - 1\<rparr>))
            | _ \<Rightarrow> None)
      else None)"

section \<open>Executions\<close>

text \<open>What happened, most recent first; a job is known by the address of its state.\<close>

datatype pool_label =
    Submitted nat nat
  | TaskRan nat bool
  | CallbackRan nat bool bool
  | Reported nat bool
  | Collected "(int \<times> bool) list"
  | ShutDown

definition done_labels :: "nat \<Rightarrow> bool \<Rightarrow> bool \<Rightarrow> bool option \<Rightarrow> pool_label list" where
  "done_labels j ok raises call =
     (case call of None \<Rightarrow> [] | Some arg \<Rightarrow> [CallbackRan j arg raises]) @ [TaskRan j ok]"

inductive pool_trace :: "nat \<Rightarrow> nat \<Rightarrow> pool_label list \<Rightarrow> ('a, 'c) pool \<Rightarrow> bool"
  for n_read n_write where
  Init: "pool_trace n_read n_write [] (make_pool n_read n_write)"
| Load: "pool_trace n_read n_write ls p \<Longrightarrow>
     pool_trace n_read n_write (Submitted n (length tasks) # ls) (enqueue_load job_id n tasks p)"
| Store: "pool_trace n_read n_write ls p \<Longrightarrow>
     pool_trace n_read n_write (Submitted n (length tasks) # ls) (enqueue_store job_id n tasks cb p)"
| Take: "pool_trace n_read n_write ls p \<Longrightarrow> worker_take i p = Some p' \<Longrightarrow>
     pool_trace n_read n_write ls p'"
| Done: "pool_trace n_read n_write ls p \<Longrightarrow> worker_done i ok raises p = Some (j, call, p') \<Longrightarrow>
     pool_trace n_read n_write (done_labels j ok raises call @ ls) p'"
| Report: "pool_trace n_read n_write ls p \<Longrightarrow> worker_report i p = Some (j, success, p') \<Longrightarrow>
     pool_trace n_read n_write (Reported j success # ls) p'"
| Collect: "pool_trace n_read n_write ls p \<Longrightarrow>
     pool_trace n_read n_write (Collected (fst (get_finished p)) # ls) (snd (get_finished p))"
| Shutdown: "pool_trace n_read n_write ls p \<Longrightarrow>
     pool_trace n_read n_write (ShutDown # ls) (pool_shutdown p)"

end
