(* ===== verification/Thread_Pool_Props.thy ===== *)
theory Thread_Pool_Props
  imports Thread_Pool
begin

text \<open>
  The thread pool over every interleaving of submissions, workers, collection and shutdown:
  no task is lost or run twice, each job is reported once with the conjunction of its tasks'
  outcomes, and an idle pool really is idle.
\<close>

section \<open>Counting\<close>

definition is_run :: "nat \<Rightarrow> pool_label \<Rightarrow> bool" where
  "is_run j l \<longleftrightarrow> (case l of TaskRan j' _ \<Rightarrow> j' = j | _ \<Rightarrow> False)"

definition is_callback :: "nat \<Rightarrow> pool_label \<Rightarrow> bool" where
  "is_callback j l \<longleftrightarrow> (case l of CallbackRan j' _ _ \<Rightarrow> j' = j | _ \<Rightarrow> False)"

definition is_report :: "nat \<Rightarrow> pool_label \<Rightarrow> bool" where
  "is_report j l \<longleftrightarrow> (case l of Reported j' _ \<Rightarrow> j' = j | _ \<Rightarrow> False)"

definition occurrences :: "(pool_label \<Rightarrow> bool) \<Rightarrow> pool_label list \<Rightarrow> nat" where
  "occurrences P ls = length (filter P ls)"

lemma occurrences_simps [simp]:
  "occurrences P [] = 0"
  "occurrences P (l # ls) = (if P l then Suc (occurrences P ls) else occurrences P ls)"
  by (simp_all add: occurrences_def)

lemma label_tests [simp]:
  "is_run j (TaskRan j' ok) \<longleftrightarrow> j' = j" "\<not> is_run j (CallbackRan j' a r)" "\<not> is_run j (Reported j' s)"
  "\<not> is_run j (Submitted n k)" "\<not> is_run j (Collected rs)" "\<not> is_run j ShutDown"
  "is_callback j (CallbackRan j' a r) \<longleftrightarrow> j' = j" "\<not> is_callback j (TaskRan j' ok)" "\<not> is_callback j (Reported j' s)"
  "\<not> is_callback j (Submitted n k)" "\<not> is_callback j (Collected rs)" "\<not> is_callback j ShutDown"
  "is_report j (Reported j' s) \<longleftrightarrow> j' = j" "\<not> is_report j (TaskRan j' ok)" "\<not> is_report j (CallbackRan j' a r)"
  "\<not> is_report j (Submitted n k)" "\<not> is_report j (Collected rs)" "\<not> is_report j ShutDown"
  by (simp_all add: is_run_def is_callback_def is_report_def)

fun running_job :: "'a thread_state \<Rightarrow> nat option" where
  "running_job (Running _ j) = Some j"
| "running_job _ = None"

fun reporting_job :: "'a thread_state \<Rightarrow> nat option" where
  "reporting_job (Reporting j _) = Some j"
| "reporting_job _ = None"

definition queued :: "('a, 'c) pool \<Rightarrow> nat \<Rightarrow> nat" where
  "queued p j = count_list (map snd (load_q p)) j + count_list (map snd (store_q p)) j"

definition running :: "('a, 'c) pool \<Rightarrow> nat \<Rightarrow> nat" where
  "running p j = count_list (map (running_job \<circ> snd) (threads p)) (Some j)"

definition reporting :: "('a, 'c) pool \<Rightarrow> nat \<Rightarrow> nat" where
  "reporting p j = count_list (map (reporting_job \<circ> snd) (threads p)) (Some j)"

lemma count_list_list_update:
  "i < length xs \<Longrightarrow>
     count_list (xs[i := x]) y + (if xs ! i = y then 1 else 0) = count_list xs y + (if x = y then 1 else 0)"
proof (induction xs arbitrary: i)
  case (Cons z xs)
  show ?case
  proof (cases i)
    case (Suc n)
    with Cons.IH [of n] Cons.prems show ?thesis by auto
  qed auto
qed simp

lemma count_set_thread:
  assumes "i < length (threads p)"
  shows "running (set_thread i t p) j + (if running_job (snd (threads p ! i)) = Some j then 1 else 0) =
      running p j + (if running_job t = Some j then 1 else 0)"
    and "reporting (set_thread i t p) j + (if reporting_job (snd (threads p ! i)) = Some j then 1 else 0) =
      reporting p j + (if reporting_job t = Some j then 1 else 0)"
  using count_list_list_update [of i "map (running_job \<circ> snd) (threads p)" "running_job t" "Some j"]
    count_list_list_update [of i "map (reporting_job \<circ> snd) (threads p)" "reporting_job t" "Some j"] assms
  by (simp_all add: running_def reporting_def set_thread_def map_update)

lemma queued_simps [simp]:
  "queued (set_thread i t p) j = queued p j"
  "queued (p\<lparr>jobs := js\<rparr>) j = queued p j"
  by (simp_all add: queued_def set_thread_def)

lemma count_pos_iff: "0 < count_list xs x \<longleftrightarrow> x \<in> set xs"
  using count_list_0_iff [of xs x] by auto

section \<open>The invariant\<close>

definition outcome :: "pool_label list \<Rightarrow> nat \<Rightarrow> bool" where
  "outcome ls j \<longleftrightarrow> TaskRan j False \<notin> set ls \<and> (\<forall>arg. CallbackRan j arg True \<notin> set ls)"

definition job_ok :: "pool_label list \<Rightarrow> ('a, 'c) pool \<Rightarrow> nat \<Rightarrow> bool" where
  "job_ok ls p j \<longleftrightarrow>
     0 < n_tasks (jobs p ! j) \<and>
     completed (jobs p ! j) = occurrences (is_run j) ls \<and>
     (js_success (jobs p ! j) \<longleftrightarrow> TaskRan j False \<notin> set ls) \<and>
     completed (jobs p ! j) + queued p j + running p j \<le> n_tasks (jobs p ! j) \<and>
     (ShutDown \<notin> set ls \<longrightarrow> completed (jobs p ! j) + queued p j + running p j = n_tasks (jobs p ! j)) \<and>
     reporting p j + occurrences (is_report j) ls =
       (if completed (jobs p ! j) = n_tasks (jobs p ! j) then 1 else 0) \<and>
     occurrences (is_callback j) ls =
       (if completed (jobs p ! j) = n_tasks (jobs p ! j) \<and> on_complete (jobs p ! j) \<noteq> None then 1 else 0) \<and>
     (\<forall>arg r. CallbackRan j arg r \<in> set ls \<longrightarrow> (arg \<longleftrightarrow> TaskRan j False \<notin> set ls)) \<and>
     (\<forall>s. Reported j s \<in> set ls \<or> Reporting j s \<in> snd ` set (threads p) \<longrightarrow> (s \<longleftrightarrow> outcome ls j))"

text \<open>A job's condition depends on its own labels, tasks and threads only.\<close>

lemma job_okD:
  assumes "job_ok ls p j"
  shows "0 < n_tasks (jobs p ! j)" "completed (jobs p ! j) = occurrences (is_run j) ls"
    "js_success (jobs p ! j) \<longleftrightarrow> TaskRan j False \<notin> set ls"
    "completed (jobs p ! j) + queued p j + running p j \<le> n_tasks (jobs p ! j)"
    "ShutDown \<notin> set ls \<Longrightarrow> completed (jobs p ! j) + queued p j + running p j = n_tasks (jobs p ! j)"
    "reporting p j + occurrences (is_report j) ls =
       (if completed (jobs p ! j) = n_tasks (jobs p ! j) then 1 else 0)"
    "occurrences (is_callback j) ls =
       (if completed (jobs p ! j) = n_tasks (jobs p ! j) \<and> on_complete (jobs p ! j) \<noteq> None then 1 else 0)"
    "CallbackRan j arg r \<in> set ls \<Longrightarrow> arg \<longleftrightarrow> TaskRan j False \<notin> set ls"
    "Reported j s \<in> set ls \<or> Reporting j s \<in> snd ` set (threads p) \<Longrightarrow> s \<longleftrightarrow> outcome ls j"
  using assms unfolding job_ok_def by blast+

fun label_job :: "pool_label \<Rightarrow> nat option" where
  "label_job (TaskRan j _) = Some j"
| "label_job (CallbackRan j _ _) = Some j"
| "label_job (Reported j _) = Some j"
| "label_job _ = None"

definition of_job :: "nat \<Rightarrow> pool_label list \<Rightarrow> pool_label list" where
  "of_job j ls = filter (\<lambda>l. label_job l = Some j) ls"

lemma of_job_simps [simp]:
  "of_job j [] = []"
  "of_job j (l # ls) = (if label_job l = Some j then l # of_job j ls else of_job j ls)"
  "of_job j (ls @ ls') = of_job j ls @ of_job j ls'"
  by (simp_all add: of_job_def)

lemma of_job_occurrences:
  "occurrences (is_run j) (of_job j ls) = occurrences (is_run j) ls"
  "occurrences (is_report j) (of_job j ls) = occurrences (is_report j) ls"
  "occurrences (is_callback j) (of_job j ls) = occurrences (is_callback j) ls"
  by (auto simp: occurrences_def of_job_def is_run_def is_report_def is_callback_def
      intro!: arg_cong [where f = length] filter_cong split: pool_label.splits)

lemma of_job_mem:
  "TaskRan j b \<in> set (of_job j ls) \<longleftrightarrow> TaskRan j b \<in> set ls"
  "CallbackRan j a b \<in> set (of_job j ls) \<longleftrightarrow> CallbackRan j a b \<in> set ls"
  "Reported j b \<in> set (of_job j ls) \<longleftrightarrow> Reported j b \<in> set ls"
  by (auto simp: of_job_def)

lemma job_ok_frame:
  assumes ok: "job_ok ls p j" and js: "jobs p' ! j = jobs p ! j"
    and n: "queued p' j = queued p j" "running p' j = running p j" "reporting p' j = reporting p j"
    and t: "\<And>s. Reporting j s \<in> snd ` set (threads p') \<Longrightarrow> Reporting j s \<in> snd ` set (threads p)"
    and l: "of_job j ls' = of_job j ls" "ShutDown \<in> set ls \<Longrightarrow> ShutDown \<in> set ls'"
  shows "job_ok ls' p' j"
proof -
  have occ: "occurrences (is_run j) ls' = occurrences (is_run j) ls"
    "occurrences (is_report j) ls' = occurrences (is_report j) ls"
    "occurrences (is_callback j) ls' = occurrences (is_callback j) ls"
    using of_job_occurrences [of j ls] of_job_occurrences [of j ls'] l(1) by simp_all
  have mem: "TaskRan j b \<in> set ls' \<longleftrightarrow> TaskRan j b \<in> set ls"
    "CallbackRan j a b \<in> set ls' \<longleftrightarrow> CallbackRan j a b \<in> set ls"
    "Reported j b \<in> set ls' \<longleftrightarrow> Reported j b \<in> set ls" for a b
    using of_job_mem [where j = j and ls = ls] of_job_mem [where j = j and ls = ls'] l(1) by simp_all
  show ?thesis
    using ok t l(2) unfolding job_ok_def outcome_def js n occ mem by blast
qed

definition known_jobs :: "pool_label list \<Rightarrow> ('a, 'c) pool \<Rightarrow> bool" where
  "known_jobs ls p \<longleftrightarrow>
     (\<forall>j. (0 < queued p j \<or> 0 < running p j \<or> 0 < reporting p j \<or> (\<exists>l \<in> set ls. label_job l = Some j)) \<longrightarrow>
        j < length (jobs p))"

definition unreported :: "pool_label list \<Rightarrow> ('a, 'c) pool \<Rightarrow> nat list" where
  "unreported ls p = filter (\<lambda>j. occurrences (is_report j) ls = 0) [0..<length (jobs p)]"

definition pool_inv :: "pool_label list \<Rightarrow> ('a, 'c) pool \<Rightarrow> bool" where
  "pool_inv ls p \<longleftrightarrow> known_jobs ls p \<and> (\<forall>j < length (jobs p). job_ok ls p j) \<and>
     (ShutDown \<notin> set ls \<longrightarrow> \<not> stop p \<and> inflight_jobs p = int (length (unreported ls p))) \<and>
     (ShutDown \<in> set ls \<longrightarrow> stop p)"

text \<open>Every job is submitted with the number of its tasks, and has one.\<close>

definition sane :: "pool_label list \<Rightarrow> bool" where
  "sane ls \<longleftrightarrow> (\<forall>n k. Submitted n k \<in> set ls \<longrightarrow> n = k \<and> 0 < k)"

lemma sane_simps [simp]:
  "sane (Submitted n k # ls) \<longleftrightarrow> n = k \<and> 0 < k \<and> sane ls"
  "sane (Reported j s # ls) = sane ls" "sane (Collected rs # ls) = sane ls" "sane (ShutDown # ls) = sane ls"
  "sane (done_labels j ok r call @ ls) = sane ls"
  by (auto simp: sane_def done_labels_def split: option.splits)

lemma make_pool_inv: "pool_inv [] (make_pool r w)"
proof -
  have "count_list (map (f \<circ> snd) (threads (make_pool r w :: ('a, 'c) pool))) (Some j) = 0"
    if "f Idle = None" for f :: "'a thread_state \<Rightarrow> nat option" and j
    using that by (auto simp: make_pool_def count_list_0_iff)
  then show ?thesis
    by (simp add: pool_inv_def known_jobs_def unreported_def queued_def running_def reporting_def)
      (simp add: make_pool_def)
qed

text \<open>A submission appends one job and its tasks.\<close>

definition submitted :: "nat \<Rightarrow> nat \<Rightarrow> ('a, 'c) pool \<Rightarrow> ('a, 'c) pool \<Rightarrow> bool" where
  "submitted n k p p' \<longleftrightarrow> (\<exists>job_id cb. jobs p' = jobs p @ [new_job_state job_id n cb]) \<and>
     (\<forall>j. queued p' j = queued p j + (if j = length (jobs p) then k else 0)) \<and>
     threads p' = threads p \<and> stop p' = stop p \<and> inflight_jobs p' = inflight_jobs p + 1"

lemma count_list_map_const: "count_list (map (\<lambda>_. x) xs) y = (if x = y then length xs else 0)"
  by (induction xs) auto

lemma enqueue_submitted:
  "submitted n (length tasks) p (enqueue_load job_id n tasks p)"
  "submitted n (length tasks) p (enqueue_store job_id n tasks cb p)"
  by (auto simp: submitted_def enqueue_load_def enqueue_store_def queued_def comp_def count_list_map_const)

lemma submitted_inv:
  assumes inv: "pool_inv ls p" and s: "submitted n k p p'" and n: "n = k" "0 < k"
  shows "pool_inv (Submitted n k # ls) p'"
proof -
  obtain job_id cb where jobs: "jobs p' = jobs p @ [new_job_state job_id n cb]"
    and q: "\<And>j. queued p' j = queued p j + (if j = length (jobs p) then k else 0)"
    and rest: "threads p' = threads p" "stop p' = stop p" "inflight_jobs p' = inflight_jobs p + 1"
    using s by (auto simp: submitted_def)
  have r: "running p' = running p" "reporting p' = reporting p"
    by (simp_all add: fun_eq_iff running_def reporting_def rest)
  have known: "known_jobs ls p" and ok: "\<And>j. j < length (jobs p) \<Longrightarrow> job_ok ls p j"
    using inv by (simp_all add: pool_inv_def)
  let ?j = "length (jobs p)"
  have fresh: "queued p ?j = 0" "running p ?j = 0" "reporting p ?j = 0" "\<forall>l \<in> set ls. label_job l \<noteq> Some ?j"
    using known by (auto simp: known_jobs_def)
  have none: "occurrences P ls = 0" if "\<And>l. P l \<Longrightarrow> label_job l = Some ?j" for P
    using fresh(4) that by (auto simp: occurrences_def filter_empty_conv)
  have occ: "occurrences (is_run ?j) ls = 0" "occurrences (is_report ?j) ls = 0" "occurrences (is_callback ?j) ls = 0"
    by (rule none, simp add: is_run_def is_report_def is_callback_def split: pool_label.splits)+
  have "Reporting ?j s \<notin> snd ` set (threads p)" for s
  proof
    assume "Reporting ?j s \<in> snd ` set (threads p)"
    then have "Some ?j \<in> set (map (reporting_job \<circ> snd) (threads p))" by force
    with fresh(3) show False by (simp add: reporting_def count_list_0_iff)
  qed
  moreover have "TaskRan ?j b \<notin> set ls" "CallbackRan ?j a b \<notin> set ls" "Reported ?j b \<notin> set ls" for a b
    using fresh(4) by force+
  ultimately have new: "job_ok (Submitted n k # ls) p' ?j"
    using n fresh occ by (simp add: job_ok_def jobs new_job_state_def q r rest(1))
  have "job_ok (Submitted n k # ls) p' j" if "j < length (jobs p)" for j
    using that by (intro job_ok_frame [OF ok [OF that]]) (simp_all add: jobs nth_append q r rest(1))
  with new have "\<forall>j < length (jobs p'). job_ok (Submitted n k # ls) p' j"
    by (simp add: jobs less_Suc_eq)
  moreover have "known_jobs (Submitted n k # ls) p'"
    using known by (auto simp: known_jobs_def jobs q r less_Suc_eq split: if_splits)
  moreover have "unreported (Submitted n k # ls) p' = unreported ls p @ [?j]"
    by (simp add: unreported_def jobs occ(2))
  ultimately show ?thesis using inv by (simp add: pool_inv_def rest)
qed

section \<open>Every step keeps the invariant\<close>

lemma set_thread_fields [simp]:
  "jobs (set_thread i t p) = jobs p" "stop (set_thread i t p) = stop p"
  "inflight_jobs (set_thread i t p) = inflight_jobs p" "length (threads (set_thread i t p)) = length (threads p)"
  "load_q (set_thread i t p) = load_q p" "store_q (set_thread i t p) = store_q p"
  "finished_q (set_thread i t p) = finished_q p"
  by (simp_all add: set_thread_def)

lemma set_thread_reporting:
  "Reporting j s \<in> snd ` set (threads (set_thread i t p)) \<Longrightarrow>
     t = Reporting j s \<or> Reporting j s \<in> snd ` set (threads p)"
  by (auto simp: set_thread_def dest!: set_update_subset_insert [THEN subsetD])

lemma reporting_mem: "Reporting j s \<in> snd ` set (threads p) \<Longrightarrow> 0 < reporting p j"
  by (force simp: reporting_def count_pos_iff)

lemma thread_mem: "i < length (threads p) \<Longrightarrow> snd (threads p ! i) \<in> snd ` set (threads p)"
  by simp

lemma running_pos: "i < length (threads p) \<Longrightarrow> snd (threads p ! i) = Running task j \<Longrightarrow> 0 < running p j"
  by (force simp: running_def count_pos_iff dest: nth_mem)

lemma pop_task_Some:
  assumes "pop_task prio p = Some ((task, j), p')"
  shows "queued p' j' + (if j' = j then 1 else 0) = queued p j'"
    and "jobs p' = jobs p" "threads p' = threads p" "stop p' = stop p" "inflight_jobs p' = inflight_jobs p"
  using assms by (auto simp: pop_task_def queued_def split: list.splits if_splits)

lemma pool_invD:
  assumes "pool_inv ls p"
  shows "known_jobs ls p" "j < length (jobs p) \<Longrightarrow> job_ok ls p j"
    "ShutDown \<notin> set ls \<Longrightarrow> \<not> stop p \<and> inflight_jobs p = int (length (unreported ls p))"
    "ShutDown \<in> set ls \<Longrightarrow> stop p"
  using assms by (simp_all add: pool_inv_def)

text \<open>A step that touches at most the job \<open>j\<close>.\<close>

lemma pool_inv_step:
  assumes inv: "pool_inv ls p" and j: "j < length (jobs p)"
    and len: "length (jobs p') = length (jobs p)" and ok: "job_ok (l @ ls) p' j"
    and same: "\<And>j'. j' \<noteq> j \<Longrightarrow> jobs p' ! j' = jobs p ! j'" "\<And>j'. j' \<noteq> j \<Longrightarrow> queued p' j' = queued p j'"
      "\<And>j'. j' \<noteq> j \<Longrightarrow> running p' j' = running p j'" "\<And>j'. j' \<noteq> j \<Longrightarrow> reporting p' j' = reporting p j'"
      "\<And>j' s. j' \<noteq> j \<Longrightarrow> Reporting j' s \<in> snd ` set (threads p') \<Longrightarrow> Reporting j' s \<in> snd ` set (threads p)"
    and l: "\<And>j'. j' \<noteq> j \<Longrightarrow> of_job j' l = []" "ShutDown \<notin> set l"
    and stop: "stop p' = stop p"
    and inflight: "ShutDown \<notin> set ls \<Longrightarrow> inflight_jobs p' + (if occurrences (is_report j) (l @ ls) = 0 then 0 else 1)
        = inflight_jobs p + (if occurrences (is_report j) ls = 0 then 0 else 1)"
  shows "pool_inv (l @ ls) p'"
proof -
  have other: "occurrences (is_report j') (l @ ls) = occurrences (is_report j') ls" if "j' \<noteq> j" for j'
    using of_job_occurrences(2) [of j' "l @ ls"] of_job_occurrences(2) [of j' ls] l(1) [OF that] by simp
  have lab: "j' = j \<or> lb \<notin> set l" if "label_job lb = Some j'" for j' lb
    using l(1) [of j'] that by (auto simp: of_job_def filter_empty_conv)
  have "known_jobs (l @ ls) p'"
    unfolding known_jobs_def
  proof (intro allI impI)
    fix j' assume a: "0 < queued p' j' \<or> 0 < running p' j' \<or> 0 < reporting p' j' \<or>
      (\<exists>lb \<in> set (l @ ls). label_job lb = Some j')"
    show "j' < length (jobs p')"
    proof (cases "j' = j")
      case False
      then have "0 < queued p j' \<or> 0 < running p j' \<or> 0 < reporting p j' \<or> (\<exists>lb \<in> set ls. label_job lb = Some j')"
        using a same(2-4) [OF False] lab [of _ j'] False by (auto simp: ball_Un)
      then show ?thesis using pool_invD(1) [OF inv] len unfolding known_jobs_def by metis
    qed (use j len in simp)
  qed
  moreover have "job_ok (l @ ls) p' j'" if "j' < length (jobs p')" for j'
  proof (cases "j' = j")
    case False
    show ?thesis
      by (rule job_ok_frame [OF pool_invD(2) [OF inv]]) (use False that len l same in \<open>simp_all\<close>)
  qed (use ok in simp)
  moreover have "int (length (unreported (l @ ls) p')) + (if occurrences (is_report j) (l @ ls) = 0 then 0 else 1)
      = int (length (unreported ls p)) + (if occurrences (is_report j) ls = 0 then 0 else 1)"
  proof -
    have split: "[0..<length (jobs p)] = [0..<j] @ j # [Suc j..<length (jobs p)]"
      using upt_add_eq_append [of 0 j "length (jobs p) - j"] upt_conv_Cons [OF j] j by simp
    have same_part: "filter (\<lambda>j'. occurrences (is_report j') (l @ ls) = 0) xs =
        filter (\<lambda>j'. occurrences (is_report j') ls = 0) xs" if "j \<notin> set xs" for xs
      using that by (intro filter_cong refl) (metis other)
    show ?thesis
      by (simp add: unreported_def len split same_part)
  qed
  ultimately show ?thesis
    using pool_invD(3,4) [OF inv] inflight l(2) stop by (auto simp: pool_inv_def)
qed

lemma worker_take_inv:
  assumes inv: "pool_inv ls p" and step: "worker_take i p = Some p'"
  shows "pool_inv ls p'"
proof -
  from step have i: "i < length (threads p)" "snd (threads p ! i) = Idle"
    by (auto simp: worker_take_def split: if_splits)
  show ?thesis
  proof (cases "stop p")
    case True
    with step i have p': "p' = set_thread i Exited p" by (simp add: worker_take_def)
    then have c: "running p' = running p" "reporting p' = reporting p"
      using count_set_thread [OF i(1), of Exited] i(2) by (simp_all add: fun_eq_iff)
    then have "known_jobs ls p'" using pool_invD(1) [OF inv] p' by (simp add: known_jobs_def)
    moreover have "job_ok ls p' j" if "j < length (jobs p')" for j
      using that c p' set_thread_reporting [of j _ i Exited p]
      by (intro job_ok_frame [OF pool_invD(2) [OF inv]]) auto
    ultimately show ?thesis using inv p' by (simp add: pool_inv_def unreported_def)
  next
    case False
    with step i obtain task j p1 where pop: "pop_task (fst (threads p ! i)) p = Some ((task, j), p1)"
      and p': "p' = set_thread i (Running task j) p1"
      by (auto simp: worker_take_def split: option.splits)
    note p1 = pop_task_Some [OF pop]
    have i1: "i < length (threads p1)" "snd (threads p1 ! i) = Idle" using i p1(3) by simp_all
    have r1: "running p1 = running p" "reporting p1 = reporting p"
      by (simp_all add: fun_eq_iff running_def reporting_def p1(3))
    have c: "queued p' j' + (if j' = j then 1 else 0) = queued p j'"
      "running p' j' = running p j' + (if j' = j then 1 else 0)" "reporting p' j' = reporting p j'" for j'
      using count_set_thread [OF i1(1), of "Running task j" j'] i1(2) p1(1) [of j'] r1 by (auto simp: p')
    have j: "j < length (jobs p)"
      using c(1) [of j] pool_invD(1) [OF inv] by (auto simp: known_jobs_def)
    have rep: "Reporting j' s \<in> snd ` set (threads p)" if "Reporting j' s \<in> snd ` set (threads p')" for j' s
      using set_thread_reporting [OF that [unfolded p']] p1(3) by simp
    have "job_ok ls p' j"
      using pool_invD(2) [OF inv j] c [of j] rep unfolding job_ok_def by (auto simp: p' p1(2))
    moreover have "queued p' j' = queued p j'" if "j' \<noteq> j" for j'
      using c(1) [of j'] that by simp
    ultimately have "pool_inv ([] @ ls) p'"
      by (intro pool_inv_step [OF inv j]) (use c(2,3) rep in \<open>simp_all, simp_all add: p' p1\<close>)
    then show ?thesis by simp
  qed
qed

lemma task_done_facts:
  assumes "task_done ok raises js = (js', is_completed, success, call)"
  shows "n_tasks js' = n_tasks js" "on_complete js' = on_complete js" "completed js' = completed js + 1"
    and "js_success js' \<longleftrightarrow> js_success js \<and> ok" "is_completed \<longleftrightarrow> completed js + 1 = n_tasks js"
    and "call = (if is_completed \<and> on_complete js \<noteq> None then Some (js_success js') else None)"
    and "success \<longleftrightarrow> js_success js' \<and> \<not> (call \<noteq> None \<and> raises)"
  using assms by (auto simp: task_done_def Let_def split: if_splits)

lemma done_labels_facts:
  "of_job j' (done_labels j ok raises call) = (if j' = j then done_labels j ok raises call else [])"
  "ShutDown \<notin> set (done_labels j ok raises call)"
  "occurrences (is_run j) (done_labels j ok raises call @ ls) = Suc (occurrences (is_run j) ls)"
  "occurrences (is_report j') (done_labels j ok raises call @ ls) = occurrences (is_report j') ls"
  "occurrences (is_callback j) (done_labels j ok raises call @ ls) =
     occurrences (is_callback j) ls + (if call = None then 0 else 1)"
  "TaskRan j False \<in> set (done_labels j ok raises call @ ls) \<longleftrightarrow> \<not> ok \<or> TaskRan j False \<in> set ls"
  "CallbackRan j a r \<in> set (done_labels j ok raises call @ ls) \<longleftrightarrow>
     call = Some a \<and> r = raises \<or> CallbackRan j a r \<in> set ls"
  "Reported j s \<in> set (done_labels j ok raises call @ ls) \<longleftrightarrow> Reported j s \<in> set ls"
  by (auto simp: done_labels_def split: option.splits)

lemma no_callback: "occurrences (is_callback j) ls = 0 \<Longrightarrow> CallbackRan j a r \<notin> set ls"
  by (auto simp: occurrences_def filter_empty_conv)

lemma no_report: "occurrences (is_report j) ls = 0 \<Longrightarrow> Reported j s \<notin> set ls"
  by (auto simp: occurrences_def filter_empty_conv)

lemma running_job:
  assumes "job_ok ls p j" "0 < running p j"
  shows "completed (jobs p ! j) < n_tasks (jobs p ! j)" "reporting p j = 0" "occurrences (is_report j) ls = 0"
    "occurrences (is_callback j) ls = 0" "Reported j s \<notin> set ls" "Reporting j s \<notin> snd ` set (threads p)"
    "CallbackRan j arg r \<notin> set ls"
proof -
  note ok = job_okD [OF assms(1)]
  show lt: "completed (jobs p ! j) < n_tasks (jobs p ! j)" using ok(4) assms(2) by linarith
  then show none: "reporting p j = 0" "occurrences (is_report j) ls = 0" "occurrences (is_callback j) ls = 0"
    using ok(6,7) by simp_all
  show "Reported j s \<notin> set ls" "CallbackRan j arg r \<notin> set ls" by (rule no_report [OF none(2)], rule no_callback [OF none(3)])
  show "Reporting j s \<notin> snd ` set (threads p)" using reporting_mem none(1) by fastforce
qed

text \<open>The job of the task that a worker has run.\<close>

lemma task_done_job_ok:
  assumes jok: "job_ok ls p j" and run: "0 < running p j"
    and td: "task_done ok raises (jobs p ! j) = (js, is_completed, success, call)"
    and js: "jobs p' ! j = js" and c: "running p' j + 1 = running p j" "queued p' j = queued p j"
      "reporting p' j = reporting p j + (if is_completed then 1 else 0)"
    and rep: "\<And>s. Reporting j s \<in> snd ` set (threads p') \<Longrightarrow> is_completed \<and> s = success \<or> Reporting j s \<in> snd ` set (threads p)"
  shows "job_ok (done_labels j ok raises call @ ls) p' j"
  unfolding job_ok_def outcome_def done_labels_facts js if_P [OF refl]
proof (intro conjI allI impI)
  note td = task_done_facts [OF td] and ok = job_okD [OF jok] and none = running_job [OF jok run]
  show "0 < n_tasks js" using ok(1) td(1) by simp
  show "completed js = Suc (occurrences (is_run j) ls)" using ok(2) td(3) by simp
  show "js_success js = (\<not> (\<not> ok \<or> TaskRan j False \<in> set ls))" using ok(3) td(4) by blast
  show "completed js + queued p' j + running p' j \<le> n_tasks js" using ok(4) c td(1,3) by simp
  show "completed js + queued p' j + running p' j = n_tasks js"
    if "ShutDown \<notin> set (done_labels j ok raises call @ ls)"
    using ok(5) c td(1,3) that by simp
  show "reporting p' j + occurrences (is_report j) ls = (if completed js = n_tasks js then 1 else 0)"
    using c(3) none td(1,3,5) by simp
  show "occurrences (is_callback j) ls + (if call = None then 0 else 1) =
      (if completed js = n_tasks js \<and> on_complete js \<noteq> None then 1 else 0)"
    using none(1,4) td(1,2,3,5,6) by simp
  show "arg = (\<not> (\<not> ok \<or> TaskRan j False \<in> set ls))"
    if "call = Some arg \<and> r = raises \<or> CallbackRan j arg r \<in> set ls" for arg r
    using that none(7) td(4,6) ok(3) by (auto split: if_splits)
  show "s = ((\<not> (\<not> ok \<or> TaskRan j False \<in> set ls)) \<and> (\<forall>arg. \<not> (call = Some arg \<and> True = raises \<or> CallbackRan j arg True \<in> set ls)))"
    if "Reported j s \<in> set ls \<or> Reporting j s \<in> snd ` set (threads p')" for s
  proof -
    from that none(5,6) rep have "s = success" by blast
    then show ?thesis using ok(3) td(4,7) none(7) by auto
  qed
qed

lemma worker_done_inv:
  assumes inv: "pool_inv ls p" and step: "worker_done i ok raises p = Some (j, call, p')"
  shows "pool_inv (done_labels j ok raises call @ ls) p'"
proof -
  from step obtain task where i: "i < length (threads p)" "snd (threads p ! i) = Running task j"
    by (auto simp: worker_done_def case_prod_beta Let_def split: if_splits thread_state.splits)
  obtain js is_completed success call' where td: "task_done ok raises (jobs p ! j) = (js, is_completed, success, call')"
    by (metis prod_cases4)
  let ?t = "if is_completed then Reporting j success else Idle" and ?p = "p\<lparr>jobs := (jobs p)[j := js]\<rparr>"
  have p': "p' = set_thread i ?t ?p" and call: "call' = call"
    using step i td by (auto simp: worker_done_def)
  have run: "0 < running p j" by (rule running_pos [OF i])
  then have j: "j < length (jobs p)" using pool_invD(1) [OF inv] by (auto simp: known_jobs_def)
  have i': "i < length (threads ?p)" "snd (threads ?p ! i) = Running task j" using i by simp_all
  have r: "running ?p = running p" "reporting ?p = reporting p" by (simp_all add: fun_eq_iff running_def reporting_def)
  have c: "running p' j' + (if j' = j then 1 else 0) = running p j'"
    "reporting p' j' = reporting p j' + (if j' = j \<and> is_completed then 1 else 0)" "queued p' j' = queued p j'" for j'
    using count_set_thread [OF i'(1), of ?t j'] i'(2) r by (auto simp: p')
  have rep: "j' = j \<and> is_completed \<and> s = success \<or> Reporting j' s \<in> snd ` set (threads p)"
    if "Reporting j' s \<in> snd ` set (threads p')" for j' s
    using set_thread_reporting [OF that [unfolded p']] by (auto split: if_splits)
  have "job_ok (done_labels j ok raises call @ ls) p' j"
    by (rule task_done_job_ok [OF pool_invD(2) [OF inv j] run td [unfolded call]])
      (use c [of j] rep [of j] j p' in auto)
  then show ?thesis
  proof (rule pool_inv_step [OF inv j, rotated])
    show "Reporting j' s \<in> snd ` set (threads p)"
      if "j' \<noteq> j" "Reporting j' s \<in> snd ` set (threads p')" for j' s
      using rep [OF that(2)] that(1) by blast
    show "running p' j' = running p j'" "reporting p' j' = reporting p j'" "queued p' j' = queued p j'"
      if "j' \<noteq> j" for j'
      using c [of j'] that by simp_all
  qed (simp_all add: p' done_labels_facts del: of_job_simps)
qed

lemma worker_report_inv:
  assumes inv: "pool_inv ls p" and step: "worker_report i p = Some (j, success, p')"
  shows "pool_inv (Reported j success # ls) p'"
proof -
  from step have i: "i < length (threads p)" "snd (threads p ! i) = Reporting j success"
    by (auto simp: worker_report_def split: if_splits thread_state.splits)
  let ?p = "p\<lparr>finished_q := finished_q p @ [(js_job_id (jobs p ! j), success)],
                 inflight_jobs := inflight_jobs p - 1\<rparr>"
  have p': "p' = set_thread i Idle ?p" using step i by (simp add: worker_report_def)
  have i': "i < length (threads ?p)" "snd (threads ?p ! i) = Reporting j success" using i by simp_all
  have r: "running ?p = running p" "reporting ?p = reporting p" by (simp_all add: fun_eq_iff running_def reporting_def)
  have c: "running p' j' = running p j'" "reporting p' j' + (if j' = j then 1 else 0) = reporting p j'"
    "queued p' j' = queued p j'" for j'
    using count_set_thread [OF i'(1), of Idle j'] i'(2) r by (auto simp: p' queued_def)
  have mem: "Reporting j success \<in> snd ` set (threads p)" using i by (metis thread_mem)
  have j: "j < length (jobs p)"
    using reporting_mem [OF mem] pool_invD(1) [OF inv] by (auto simp: known_jobs_def)
  have rep: "Reporting j' s \<in> snd ` set (threads p)" if "Reporting j' s \<in> snd ` set (threads p')" for j' s
    using set_thread_reporting [OF that [unfolded p']] by simp
  note ok = job_okD [OF pool_invD(2) [OF inv j]]
  have none: "occurrences (is_report j) ls = 0" "reporting p j = 1"
    using ok(6) reporting_mem [OF mem] by (simp_all split: if_splits)
  have "job_ok ([Reported j success] @ ls) p' j"
    unfolding job_ok_def
  proof (intro conjI allI impI)
    show "reporting p' j + occurrences (is_report j) ([Reported j success] @ ls) =
        (if completed (jobs p' ! j) = n_tasks (jobs p' ! j) then 1 else 0)"
      using ok(6) c(2) [of j] none by (simp add: p')
    show "s = outcome ([Reported j success] @ ls) j"
      if "Reported j s \<in> set ([Reported j success] @ ls) \<or> Reporting j s \<in> snd ` set (threads p')" for s
      using that rep ok(9) [of s] ok(9) [of success] mem by (auto simp: outcome_def)
  qed (use ok(1-5,7,8) c [of j] in \<open>auto simp: p'\<close>)
  then have "pool_inv ([Reported j success] @ ls) p'"
  proof (rule pool_inv_step [OF inv j, rotated])
    show "Reporting j' s \<in> snd ` set (threads p)"
      if "j' \<noteq> j" "Reporting j' s \<in> snd ` set (threads p')" for j' s
      using rep [OF that(2)] .
    show "running p' j' = running p j'" "reporting p' j' = reporting p j'" "queued p' j' = queued p j'"
      if "j' \<noteq> j" for j'
      using c [of j'] that by simp_all
    show "inflight_jobs p' + (if occurrences (is_report j) ([Reported j success] @ ls) = 0 then 0 else 1)
        = inflight_jobs p + (if occurrences (is_report j) ls = 0 then 0 else 1)"
      using none by (simp add: p')
  qed (simp_all add: p')
  then show ?thesis by simp
qed

lemma collect_inv:
  assumes "pool_inv ls p"
  shows "pool_inv (Collected rs # ls) (snd (get_finished p))"
proof -
  let ?p = "snd (get_finished p)"
  have c: "queued ?p = queued p" "running ?p = running p" "reporting ?p = reporting p" "jobs ?p = jobs p"
    "threads ?p = threads p"
    by (simp_all add: fun_eq_iff queued_def running_def reporting_def get_finished_def)
  have "job_ok (Collected rs # ls) ?p j" if "j < length (jobs p)" for j
    by (rule job_ok_frame [OF pool_invD(2) [OF assms that]]) (simp_all add: c)
  with assms show ?thesis
    by (auto simp: pool_inv_def known_jobs_def c unreported_def) (simp_all add: get_finished_def)
qed

lemma shutdown_inv:
  assumes "pool_inv ls p"
  shows "pool_inv (ShutDown # ls) (pool_shutdown p)"
proof -
  let ?p = "pool_shutdown p"
  have c: "queued ?p = (\<lambda>_. 0)" "running ?p = running p" "reporting ?p = reporting p" "jobs ?p = jobs p"
    "threads ?p = threads p" "stop ?p"
    by (simp_all add: fun_eq_iff queued_def running_def reporting_def pool_shutdown_def)
  have "job_ok (ShutDown # ls) ?p j" if "j < length (jobs p)" for j
    unfolding job_ok_def c outcome_def
    using job_okD [OF pool_invD(2) [OF assms that]] by (auto simp: outcome_def)
  with assms show ?thesis by (auto simp: pool_inv_def known_jobs_def c)
qed

lemma pool_trace_inv: "pool_trace r w ls p \<Longrightarrow> sane ls \<Longrightarrow> pool_inv ls p"
proof (induction rule: pool_trace.induct)
  case (Load ls p n tasks job_id)
  then show ?case by (auto intro: submitted_inv [OF _ enqueue_submitted(1)])
next
  case (Store ls p n tasks job_id cb)
  then show ?case by (auto intro: submitted_inv [OF _ enqueue_submitted(2)])
qed (auto simp: make_pool_inv collect_inv shutdown_inv intro: worker_take_inv worker_done_inv worker_report_inv)

end
