(* ===== verification/Thread_Pool_Policy.thy ===== *)
theory Thread_Pool_Policy
  imports Thread_Pool_Props
begin

text \<open>
  What the thread pool promises: each job is reported once with the right flag, an idle pool
  has no work left, workers never get stuck, and results are handed out once and in order;
  and two situations in which \<open>wait_idle\<close> does not return.
\<close>

section \<open>Jobs\<close>

text \<open>C13: Whenever a job is reported finished, every one of its tasks has run, exactly once; it
  is reported only once; its success flag is true exactly if no task failed and the
  completion callback did not raise; and the callback was called exactly once, after the
  tasks, with the conjunction of their outcomes.\<close>

theorem job_reported_once:
  assumes t: "pool_trace r w ls p" "sane ls" and rep: "Reported j s \<in> set ls"
  shows "occurrences (is_report j) ls = 1 \<and> occurrences (is_run j) ls = n_tasks (jobs p ! j) \<and>
    (s \<longleftrightarrow> TaskRan j False \<notin> set ls \<and> (\<forall>arg. CallbackRan j arg True \<notin> set ls)) \<and>
    occurrences (is_callback j) ls = (if on_complete (jobs p ! j) = None then 0 else 1) \<and>
    (\<forall>arg c. CallbackRan j arg c \<in> set ls \<longrightarrow> (arg \<longleftrightarrow> TaskRan j False \<notin> set ls))"
proof -
  have inv: "pool_inv ls p" by (rule pool_trace_inv [OF t])
  have "j < length (jobs p)"
    using pool_invD(1) [OF inv] rep unfolding known_jobs_def by (metis label_job.simps(3))
  note ok = job_okD [OF pool_invD(2) [OF inv this]]
  have "0 < occurrences (is_report j) ls"
    using rep no_report [of j ls s] by (cases "occurrences (is_report j) ls") auto
  with ok(6) have n: "completed (jobs p ! j) = n_tasks (jobs p ! j)" "occurrences (is_report j) ls = 1"
    by (auto split: if_splits)
  then show ?thesis
    using ok(2,7) ok(8) ok(9) [of s] rep by (auto simp: outcome_def)
qed

text \<open>A store of two blocks, one of which fails, beside a load, on one thread of each kind.\<close>

definition pool_p1 :: "(nat, nat) pool" where
  "pool_p1 = enqueue_load 8 1 [30] (enqueue_store 7 2 [10, 20] (Some 5) (make_pool 1 1))"

lemma pool_p1_trace: "pool_trace 1 1 [Submitted 1 1, Submitted 2 2] pool_p1"
proof -
  have t: "pool_trace 1 1 (Submitted 1 (length [30::nat]) # Submitted 2 (length [10::nat, 20]) # []) pool_p1"
    unfolding pool_p1_def by (intro pool_trace.intros)
  have n: "length [30::nat] = 1" "length [10::nat, 20] = 2" by simp_all
  show ?thesis using t unfolding n .
qed

text \<open>A whole turn of worker \<open>i\<close>: take a task, run it, report the job if it is completed.\<close>

definition worker_turn :: "nat \<Rightarrow> bool \<Rightarrow> bool \<Rightarrow> pool_label list \<times> ('a, 'c) pool \<Rightarrow> pool_label list \<times> ('a, 'c) pool" where
  "worker_turn i ok raises lp =
     (case worker_take i (snd lp) of
        None \<Rightarrow> lp
      | Some p1 \<Rightarrow>
          (case worker_done i ok raises p1 of
             None \<Rightarrow> (fst lp, p1)
           | Some (j, call, p2) \<Rightarrow>
               (case worker_report i p2 of
                  None \<Rightarrow> (done_labels j ok raises call @ fst lp, p2)
                | Some (j', s, p3) \<Rightarrow> (Reported j' s # done_labels j ok raises call @ fst lp, p3))))"

lemma worker_turn_trace:
  "pool_trace r w (fst lp) (snd lp) \<Longrightarrow>
     pool_trace r w (fst (worker_turn i ok raises lp)) (snd (worker_turn i ok raises lp))"
  by (auto simp: worker_turn_def split: option.splits intro: pool_trace.intros)

definition pool_turns :: "pool_label list \<times> (nat, nat) pool" where
  "pool_turns = worker_turn 1 False False (worker_turn 0 True False (worker_turn 1 True False
     ([Submitted 1 1, Submitted 2 2], pool_p1)))"

definition pool_labels :: "pool_label list" where
  "pool_labels = [Reported 0 False, CallbackRan 0 False False, TaskRan 0 False, Reported 1 True, TaskRan 1 True,
     TaskRan 0 True, Submitted 1 1, Submitted 2 2]"

definition pool_p2 :: "(nat, nat) pool" where
  "pool_p2 = snd pool_turns"

lemma pool_p2_trace: "pool_trace 1 1 pool_labels pool_p2"
proof -
  have "pool_trace 1 1 (fst pool_turns) (snd pool_turns)"
    unfolding pool_turns_def by (intro worker_turn_trace) (simp only: fst_conv snd_conv pool_p1_trace)
  moreover have "fst pool_turns = pool_labels" by code_simp
  ultimately show ?thesis by (simp add: pool_p2_def)
qed

lemma pool_labels_sane: "sane pool_labels"
  by (auto simp: sane_def pool_labels_def)

theorem job_reported_once_witness:
  "occurrences (is_report 0) pool_labels = 1 \<and> \<not> False \<and>
   occurrences (is_run 0) pool_labels = n_tasks (jobs pool_p2 ! 0)"
proof -
  have "Reported 0 False \<in> set pool_labels" by (simp add: pool_labels_def)
  from job_reported_once [OF pool_p2_trace pool_labels_sane this] show ?thesis by blast
qed

section \<open>An idle pool\<close>

lemma outstanding_job:
  assumes "pool_inv ls p" "ShutDown \<notin> set ls" "wait_idle_returns p" "j < length (jobs p)"
  shows "occurrences (is_report j) ls = 1" "queued p j = 0" "running p j = 0" "reporting p j = 0"
    "occurrences (is_run j) ls = n_tasks (jobs p ! j)"
proof -
  have "unreported ls p = []"
    using pool_invD(3) [OF assms(1,2)] assms(3) by (simp add: wait_idle_returns_def)
  then have "occurrences (is_report j) ls \<noteq> 0"
    using assms(4) by (auto simp: unreported_def filter_empty_conv)
  then show "occurrences (is_report j) ls = 1" "queued p j = 0" "running p j = 0" "reporting p j = 0"
    "occurrences (is_run j) ls = n_tasks (jobs p ! j)"
    using job_okD(2,4,6) [OF pool_invD(2) [OF assms(1,4)]] by (auto split: if_splits)
qed

text \<open>What \<open>wait_idle\<close> promises holds: when it returns (and the pool was not shut down), both
  queues are empty, no thread runs a task or has a job to report, and every submitted job has
  run all its tasks and has been reported exactly once.\<close>

theorem wait_idle_sound:
  assumes t: "pool_trace r w ls p" "sane ls" "ShutDown \<notin> set ls" and idle: "wait_idle_returns p"
  shows "load_q p = [] \<and> store_q p = [] \<and> (\<forall>b th. (b, th) \<in> set (threads p) \<longrightarrow> th = Idle \<or> th = Exited) \<and>
    (\<forall>j < length (jobs p). occurrences (is_report j) ls = 1 \<and> occurrences (is_run j) ls = n_tasks (jobs p ! j))"
proof -
  have inv: "pool_inv ls p" by (rule pool_trace_inv [OF t(1,2)])
  note job = outstanding_job [OF inv t(3) idle]
  have none: "queued p j = 0" "running p j = 0" "reporting p j = 0" for j
    using pool_invD(1) [OF inv] job(2-4) [of j] unfolding known_jobs_def by fastforce+
  have "load_q p = []"
    using none(1) [of "snd (hd (load_q p))"] by (cases "load_q p") (auto simp: queued_def)
  moreover have "store_q p = []"
    using none(1) [of "snd (hd (store_q p))"] by (cases "store_q p") (auto simp: queued_def)
  moreover have "th = Idle \<or> th = Exited" if "(b, th) \<in> set (threads p)" for b th
  proof (cases th)
    case (Running task j)
    with that none(2) [of j] show ?thesis by (force simp: running_def count_list_0_iff)
  next
    case (Reporting j s)
    with that none(3) [of j] show ?thesis by (force simp: reporting_def count_list_0_iff)
  qed simp_all
  ultimately show ?thesis using job(1,5) by blast
qed

theorem wait_idle_sound_witness:
  "wait_idle_returns pool_p2 \<and> load_q pool_p2 = [] \<and> store_q pool_p2 = []"
proof -
  have "ShutDown \<notin> set pool_labels" by (simp add: pool_labels_def)
  moreover have "wait_idle_returns pool_p2" by code_simp
  ultimately show ?thesis using wait_idle_sound [OF pool_p2_trace pool_labels_sane] by blast
qed

section \<open>Progress\<close>

text \<open>A step of some worker, whatever the outcome of the task and the callback.\<close>

inductive worker_step :: "('a, 'c) pool \<Rightarrow> ('a, 'c) pool \<Rightarrow> bool" where
  StepTake: "worker_take i p = Some p' \<Longrightarrow> worker_step p p'"
| StepDone: "worker_done i ok raises p = Some (j, call, p') \<Longrightarrow> worker_step p p'"
| StepReport: "worker_report i p = Some (j, success, p') \<Longrightarrow> worker_step p p'"

inductive_cases worker_stepE: "worker_step p p'"

fun thread_weight :: "'a thread_state \<Rightarrow> nat" where
  "thread_weight Exited = 0"
| "thread_weight Idle = 1"
| "thread_weight (Reporting _ _) = 2"
| "thread_weight (Running _ _) = 3"

definition pool_work :: "('a, 'c) pool \<Rightarrow> nat" where
  "pool_work p = 3 * (length (load_q p) + length (store_q p)) + sum_list (map (thread_weight \<circ> snd) (threads p))"

lemma pool_work_set_thread:
  assumes "i < length (threads p)"
  shows "pool_work (set_thread i t p) + thread_weight (snd (threads p ! i)) = pool_work p + thread_weight t"
proof -
  have "sum_list (map f (xs[i := x])) + f (xs ! i) = sum_list (map f xs) + f x"
    if "i < length xs" for f :: "bool \<times> 'a thread_state \<Rightarrow> nat" and xs x
    using that by (induction xs arbitrary: i) (auto split: nat.splits)
  from this [OF assms, of "thread_weight \<circ> snd"] show ?thesis
    by (simp add: pool_work_def set_thread_def)
qed

lemma worker_step_work:
  assumes "worker_step p p'"
  shows "pool_work p' < pool_work p"
  using assms
proof cases
  case (StepTake i)
  then have i: "i < length (threads p)" "snd (threads p ! i) = Idle" by (auto simp: worker_take_def split: if_splits)
  show ?thesis
  proof (cases "stop p")
    case True
    with StepTake i pool_work_set_thread [OF i(1), of Exited] show ?thesis by (simp add: worker_take_def)
  next
    case False
    with StepTake i obtain task j p1 where pop: "pop_task (fst (threads p ! i)) p = Some ((task, j), p1)"
      and p': "p' = set_thread i (Running task j) p1"
      by (auto simp: worker_take_def split: option.splits)
    have "threads p1 = threads p" "pool_work p1 + 3 = pool_work p"
      using pop by (auto simp: pop_task_def pool_work_def split: list.splits if_splits)
    with i pool_work_set_thread [of i p1 "Running task j"] show ?thesis by (simp add: p')
  qed
next
  case (StepDone i ok raises j call)
  then obtain task js t where i: "i < length (threads p)" "snd (threads p ! i) = Running task j"
    and p': "p' = set_thread i t (p\<lparr>jobs := js\<rparr>)" "thread_weight t \<le> 2"
    by (auto simp: worker_done_def case_prod_beta Let_def split: if_splits thread_state.splits)
  have "pool_work (p\<lparr>jobs := js\<rparr>) = pool_work p" by (simp add: pool_work_def)
  with i p'(2) pool_work_set_thread [of i "p\<lparr>jobs := js\<rparr>" t] show ?thesis by (simp add: p'(1))
next
  case (StepReport i j success)
  then obtain fq n where i: "i < length (threads p)" "snd (threads p ! i) = Reporting j success"
    and p': "p' = set_thread i Idle (p\<lparr>finished_q := fq, inflight_jobs := n\<rparr>)"
    by (auto simp: worker_report_def split: if_splits thread_state.splits)
  have "pool_work (p\<lparr>finished_q := fq, inflight_jobs := n\<rparr>) = pool_work p" by (simp add: pool_work_def)
  with i pool_work_set_thread [of i "p\<lparr>finished_q := fq, inflight_jobs := n\<rparr>" Idle] show ?thesis by (simp add: p')
qed

lemma thread_can_step:
  assumes i: "i < length (threads p)"
    and t: "snd (threads p ! i) \<noteq> Exited" "snd (threads p ! i) = Idle \<longrightarrow> stop p \<or> load_q p \<noteq> [] \<or> store_q p \<noteq> []"
  shows "\<exists>p'. worker_step p p'"
proof (cases "snd (threads p ! i)")
  case Idle
  show ?thesis
  proof (cases "stop p")
    case False
    then have "pop_task (fst (threads p ! i)) p \<noteq> None"
      using t(2) Idle by (auto simp: pop_task_def split: list.splits)
    with False i Idle have "worker_take i p \<noteq> None" by (auto simp: worker_take_def)
    then show ?thesis by (blast intro: StepTake)
  next
    case True
    with i Idle have "worker_take i p = Some (set_thread i Exited p)" by (simp add: worker_take_def)
    then have "worker_step p (set_thread i Exited p)" by (rule StepTake)
    then show ?thesis by blast
  qed
next
  case (Running task j)
  with i have "worker_done i True False p \<noteq> None" by (simp add: worker_done_def case_prod_beta Let_def)
  then show ?thesis by (auto intro: StepDone)
next
  case (Reporting j s)
  with i have "worker_report i p \<noteq> None" by (simp add: worker_report_def)
  then show ?thesis by (auto intro: StepReport)
qed (use t in simp)

lemma trace_threads: "pool_trace r w ls p \<Longrightarrow> length (threads p) = r + w"
proof (induction rule: pool_trace.induct)
  case (Take ls p i p')
  then show ?case
    by (auto simp: worker_take_def dest!: pop_task_Some(3) split: if_splits option.splits)
qed (auto simp: make_pool_def enqueue_load_def enqueue_store_def get_finished_def pool_shutdown_def
    worker_done_def worker_report_def case_prod_beta Let_def split: if_splits thread_state.splits)

lemma exited_only_after_stop: "pool_trace r w ls p \<Longrightarrow> Exited \<in> snd ` set (threads p) \<Longrightarrow> stop p"
proof (induction rule: pool_trace.induct)
  case (Take ls p i p')
  have ex: "t = Exited \<or> Exited \<in> snd ` set (threads p)"
    if "Exited \<in> snd ` set (threads (set_thread i t p))" for t and p :: "('a, 'b) pool"
    using that by (auto simp: set_thread_def dest!: set_update_subset_insert [THEN subsetD])
  have "\<exists>t p1. p' = set_thread i t p1 \<and> threads p1 = threads p \<and> stop p1 = stop p \<and> (t = Exited \<longrightarrow> stop p)"
    using Take.hyps(2)
    by (fastforce simp: worker_take_def dest: pop_task_Some(3,4) split: if_splits option.splits)
  then obtain t p1 where "p' = set_thread i t p1" "threads p1 = threads p" "stop p1 = stop p" "t = Exited \<longrightarrow> stop p"
    by blast
  then show ?case using Take.IH Take.prems ex [of t p1] by auto
next
  case (Done ls p i ok raises j call p')
  then show ?case
    by (fastforce simp: worker_done_def case_prod_beta Let_def set_thread_def
        dest!: set_update_subset_insert [THEN subsetD] split: if_splits thread_state.splits)
next
  case (Report ls p i j success p')
  then show ?case
    by (fastforce simp: worker_report_def set_thread_def
        dest!: set_update_subset_insert [THEN subsetD] split: if_splits thread_state.splits)
qed (auto simp: make_pool_def enqueue_load_def enqueue_store_def get_finished_def pool_shutdown_def)

text \<open>While a job is in flight, and until the last thread has ended, some worker can move.\<close>

lemma busy_pool_steps:
  assumes t: "pool_trace r w ls p" "sane ls" and threads: "0 < r + w"
    and no: "ShutDown \<notin> set ls" and busy: "\<not> wait_idle_returns p"
  shows "\<exists>p'. worker_step p p'"
proof -
  have inv: "pool_inv ls p" by (rule pool_trace_inv [OF t])
  have "\<not> stop p" "unreported ls p \<noteq> []"
    using pool_invD(3) [OF inv no] busy by (auto simp: wait_idle_returns_def)
  then obtain j where j: "j < length (jobs p)" "occurrences (is_report j) ls = 0"
    by (auto simp: unreported_def filter_empty_conv)
  have "0 < queued p j \<or> 0 < running p j \<or> 0 < reporting p j"
    using job_okD(4-6) [OF pool_invD(2) [OF inv j(1)]] j(2) no by (auto split: if_splits)
  then consider "load_q p \<noteq> [] \<or> store_q p \<noteq> []" | "Some j \<in> set (map (running_job \<circ> snd) (threads p))"
    | "Some j \<in> set (map (reporting_job \<circ> snd) (threads p))"
    by (fastforce simp: queued_def running_def reporting_def count_pos_iff)
  then show ?thesis
  proof cases
    case 1
    have "snd (threads p ! 0) \<in> snd ` set (threads p)" using threads trace_threads [OF t(1)] by (intro thread_mem) simp
    then have "snd (threads p ! 0) \<noteq> Exited"
      using exited_only_after_stop [OF t(1)] \<open>\<not> stop p\<close> by metis
    with 1 threads trace_threads [OF t(1)] show ?thesis by (intro thread_can_step [of 0]) auto
  next
    case 2
    then obtain i where "i < length (threads p)" "running_job (snd (threads p ! i)) = Some j"
      by (auto simp: in_set_conv_nth)
    then show ?thesis by (intro thread_can_step [of i]) auto
  next
    case 3
    then obtain i where "i < length (threads p)" "reporting_job (snd (threads p ! i)) = Some j"
      by (auto simp: in_set_conv_nth)
    then show ?thesis by (intro thread_can_step [of i]) auto
  qed
qed

lemma worker_step_stop:
  assumes "worker_step p p'"
  shows "stop p' = stop p"
  using assms
  by cases (auto simp: worker_take_def worker_done_def worker_report_def pop_task_def set_thread_def case_prod_beta Let_def
    split: if_splits option.splits list.splits thread_state.splits)

lemma trace_stopped: "pool_trace r w ls p \<Longrightarrow> ShutDown \<in> set ls \<Longrightarrow> stop p"
proof (induction rule: pool_trace.induct)
  case (Take ls p i p')
  then show ?case using worker_step_stop [OF StepTake] by blast
next
  case (Done ls p i ok raises j call p')
  then show ?case using worker_step_stop [OF StepDone [OF Done.hyps(2)]] by (auto simp: done_labels_def split: option.splits)
next
  case (Report ls p i j success p')
  then show ?case using worker_step_stop [OF StepReport [OF Report.hyps(2)]] by auto
qed (auto simp: enqueue_load_def enqueue_store_def get_finished_def pool_shutdown_def)

lemma stopped_can_step:
  assumes "stop p" "(b, th) \<in> set (threads p)" "th \<noteq> Exited"
  shows "\<exists>p'. worker_step p p'"
proof -
  from assms(2,3) obtain i where "i < length (threads p)" "snd (threads p ! i) \<noteq> Exited"
    by (metis in_set_conv_nth snd_conv)
  then show ?thesis using assms(1) by (intro thread_can_step [of i]) auto
qed

lemma stopped_pool_steps:
  assumes t: "pool_trace r w ls p"
    and down: "ShutDown \<in> set ls" and alive: "\<exists>b th. (b, th) \<in> set (threads p) \<and> th \<noteq> Exited"
  shows "\<exists>p'. worker_step p p'"
  using alive stopped_can_step [OF trace_stopped [OF t down]] by blast

text \<open>C28: Progress of the pool. Every worker step lowers a bound on the remaining work. After a
  shutdown every thread that has not ended can make a step, so the joins return, whatever
  was submitted. Before a shutdown, in a run in which every submitted job has as many tasks
  as it announced and at least one (\<open>sane\<close>), some worker can make a step as long as a job is
  in flight, so \<open>wait_idle\<close> returns after finitely many steps; a job without tasks is the
  exception that \<open>empty_job_hangs\<close> describes.\<close>

theorem pool_progress:
  assumes t: "pool_trace r w ls p" and threads: "0 < r + w"
  shows "(\<forall>p'. worker_step p p' \<longrightarrow> pool_work p' < pool_work p) \<and>
    (sane ls \<longrightarrow> ShutDown \<notin> set ls \<longrightarrow> \<not> wait_idle_returns p \<longrightarrow> (\<exists>p'. worker_step p p')) \<and>
    (ShutDown \<in> set ls \<longrightarrow> (\<exists>b th. (b, th) \<in> set (threads p) \<and> th \<noteq> Exited) \<longrightarrow> (\<exists>p'. worker_step p p'))"
  using worker_step_work busy_pool_steps [OF t _ threads] stopped_pool_steps [OF t] by blast

theorem pool_progress_witness:
  "\<exists>p'. worker_step pool_p1 p' \<and> pool_work p' < pool_work pool_p1"
proof -
  note t = pool_p1_trace
  have s: "sane [Submitted 1 1, Submitted 2 2]" by (auto simp: sane_def)
  have "\<not> wait_idle_returns pool_p1" by code_simp
  with pool_progress [OF t] s show ?thesis by auto
qed

section \<open>Results\<close>

definition reports_of :: "('a, 'c) pool \<Rightarrow> pool_label \<Rightarrow> (int \<times> bool) list" where
  "reports_of p l = (case l of Reported j s \<Rightarrow> [(js_job_id (jobs p ! j), s)] | _ \<Rightarrow> [])"

definition collected_in :: "pool_label \<Rightarrow> (int \<times> bool) list" where
  "collected_in l = (case l of Collected rs \<Rightarrow> rs | _ \<Rightarrow> [])"

lemma label_results [simp]:
  "collected_in (Collected rs) = rs" "collected_in (Submitted n k) = []" "collected_in (Reported j s) = []"
  "collected_in ShutDown = []" "collected_in (TaskRan j ok) = []" "collected_in (CallbackRan j a c) = []"
  "reports_of p (Reported j s) = [(js_job_id (jobs p ! j), s)]" "reports_of p (Submitted n k) = []"
  "reports_of p (Collected rs) = []" "reports_of p ShutDown = []" "reports_of p (TaskRan j ok) = []"
  "reports_of p (CallbackRan j a c) = []"
  by (simp_all add: collected_in_def reports_of_def)

definition all_reports :: "('a, 'c) pool \<Rightarrow> pool_label list \<Rightarrow> (int \<times> bool) list" where
  "all_reports p ls = concat (map (reports_of p) (rev ls))"

definition all_collected :: "pool_label list \<Rightarrow> (int \<times> bool) list" where
  "all_collected ls = concat (map collected_in (rev ls))"

lemma done_labels_results: "all_reports p (done_labels j ok raises call @ ls) = all_reports p ls"
  "all_collected (done_labels j ok raises call @ ls) = all_collected ls"
  by (cases call; simp add: all_reports_def all_collected_def done_labels_def)+

lemma all_reports_cong:
  assumes "\<And>j s. Reported j s \<in> set ls \<Longrightarrow> js_job_id (jobs p' ! j) = js_job_id (jobs p ! j)"
  shows "all_reports p' ls = all_reports p ls"
proof -
  have "reports_of p' l = reports_of p l" if "l \<in> set ls" for l
    using assms that by (cases l) simp_all
  then show ?thesis unfolding all_reports_def by (intro arg_cong [where f = concat] map_cong) auto
qed

lemma reported_known: "pool_trace r w ls p \<Longrightarrow> sane ls \<Longrightarrow> Reported j s \<in> set ls \<Longrightarrow> j < length (jobs p)"
  using pool_invD(1) [OF pool_trace_inv] unfolding known_jobs_def by (metis label_job.simps(3))

lemma worker_take_results:
  "worker_take i p = Some p' \<Longrightarrow> jobs p' = jobs p \<and> finished_q p' = finished_q p"
  by (auto simp: worker_take_def pop_task_def split: if_splits option.splits list.splits)

lemma worker_done_results:
  "worker_done i ok raises p = Some (j, call, p') \<Longrightarrow>
     js_job_id (jobs p' ! j') = js_job_id (jobs p ! j') \<and> finished_q p' = finished_q p"
  by (cases "j < length (jobs p)"; cases "j' = j")
    (auto simp: worker_done_def task_done_def Let_def list_update_beyond not_less split: if_splits thread_state.splits)

text \<open>Results are handed out once and in order: what the calls of \<open>get_finished\<close> returned so
  far, followed by what still waits in the finished queue, is exactly the sequence of all
  reports, with the job identifiers they were submitted under.\<close>

theorem results_in_order:
  assumes "pool_trace r w ls p" "sane ls"
  shows "all_collected ls @ finished_q p = all_reports p ls"
  using assms
proof (induction rule: pool_trace.induct)
  case Init
  show ?case by (simp add: all_collected_def all_reports_def make_pool_def)
next
  case (Load ls p n tasks job_id)
  have "all_reports (enqueue_load job_id n tasks p) ls = all_reports p ls"
    using reported_known [OF Load.hyps] Load.prems by (intro all_reports_cong) (auto simp: enqueue_load_def nth_append)
  with Load show ?case by (simp add: all_collected_def all_reports_def enqueue_load_def)
next
  case (Store ls p n tasks job_id cb)
  have "all_reports (enqueue_store job_id n tasks cb p) ls = all_reports p ls"
    using reported_known [OF Store.hyps] Store.prems by (intro all_reports_cong) (auto simp: enqueue_store_def nth_append)
  with Store show ?case by (simp add: all_collected_def all_reports_def enqueue_store_def)
next
  case (Take ls p i p')
  then show ?case using worker_take_results [OF Take.hyps(2)] all_reports_cong [of ls p' p] by simp
next
  case (Done ls p i ok raises j call p')
  then show ?case
    using worker_done_results [OF Done.hyps(2)] all_reports_cong [of ls p' p]
    by (simp add: done_labels_results)
next
  case (Report ls p i j success p')
  then have "jobs p' = jobs p" "finished_q p' = finished_q p @ [(js_job_id (jobs p ! j), success)]"
    by (auto simp: worker_report_def split: if_splits thread_state.splits)
  with Report all_reports_cong [of ls p' p] show ?case by (simp add: all_collected_def all_reports_def)
next
  case (Collect ls p)
  then show ?case
    using all_reports_cong [of ls "snd (get_finished p)" p]
    by (simp add: all_collected_def all_reports_def get_finished_def)
next
  case (Shutdown ls p)
  then show ?case
    using all_reports_cong [of ls "pool_shutdown p" p]
    by (simp add: all_collected_def all_reports_def pool_shutdown_def)
qed

theorem results_in_order_witness:
  "all_collected pool_labels @ finished_q pool_p2 = [(8, True), (7, False)]"
proof -
  have "all_reports pool_p2 pool_labels = [(8, True), (7, False)]" by code_simp
  with results_in_order [OF pool_p2_trace pool_labels_sane] show ?thesis by simp
qed

section \<open>When \<open>wait_idle\<close> does not return\<close>

text \<open>C35: A job without tasks is in flight for ever: when it is submitted to an idle pool,
  \<open>wait_idle\<close> does not return, and no step of any worker is possible that could change this.\<close>

theorem empty_job_hangs:
  "\<not> wait_idle_returns (enqueue_load job_id 0 [] (make_pool r w) :: ('a, 'c) pool) \<and>
   (\<forall>p'. \<not> worker_step (enqueue_load job_id 0 [] (make_pool r w) :: ('a, 'c) pool) p')"
proof -
  define p :: "('a, 'c) pool" where "p = enqueue_load job_id 0 [] (make_pool r w)"
  have idle: "snd (threads p ! i) = Idle" if "i < length (threads p)" for i
    using that by (simp add: p_def enqueue_load_def make_pool_def nth_append)
  have "pop_task b p = None" "\<not> stop p" for b
    by (simp_all add: p_def enqueue_load_def make_pool_def pop_task_def)
  then have "worker_take i p = None" "worker_done i ok raises p = None" "worker_report i p = None"
    for i ok raises
    using idle [of i] by (auto simp: worker_take_def worker_done_def worker_report_def)
  then have "\<not> worker_step p p'" for p' by (auto elim: worker_stepE)
  moreover have "\<not> wait_idle_returns p" by (simp add: wait_idle_returns_def p_def enqueue_load_def make_pool_def)
  ultimately show ?thesis by (simp add: p_def)
qed

text \<open>A job that is about to be reported, or whose last task is running.\<close>

fun due_thread :: "'c job_state list \<Rightarrow> 'a thread_state \<Rightarrow> bool" where
  "due_thread js (Reporting j success) = True"
| "due_thread js (Running task j) = (j < length js \<and> n_tasks (js ! j) = completed (js ! j) + 1)"
| "due_thread js _ = False"

definition report_due :: "('a, 'c) pool \<Rightarrow> bool" where
  "report_due p \<longleftrightarrow> list_ex (due_thread (jobs p) \<circ> snd) (threads p)"

lemma report_due_iff: "report_due p \<longleftrightarrow> (\<exists>i < length (threads p). due_thread (jobs p) (snd (threads p ! i)))"
  by (simp add: report_due_def list_ex_length)

text \<open>After the reset, the count can only fall, and it falls below zero if such a job is left.\<close>

definition overcounted :: "('a, 'c) pool \<Rightarrow> bool" where
  "overcounted p \<longleftrightarrow> stop p \<and> inflight_jobs p \<le> 0 \<and> (inflight_jobs p < 0 \<or> report_due p)"

lemma set_thread_nth:
  "i < length (threads p) \<Longrightarrow> threads (set_thread i t p) ! k = (if k = i then (fst (threads p ! i), t) else threads p ! k)"
  by (auto simp: set_thread_def)

lemma set_thread_frame [simp]:
  "length (threads (set_thread i t p)) = length (threads p)" "jobs (set_thread i t p) = jobs p" "stop (set_thread i t p) = stop p"
  "inflight_jobs (set_thread i t p) = inflight_jobs p"
  by (simp_all add: set_thread_def)

text \<open>Another thread than the one that moves stays due, unless that one has become due.\<close>

lemma report_due_thread:
  fixes p :: "('a, 'c) pool"
  assumes "report_due p" "i < length (threads p)" "\<not> due_thread (jobs p) (snd (threads p ! i))" "threads p1 = threads p"
    and "\<And>th :: 'a thread_state. due_thread (jobs p) th \<Longrightarrow> due_thread (jobs p1) th"
  shows "report_due (set_thread i t p1)"
proof -
  from assms(1) obtain k where k: "k < length (threads p)" "due_thread (jobs p) (snd (threads p ! k))"
    by (auto simp: report_due_iff)
  have "k \<noteq> i" using k assms(3) by auto
  moreover have "due_thread (jobs p1) (snd (threads p ! k))" by (rule assms(5) [OF k(2)])
  ultimately show ?thesis
    using k(1) assms(2,4) unfolding report_due_iff by (intro exI [of _ k]) (simp add: set_thread_nth)
qed

lemma due_thread_update:
  assumes "n_tasks js = n_tasks (jss ! j)" "n_tasks (jss ! j) \<noteq> completed (jss ! j) + 1"
  shows "due_thread jss th \<Longrightarrow> due_thread (jss[j := js]) th"
proof (cases th)
  case (Running t k)
  then show "due_thread jss th \<Longrightarrow> due_thread (jss[j := js]) th" using assms by (cases "k = j") auto
qed auto

lemma overcounted_step:
  fixes p :: "('a, 'c) pool"
  assumes o: "overcounted p" and step: "worker_step p p'"
  shows "overcounted p'"
  using step
proof cases
  case (StepTake i)
  with o have i: "i < length (threads p)" "snd (threads p ! i) = Idle" "p' = set_thread i Exited p"
    by (auto simp: worker_take_def overcounted_def split: if_splits)
  with o report_due_thread [of p i p Exited] show ?thesis by (auto simp: overcounted_def)
next
  case (StepDone i ok raises j call)
  obtain task where i: "i < length (threads p)" "snd (threads p ! i) = Running task j"
    using StepDone by (auto simp: worker_done_def case_prod_beta Let_def split: if_splits thread_state.splits)
  obtain js fin success ca where td: "task_done ok raises (jobs p ! j) = (js, fin, success, ca)" by (metis prod_cases4)
  then have js: "n_tasks js = n_tasks (jobs p ! j)" "fin \<longleftrightarrow> completed (jobs p ! j) + 1 = n_tasks (jobs p ! j)"
    by (auto simp: task_done_def Let_def split: if_splits)
  let ?p = "p\<lparr>jobs := (jobs p)[j := js]\<rparr>"
  have p': "p' = set_thread i (if fin then Reporting j success else Idle) ?p"
    using StepDone i by (simp add: worker_done_def td)
  have "report_due p'" if due: "report_due p"
  proof (cases fin)
    case True
    with i show ?thesis unfolding report_due_iff p' by (intro exI [of _ i]) (simp add: set_thread_nth)
  next
    case False
    have "due_thread (jobs p) th \<Longrightarrow> due_thread (jobs ?p) th" for th :: "'a thread_state"
      using due_thread_update [OF js(1), of th] False js(2) by simp
    from report_due_thread [OF due i(1) _ _ this, of Idle] i(2) False js(2) show ?thesis by (simp add: p')
  qed
  with o show ?thesis by (auto simp: overcounted_def p')
next
  case (StepReport i j success)
  with o show ?thesis
    by (auto simp: overcounted_def worker_report_def split: if_splits thread_state.splits)
qed

lemma report_due_steps: "stop p \<Longrightarrow> report_due p \<Longrightarrow> \<exists>p'. worker_step p p'"
  by (auto simp: report_due_def list_ex_iff intro!: stopped_can_step)

interpretation overcount: finishing_machine worker_step overcounted "\<lambda>p. inflight_jobs p < 0" pool_work
proof (unfold_locales, goal_cases)
  case (1 p p') then show ?case by (rule overcounted_step)
next
  case (2 p p') then show ?case by (intro worker_step_work) simp
next
  case (3 p) then show ?case by (intro report_due_steps) (auto simp: overcounted_def)
qed

text \<open>C36: \<open>shutdown\<close> resets the in-flight count so that a later \<open>wait_idle\<close> returns, but it does
  not always. In any pool that is shut down while a job is about to be reported, or while a
  thread runs the last task of a job, the worker steps that follow are at most \<open>pool_work\<close>
  many, whatever their order and outcomes; when no further one is possible, the count is
  negative and all threads have ended, so that \<open>wait_idle\<close> waits for ever.\<close>

theorem shutdown_wait_idle_hangs:
  assumes due: "report_due p" and steps: "(worker_step ^^ n) (pool_shutdown p) q"
  shows "n \<le> pool_work (pool_shutdown p) \<and>
    ((\<exists>q'. worker_step q q') \<or>
     inflight_jobs q < 0 \<and> \<not> wait_idle_returns q \<and> (\<forall>(b, t) \<in> set (threads q). t = Exited))"
proof -
  have o: "overcounted (pool_shutdown p)"
    using due by (simp add: overcounted_def report_due_def) (simp add: pool_shutdown_def)
  note q = overcount.steps_inv [OF o steps]
  have "n \<le> pool_work (pool_shutdown p)" using overcount.steps_work [OF o steps] by simp
  moreover have "inflight_jobs q < 0" if "\<nexists>q'. worker_step q q'" by (rule overcount.stops_final [OF o steps that])
  moreover have "\<forall>(b, t) \<in> set (threads q). t = Exited" if "\<nexists>q'. worker_step q q'"
    using stopped_can_step [of q] q that by (auto simp: overcounted_def)
  ultimately show ?thesis by (auto simp: wait_idle_returns_def)
qed

text \<open>A thread runs the only task of the only job.\<close>

definition last_task_pool :: "(nat, nat) pool" where
  "last_task_pool = the (worker_take 0 (enqueue_load 1 1 [10] (make_pool 1 0)))"

definition negative_pool :: "(nat, nat) pool" where
  "negative_pool =
     (let p = snd (snd (the (worker_done 0 True False (pool_shutdown last_task_pool))));
          p = snd (snd (the (worker_report 0 p)))
      in the (worker_take 0 p))"

theorem shutdown_wait_idle_hangs_witness:
  "report_due last_task_pool \<and> (worker_step ^^ 3) (pool_shutdown last_task_pool) negative_pool \<and>
   inflight_jobs negative_pool < 0 \<and> \<not> wait_idle_returns negative_pool"
proof -
  let ?d = "worker_done 0 True False (pool_shutdown last_task_pool)"
  obtain j call p2 where d: "?d = Some (j, call, p2)"
  proof -
    have "?d \<noteq> None" by code_simp
    then show thesis using that by (metis not_None_eq prod_cases3)
  qed
  have "worker_report 0 (snd (snd (the ?d))) \<noteq> None" by code_simp
  then obtain j' s' p3 where r: "worker_report 0 p2 = Some (j', s', p3)"
    unfolding d option.sel snd_conv by (metis not_None_eq prod_cases3)
  have "worker_take 0 (snd (snd (the (worker_report 0 (snd (snd (the ?d))))))) \<noteq> None" by code_simp
  then have "worker_take 0 p3 \<noteq> None" unfolding d option.sel snd_conv r .
  then have t: "worker_take 0 p3 = Some negative_pool"
    unfolding negative_pool_def Let_def d option.sel snd_conv r by simp
  have steps: "(worker_step ^^ 3) (pool_shutdown last_task_pool) negative_pool"
    using StepDone [OF d] StepReport [OF r] StepTake [OF t] by (auto simp: numeral_3_eq_3)
  have due: "report_due last_task_pool" by code_simp
  have "threads negative_pool = [(True, Exited)]" by code_simp
  then have "snd (threads negative_pool ! i) = Exited" if "i < length (threads negative_pool)" for i
    using that by simp
  then have "worker_take i negative_pool = None" "worker_done i ok raises negative_pool = None"
    "worker_report i negative_pool = None" for i ok raises
    by (auto simp: worker_take_def worker_done_def worker_report_def)
  then have "\<not> worker_step negative_pool q" for q by (auto elim: worker_stepE)
  with shutdown_wait_idle_hangs [OF due steps] due steps show ?thesis by blast
qed

end
