(* ===== verification/Segment_Store.thy ===== *)
theory Segment_Store
  imports Tiering_Prelude
begin

text \<open>
  \<open>fs/segment_store.py\<close>: blocks appended to large segment files, with a SQLite index of
  their locations and a per-process cache of it. What several processes share (the two
  tables and the segment files) is one record, what a process holds is another; an operation
  takes and returns both. A table with a primary key is an association list, a segment file
  is its bytes. Whether a transaction commits is the argument \<open>tx\<close>; what a \<open>pwritev\<close> or
  \<open>preadv\<close> does is the next element of a list of outcomes. Sizes, offsets and block numbers
  are natural numbers (the constructor and the callers admit no others).
\<close>

section \<open>Data\<close>

type_synonym bytes = "char list"

record segment_location =
  segment_id :: nat
  offset :: nat
  loc_length :: nat

record segment_write =
  sw_key :: offload_key
  sw_segment_id :: nat
  sw_offset :: nat
  sw_block_id :: nat

text \<open>
  The names of the \<open>metadata\<close> table: \<open>'segment_id'\<close> and \<open>'segment_offset'\<close> of the old
  format, \<open>'next_segment_id'\<close>, \<open>'shard_cursor'\<close>, \<open>'shard_<i>_segment_id'\<close> and
  \<open>'shard_<i>_segment_offset'\<close>.
\<close>

datatype meta_name = SegmentIdM | SegmentOffsetM | NextSegmentId | ShardCursor
  | ShardSegmentId nat | ShardSegmentOffset nat

record segment_shared =
  db_blocks :: "(offload_key \<times> segment_location) list"
  db_meta :: "(meta_name \<times> nat) list"
  seg_files :: "(nat \<times> bytes) list"

record segment_store =
  block_size :: nat
  segment_size_bytes :: nat
  segment_shards :: nat
  location_cache :: "(offload_key \<times> segment_location) list"
  closed :: bool

definition make_segment_store :: "int \<Rightarrow> int \<Rightarrow> int \<Rightarrow> segment_store result" where
  "make_segment_store bs seg_size shards =
     (if bs \<le> 0 then Inl (ValueError ''block_size must be greater than zero'')
      else if seg_size < bs then Inl (ValueError ''segment_size_bytes must be at least one block'')
      else if shards \<le> 0 then Inl (ValueError ''segment_shards must be greater than zero'')
      else Inr \<lparr>block_size = nat bs, segment_size_bytes = nat ((seg_size div bs) * bs),
                segment_shards = nat shards, location_cache = [], closed = False\<rparr>)"

definition empty_shared :: segment_shared where
  "empty_shared = \<lparr>db_blocks = [], db_meta = [], seg_files = []\<rparr>"

text \<open>The code closes the database connection, so that later calls on the store raise; here they are not restricted.\<close>

definition close :: "segment_store \<Rightarrow> segment_store" where
  "close s = (if closed s then s else s\<lparr>closed := True\<rparr>)"

section \<open>The index\<close>

function chunks_of :: "nat \<Rightarrow> 'a list \<Rightarrow> 'a list list" where
  "chunks_of n xs = (if n = 0 \<or> xs = [] then [] else take n xs # chunks_of n (drop n xs))"
  by auto
termination by (relation "measure (\<lambda>(n, xs). length xs)") auto

declare chunks_of.simps [simp del]

definition index_batch_size :: nat where
  "index_batch_size = 500"

text \<open>The rows that \<open>SELECT ... WHERE key IN (chunk)\<close> returns.\<close>

definition select_keys :: "offload_key list \<Rightarrow> segment_shared \<Rightarrow> (offload_key \<times> segment_location) list" where
  "select_keys chunk sh = filter (\<lambda>(k, _). k \<in> set chunk) (db_blocks sh)"

definition get_locations :: "offload_key list \<Rightarrow> segment_shared \<Rightarrow> segment_store \<Rightarrow>
    segment_location option list \<times> segment_store" where
  "get_locations keys sh s =
     (if keys = [] then ([], s)
      else
        let cache = location_cache s;
            known = fold (\<lambda>k d. case map_of cache k of None \<Rightarrow> d | Some l \<Rightarrow> AList.update k l d) keys [];
            missing = filter (\<lambda>k. map_of cache k = None) keys;
            (known, cache) =
              fold (\<lambda>chunk (d, c). let rows = select_keys chunk sh in (update_all rows d, update_all rows c))
                (chunks_of index_batch_size missing) (known, cache)
        in (map (map_of known) keys, s\<lparr>location_cache := cache\<rparr>))"

definition contains_many :: "offload_key list \<Rightarrow> segment_shared \<Rightarrow> segment_store \<Rightarrow> bool list \<times> segment_store" where
  "contains_many keys sh s =
     (let (locs, s) = get_locations keys sh s in (map (\<lambda>l. l \<noteq> None) locs, s))"

section \<open>Allocation\<close>

definition latest_segment :: "segment_shared \<Rightarrow> nat \<times> nat" where
  "latest_segment sh =
     (case (map_of (db_meta sh) SegmentIdM, map_of (db_meta sh) SegmentOffsetM) of
        (Some i, Some o') \<Rightarrow> (i, o')
      | _ \<Rightarrow>
          (if db_blocks sh = [] then (0, 0)
           else let i = Max (set (map (segment_id \<circ> snd) (db_blocks sh)))
                in (i, Max (set (map ((\<lambda>l. offset l + loc_length l) \<circ> snd)
                                  (filter (\<lambda>kl. segment_id (snd kl) = i) (db_blocks sh)))))))"

definition has_shard_state :: "segment_shared \<Rightarrow> bool" where
  "has_shard_state sh \<longleftrightarrow> map_of (db_meta sh) (ShardSegmentId 0) \<noteq> None"

definition is_shard_segment :: "meta_name \<Rightarrow> bool" where
  "is_shard_segment n \<longleftrightarrow> (case n of ShardSegmentId _ \<Rightarrow> True | _ \<Rightarrow> False)"

definition existing_segment_ids :: "segment_shared \<Rightarrow> nat list" where
  "existing_segment_ids sh =
     (if has_shard_state sh then map snd (filter (\<lambda>nv. is_shard_segment (fst nv)) (db_meta sh))
      else [fst (latest_segment sh)])"

text \<open>
  One iteration of the loop over the shards; \<open>max(ids, default=-1) + 1\<close> is 0 for no ids.
\<close>

definition shard_step :: "segment_shared \<Rightarrow> nat \<Rightarrow> (nat \<times> nat) list \<times> nat \<Rightarrow> (nat \<times> nat) list \<times> nat" where
  "shard_step sh i = (\<lambda>(acc, next_id).
     (case (map_of (db_meta sh) (ShardSegmentId i), map_of (db_meta sh) (ShardSegmentOffset i)) of
        (Some sid, Some off) \<Rightarrow> (acc @ [(sid, off)], next_id)
      | _ \<Rightarrow>
          if i = 0 \<and> \<not> has_shard_state sh
          then (acc @ [latest_segment sh], max next_id (fst (latest_segment sh) + 1))
          else (acc @ [(next_id, 0)], next_id + 1)))"

definition first_free_segment :: "segment_shared \<Rightarrow> nat" where
  "first_free_segment sh =
     max (if existing_segment_ids sh = [] then 0 else Max (set (existing_segment_ids sh)) + 1)
         (dict_get (db_meta sh) NextSegmentId 0)"

definition allocation_state :: "segment_shared \<Rightarrow> segment_store \<Rightarrow> (nat \<times> nat) list \<times> nat \<times> nat" where
  "allocation_state sh s =
     (let (shard_state, next_id) =
            fold (shard_step sh) [0..<segment_shards s] ([], first_free_segment sh)
      in (shard_state, next_id, dict_get (db_meta sh) ShardCursor 0 mod segment_shards s))"

text \<open>The dictionary \<open>unique\<close>: the keys that are not stored, with the first block of each.\<close>

definition unstored :: "offload_key list \<Rightarrow> nat list \<Rightarrow> bool list \<Rightarrow> (offload_key \<times> nat) list" where
  "unstored keys block_ids existing =
     fold (\<lambda>(k, b, is_stored) d. if \<not> is_stored \<and> map_of d k = None then AList.update k b d else d)
       (zip keys (zip block_ids existing)) []"

text \<open>Placing one block: the shard's current segment, or a new one when it is full.\<close>

definition place_block :: "segment_store \<Rightarrow> nat \<Rightarrow> nat \<times> offload_key \<times> nat \<Rightarrow>
    (nat \<times> nat) list \<times> nat \<times> segment_write list list \<Rightarrow> (nat \<times> nat) list \<times> nat \<times> segment_write list list" where
  "place_block s cursor = (\<lambda>(index, k, b) (shards, next_id, by_shard).
     (let i = (cursor + index) mod segment_shards s;
          (sid, off) = shards ! i;
          (sid, off, next_id) =
            (if segment_size_bytes s < off + block_size s then (next_id, 0, next_id + 1) else (sid, off, next_id));
          e = \<lparr>sw_key = k, sw_segment_id = sid, sw_offset = off, sw_block_id = b\<rparr>
      in (shards[i := (sid, off + block_size s)], next_id, by_shard[i := by_shard ! i @ [e]])))"

definition save_allocation :: "(nat \<times> nat) list \<Rightarrow> nat \<Rightarrow> nat \<Rightarrow> (meta_name \<times> nat) list \<Rightarrow> (meta_name \<times> nat) list" where
  "save_allocation shards next_id cursor meta =
     update_all
       ([(NextSegmentId, next_id), (ShardCursor, cursor)] @
        map (\<lambda>(i, st). (ShardSegmentId i, fst st)) (enumerate 0 shards) @
        map (\<lambda>(i, st). (ShardSegmentOffset i, snd st)) (enumerate 0 shards)) meta"

definition prepare_store :: "bool \<Rightarrow> offload_key list \<Rightarrow> nat list \<Rightarrow> segment_shared \<Rightarrow> segment_store \<Rightarrow>
    segment_write list result \<times> segment_shared \<times> segment_store" where
  "prepare_store tx keys block_ids sh s =
     (if length keys \<noteq> length block_ids
      then (Inl (ValueError ''keys and block_ids must have the same length''), sh, s)
      else if keys = [] then (Inr [], sh, s)
      else
        let (existing, s) = contains_many keys sh s;
            uniq = unstored keys block_ids existing
        in if uniq = [] then (Inr [], sh, s)
           else
             let (shards, next_id, cursor) = allocation_state sh s;
                 (shards, next_id, by_shard) =
                   fold (place_block s cursor) (enumerate 0 uniq)
                     (shards, next_id, replicate (segment_shards s) []);
                 cursor = (cursor + length uniq) mod segment_shards s
             in if tx
                then (Inr (concat by_shard), sh\<lparr>db_meta := save_allocation shards next_id cursor (db_meta sh)\<rparr>, s)
                else (Inl (OSError ''transaction failed''), sh, s))"

section \<open>Writing\<close>

datatype io_outcome = Full | Short nat | Fails string

text \<open>The next outcome; when the list is used up, everything succeeds.\<close>

definition next_io :: "io_outcome list \<Rightarrow> io_outcome \<times> io_outcome list" where
  "next_io io = (case io of [] \<Rightarrow> (Full, []) | x # xs \<Rightarrow> (x, xs))"

definition pwrite :: "nat \<Rightarrow> bytes \<Rightarrow> bytes \<Rightarrow> bytes" where
  "pwrite off data f =
     take off (f @ replicate (off - length f) (CHR 0x00)) @ data @ drop (off + length data) f"

definition view_of :: "nat \<Rightarrow> nat \<Rightarrow> bytes \<Rightarrow> bytes" where
  "view_of bs b buf = take bs (drop (b * bs) buf)"

fun pwritev_chunks :: "bytes list list \<Rightarrow> nat \<Rightarrow> bytes \<Rightarrow> io_outcome list \<Rightarrow> unit result \<times> bytes \<times> io_outcome list" where
  "pwritev_chunks [] off f io = (Inr (), f, io)"
| "pwritev_chunks (c # cs) off f io =
     (let data = concat c;
          (out, io) = next_io io
      in case out of
           Fails e \<Rightarrow> (Inl (OSError e), f, io)
         | Short n \<Rightarrow>
             if n < length data then (Inl (OSError ''Short write''), pwrite off (take n data) f, io)
             else pwritev_chunks cs (off + length data) (pwrite off data f) io
         | Full \<Rightarrow> pwritev_chunks cs (off + length data) (pwrite off data f) io)"

definition batch_limit :: "nat \<Rightarrow> nat option \<Rightarrow> nat" where
  "batch_limit iov_max max_buffers = (case max_buffers of None \<Rightarrow> iov_max | Some m \<Rightarrow> min iov_max m)"

definition pwritev_all :: "nat \<Rightarrow> bytes list \<Rightarrow> nat \<Rightarrow> bytes \<Rightarrow> io_outcome list \<Rightarrow>
    unit result \<times> bytes \<times> io_outcome list" where
  "pwritev_all limit buffers off f io =
     (if limit = 0 then (Inl (ValueError ''range() arg 3 must not be zero''), f, io)
      else pwritev_chunks (chunks_of limit buffers) off f io)"

definition write_flush :: "nat \<Rightarrow> nat \<Rightarrow> nat \<Rightarrow> bytes list \<Rightarrow> (nat \<times> bytes) list \<Rightarrow> io_outcome list \<Rightarrow>
    unit result \<times> (nat \<times> bytes) list \<times> io_outcome list" where
  "write_flush limit sid off views files io =
     (if views = [] then (Inr (), files, io)
      else let (r, f, io) = pwritev_all limit views off (dict_get files sid []) io
           in (r, AList.update sid f files, io))"

fun write_loop :: "nat \<Rightarrow> nat \<Rightarrow> bytes \<Rightarrow> segment_write list \<Rightarrow> nat \<Rightarrow> nat \<Rightarrow> bytes list \<Rightarrow>
    (nat \<times> bytes) list \<Rightarrow> io_outcome list \<Rightarrow> unit result \<times> (nat \<times> bytes) list \<times> io_outcome list" where
  "write_loop limit bs buf [] sid off views files io = write_flush limit sid off views files io"
| "write_loop limit bs buf (e # es) sid off views files io =
     (let view = view_of bs (sw_block_id e) buf
      in if views = [] then write_loop limit bs buf es (sw_segment_id e) (sw_offset e) [view] files io
         else if sw_segment_id e \<noteq> sid \<or> sw_offset e \<noteq> off + length views * bs
         then case write_flush limit sid off views files io of
                (Inl err, files, io) \<Rightarrow> (Inl err, files, io)
              | (Inr _, files, io) \<Rightarrow> write_loop limit bs buf es (sw_segment_id e) (sw_offset e) [view] files io
         else write_loop limit bs buf es sid off (views @ [view]) files io)"

definition write_entries :: "nat \<Rightarrow> nat option \<Rightarrow> segment_write list \<Rightarrow> bytes \<Rightarrow> io_outcome list \<Rightarrow>
    segment_shared \<Rightarrow> segment_store \<Rightarrow> unit result \<times> segment_shared" where
  "write_entries iov_max io_batch_blocks entries buf io sh s =
     (if entries = [] then (Inr (), sh)
      else let (r, files, _) =
                 write_loop (batch_limit iov_max io_batch_blocks) (block_size s) buf entries
                   (sw_segment_id (hd entries)) (sw_offset (hd entries)) [] (seg_files sh) io
           in (r, sh\<lparr>seg_files := files\<rparr>))"

definition complete_store :: "bool \<Rightarrow> segment_write list \<Rightarrow> bool \<Rightarrow> segment_shared \<Rightarrow> segment_store \<Rightarrow>
    unit result \<times> segment_shared \<times> segment_store" where
  "complete_store tx entries success sh s =
     (if \<not> success \<or> entries = [] then (Inr (), sh, s)
      else if \<not> tx then (Inl (OSError ''transaction failed''), sh, s)
      else
        let blocks = fold (\<lambda>e d. setdefault (sw_key e)
                \<lparr>segment_id = sw_segment_id e, offset = sw_offset e, loc_length = block_size s\<rparr> d)
              entries (db_blocks sh);
            sh = sh\<lparr>db_blocks := blocks\<rparr>;
            (_, s) = get_locations (map sw_key entries) sh s
        in (Inr (), sh, s))"

text \<open>\<open>store_many\<close>; \<open>tx1\<close> and \<open>tx2\<close> tell whether its two transactions commit.\<close>

definition store_many :: "nat \<Rightarrow> bool \<Rightarrow> bool \<Rightarrow> offload_key list \<Rightarrow> bytes \<Rightarrow> nat list \<Rightarrow> io_outcome list \<Rightarrow>
    segment_shared \<Rightarrow> segment_store \<Rightarrow> unit result \<times> segment_shared \<times> segment_store" where
  "store_many iov_max tx1 tx2 keys buf block_ids io sh s =
     (case prepare_store tx1 keys block_ids sh s of
        (Inl e, sh, s) \<Rightarrow> (Inl e, sh, s)
      | (Inr plan, sh, s) \<Rightarrow>
          (case write_entries iov_max None plan buf io sh s of
             (Inl e, sh) \<Rightarrow>
               (case complete_store tx2 plan False sh s of
                  (Inl e', sh, s) \<Rightarrow> (Inl e', sh, s)
                | (Inr _, sh, s) \<Rightarrow> (Inl e, sh, s))
           | (Inr _, sh) \<Rightarrow> complete_store tx2 plan True sh s))"

definition group_writes :: "segment_write list \<Rightarrow> segment_write list list" where
  "group_writes entries =
     map snd (fold (\<lambda>e d. AList.update (sw_segment_id e) (dict_get d (sw_segment_id e) [] @ [e]) d) entries [])"

section \<open>Deleting\<close>

definition delete :: "bool \<Rightarrow> offload_key list \<Rightarrow> segment_shared \<Rightarrow> segment_store \<Rightarrow>
    offload_key set result \<times> segment_shared \<times> segment_store" where
  "delete tx keys sh s =
     (let ks = rev (remdups (rev keys))
      in if ks = [] then (Inr {}, sh, s)
         else
           let existing = \<Union> ((\<lambda>chunk. fst ` set (select_keys chunk sh)) ` set (chunks_of index_batch_size ks))
           in if \<not> tx then (Inl (OSError ''transaction failed''), sh, s)
              else (Inr existing,
                    sh\<lparr>db_blocks := fold (\<lambda>chunk d. filter (\<lambda>(k, _). k \<notin> set chunk) d)
                          (chunks_of index_batch_size ks) (db_blocks sh)\<rparr>,
                    s\<lparr>location_cache := filter (\<lambda>(k, _). k \<notin> existing) (location_cache s)\<rparr>))"

section \<open>Loading\<close>

definition splice :: "nat \<Rightarrow> bytes \<Rightarrow> bytes \<Rightarrow> bytes" where
  "splice start data buf = take start buf @ data @ drop (start + length data) buf"

text \<open>\<open>preadv\<close> fills the destination views \<open>(start, length)\<close> of the buffer one after the other.\<close>

fun scatter :: "(nat \<times> nat) list \<Rightarrow> bytes \<Rightarrow> bytes \<Rightarrow> bytes" where
  "scatter [] data buf = buf"
| "scatter ((start, len) # vs) data buf = scatter vs (drop len data) (splice start (take len data) buf)"

fun preadv_chunks :: "(nat \<times> nat) list list \<Rightarrow> nat \<Rightarrow> bytes \<Rightarrow> bytes \<Rightarrow> io_outcome list \<Rightarrow>
    unit result \<times> bytes \<times> io_outcome list" where
  "preadv_chunks [] off f buf io = (Inr (), buf, io)"
| "preadv_chunks (c # cs) off f buf io =
     (let expected = sum_list (map snd c);
          avail = take expected (drop off f);
          (out, io) = next_io io
      in case out of
           Fails e \<Rightarrow> (Inl (OSError e), buf, io)
         | _ \<Rightarrow>
             let data = (case out of Short n \<Rightarrow> take n avail | _ \<Rightarrow> avail);
                 buf = scatter c data buf
             in if length data \<noteq> expected then (Inl (OSError ''Short read''), buf, io)
                else preadv_chunks cs (off + length data) f buf io)"

definition preadv_all :: "nat \<Rightarrow> (nat \<times> nat) list \<Rightarrow> nat \<Rightarrow> bytes \<Rightarrow> bytes \<Rightarrow> io_outcome list \<Rightarrow>
    unit result \<times> bytes \<times> io_outcome list" where
  "preadv_all limit views off f buf io =
     (if limit = 0 then (Inl (ValueError ''range() arg 3 must not be zero''), buf, io)
      else preadv_chunks (chunks_of limit views) off f buf io)"

definition load_flush :: "nat \<Rightarrow> (nat \<times> bytes) list \<Rightarrow> nat \<Rightarrow> nat \<Rightarrow> (nat \<times> nat) list \<Rightarrow> bytes \<Rightarrow>
    io_outcome list \<Rightarrow> unit result \<times> bytes \<times> io_outcome list" where
  "load_flush limit files sid off views buf io =
     (if views = [] then (Inr (), buf, io)
      else case map_of files sid of
             None \<Rightarrow> (Inl (OSError ''No such file or directory''), buf, io)
           | Some f \<Rightarrow> preadv_all limit views off f buf io)"

fun load_loop :: "nat \<Rightarrow> nat \<Rightarrow> (nat \<times> bytes) list \<Rightarrow> (segment_location \<times> nat \<times> nat) list \<Rightarrow>
    nat \<Rightarrow> nat \<Rightarrow> nat \<Rightarrow> (nat \<times> nat) list \<Rightarrow> bytes \<Rightarrow> io_outcome list \<Rightarrow> unit result \<times> bytes \<times> io_outcome list" where
  "load_loop limit bs files [] sid off len views buf io = load_flush limit files sid off views buf io"
| "load_loop limit bs files ((l, dst) # es) sid off len views buf io =
     (if loc_length l \<noteq> bs then (Inl (OSError ''Indexed block size does not match''), buf, io)
      else if views = [] then load_loop limit bs files es (segment_id l) (offset l) (snd dst) [dst] buf io
      else if segment_id l \<noteq> sid \<or> offset l \<noteq> off + len
      then case load_flush limit files sid off views buf io of
             (Inl e, buf, io) \<Rightarrow> (Inl e, buf, io)
           | (Inr _, buf, io) \<Rightarrow> load_loop limit bs files es (segment_id l) (offset l) (snd dst) [dst] buf io
      else load_loop limit bs files es sid off (len + snd dst) (views @ [dst]) buf io)"

definition destination :: "nat \<Rightarrow> nat \<Rightarrow> bytes \<Rightarrow> nat \<times> nat" where
  "destination bs b buf = (min (b * bs) (length buf), length (view_of bs b buf))"

definition load_many :: "nat \<Rightarrow> bool \<Rightarrow> offload_key list \<Rightarrow> bytes \<Rightarrow> nat list \<Rightarrow>
    segment_location option list option \<Rightarrow> nat option \<Rightarrow> io_outcome list \<Rightarrow> segment_shared \<Rightarrow> segment_store \<Rightarrow>
    unit result \<times> bytes \<times> segment_shared \<times> segment_store" where
  "load_many iov_max tx keys buf block_ids locations io_batch_blocks io sh s =
     (if length keys \<noteq> length block_ids
      then (Inl (ValueError ''keys and block_ids must have the same length''), buf, sh, s)
      else
        let (locs, s) = (case locations of None \<Rightarrow> get_locations keys sh s | Some ls \<Rightarrow> (ls, s))
        in if length keys \<noteq> length locs
           then (Inl (ValueError ''keys and locations must have the same length''), buf, sh, s)
           else if None \<in> set locs
           then (Inl (FileNotFoundError (length (filter (\<lambda>l. l = None) locs))), buf, sh, s)
           else
             let entries = sort_key (\<lambda>e. (segment_id (fst e), offset (fst e)))
                   (map (\<lambda>(l, b). (the l, destination (block_size s) b buf)) (zip locs block_ids))
             in case load_loop (batch_limit iov_max io_batch_blocks) (block_size s) (seg_files sh) entries 0 0 0 [] buf io of
                  (Inr _, buf, _) \<Rightarrow> (Inr (), buf, sh, s)
                | (Inl e, buf, _) \<Rightarrow>
                    (case delete tx keys sh s of
                       (Inl e', sh, s) \<Rightarrow> (Inl e', buf, sh, s)
                     | (Inr _, sh, s) \<Rightarrow> (Inl e, buf, sh, s)))"

end
