(* ===== verification/Segment_Index.thy ===== *)
theory Segment_Index
  imports Segment_Store "HOL-Library.Multiset"
begin

text \<open>
  The index of the segment store: batched and cached look-ups are plain look-ups, deletion
  removes exactly the given keys, and the writes of a plan are partitioned by segment.
\<close>

section \<open>Chunks\<close>

lemma chunks_of_empty [simp]: "chunks_of n [] = []"
  by (simp add: chunks_of.simps)

lemma concat_chunks_of: "0 < n \<Longrightarrow> concat (chunks_of n xs) = xs"
proof (induction n xs rule: chunks_of.induct)
  case (1 n xs)
  then show ?case by (subst chunks_of.simps) simp
qed

lemma set_chunks_of: "0 < n \<Longrightarrow> \<Union> (set ` set (chunks_of n xs)) = set xs"
  by (metis concat_chunks_of set_concat)

lemma index_batch_pos [simp]: "0 < index_batch_size"
  by (simp add: index_batch_size_def)

section \<open>Look-ups\<close>

definition keys_distinct :: "segment_shared \<Rightarrow> bool" where
  "keys_distinct sh \<longleftrightarrow> distinct (map fst (db_blocks sh))"

text \<open>Where a process believes a block to be: its cache answers before the database.\<close>

definition locate :: "segment_shared \<Rightarrow> segment_store \<Rightarrow> offload_key \<Rightarrow> segment_location option" where
  "locate sh s k = (case map_of (location_cache s) k of Some l \<Rightarrow> Some l | None \<Rightarrow> map_of (db_blocks sh) k)"

lemma map_of_select_keys: "map_of (select_keys chunk sh) k = (if k \<in> set chunk then map_of (db_blocks sh) k else None)"
  by (simp add: select_keys_def map_of_filter_keys)

lemma distinct_select_keys: "keys_distinct sh \<Longrightarrow> distinct (map fst (select_keys chunk sh))"
  by (simp add: keys_distinct_def select_keys_def distinct_map_filter)

lemma remember_pair:
  "fold (\<lambda>chunk (d, c). (update_all (select_keys chunk sh) d, update_all (select_keys chunk sh) c)) cs (d, c) =
     (fold (\<lambda>chunk. update_all (select_keys chunk sh)) cs d, fold (\<lambda>chunk. update_all (select_keys chunk sh)) cs c)"
  by (induction cs arbitrary: d c) simp_all

lemma remember_chunks:
  assumes "keys_distinct sh"
  shows "map_of (fold (\<lambda>chunk. update_all (select_keys chunk sh)) cs d) k =
    (if k \<in> \<Union> (set ` set cs) \<and> map_of (db_blocks sh) k \<noteq> None then map_of (db_blocks sh) k else map_of d k)"
  by (induction cs arbitrary: d)
    (auto simp: map_of_update_all [OF distinct_select_keys [OF assms]] map_of_select_keys split: option.splits)

lemma cached_part:
  "map_of (fold (\<lambda>k d. case map_of cache k of None \<Rightarrow> d | Some l \<Rightarrow> AList.update k l d) keys d) k =
     (if k \<in> set keys \<and> map_of cache k \<noteq> None then map_of cache k else map_of d k)"
  by (induction keys arbitrary: d) (auto simp: map_of_update split: option.splits)

lemma get_locations_spec:
  assumes "keys_distinct sh"
  shows "fst (get_locations keys sh s) = map (locate sh s) keys"
    and "map_of (location_cache (snd (get_locations keys sh s))) k =
      (if k \<in> set keys then locate sh s k else map_of (location_cache s) k)"
    and "snd (get_locations keys sh s) = s\<lparr>location_cache := location_cache (snd (get_locations keys sh s))\<rparr>"
proof -
  let ?missing = "filter (\<lambda>k. map_of (location_cache s) k = None) keys"
  have u: "(\<Union>a \<in> set (chunks_of index_batch_size ?missing). set a) = set ?missing"
    using set_chunks_of [of index_batch_size ?missing] by simp
  show "fst (get_locations keys sh s) = map (locate sh s) keys"
    by (auto simp: get_locations_def remember_pair Let_def remember_chunks [OF assms] u cached_part
        locate_def split: option.splits)
  show "map_of (location_cache (snd (get_locations keys sh s))) k =
      (if k \<in> set keys then locate sh s k else map_of (location_cache s) k)"
    by (auto simp: get_locations_def remember_pair Let_def remember_chunks [OF assms] u
        locate_def split: option.splits)
  show "snd (get_locations keys sh s) = s\<lparr>location_cache := location_cache (snd (get_locations keys sh s))\<rparr>"
    by (simp add: get_locations_def remember_pair Let_def)
qed

lemma locate_after_lookup:
  "keys_distinct sh \<Longrightarrow> locate sh (snd (get_locations keys sh s)) k = locate sh s k"
  by (simp add: locate_def [of sh "snd (get_locations keys sh s)"] get_locations_spec(2) locate_def split: option.splits)

lemma contains_many_spec:
  "keys_distinct sh \<Longrightarrow> contains_many keys sh s =
     (map (\<lambda>k. locate sh s k \<noteq> None) keys, snd (get_locations keys sh s))"
  by (simp add: contains_many_def case_prod_beta get_locations_spec(1) comp_def)

text \<open>Batching the queries and caching their positive results changes no answer:
  \<open>get_locations\<close> returns for each key what the cache holds or else the database row, in the
  order of the keys and for duplicates too; it remembers exactly what it found, never a
  miss; and \<open>contains_many\<close> says which of these are present.\<close>

theorem get_locations_correct:
  assumes db: "keys_distinct sh"
  shows "fst (get_locations keys sh s) = map (locate sh s) keys \<and>
    fst (contains_many keys sh s) = map (\<lambda>k. locate sh s k \<noteq> None) keys \<and>
    (\<forall>k. map_of (location_cache (snd (get_locations keys sh s))) k =
       (if k \<in> set keys then locate sh s k else map_of (location_cache s) k)) \<and>
    (\<forall>k. locate sh (snd (get_locations keys sh s)) k = locate sh s k)"
  by (simp add: get_locations_spec(1,2) [OF db] contains_many_spec [OF db] locate_after_lookup [OF db])

section \<open>Deleting\<close>

lemma filter_chunks:
  "fold (\<lambda>chunk d. filter (\<lambda>(k, _). k \<notin> set chunk) d) cs d = filter (\<lambda>(k, _). k \<notin> \<Union> (set ` set cs)) d"
  by (induction cs arbitrary: d) (auto simp: case_prod_beta intro: filter_cong)

lemma delete_spec:
  "delete True keys sh s =
     (Inr (set keys \<inter> dom (map_of (db_blocks sh))),
      sh\<lparr>db_blocks := filter (\<lambda>(k, _). k \<notin> set keys) (db_blocks sh)\<rparr>,
      s\<lparr>location_cache := filter (\<lambda>(k, _). k \<notin> set keys \<inter> dom (map_of (db_blocks sh))) (location_cache s)\<rparr>)"
proof -
  let ?ks = "rev (remdups (rev keys))" and ?cs = "chunks_of index_batch_size (rev (remdups (rev keys)))"
  have ks: "set ?ks = set keys" by simp
  have u: "(\<Union>a \<in> set ?cs. set a) = set keys" using set_chunks_of [of index_batch_size ?ks] by simp
  have sel: "fst ` set (select_keys c sh) = set c \<inter> dom (map_of (db_blocks sh))" for c
    by (auto simp: select_keys_def dom_map_of_conv_image_fst image_iff)
  have ex: "(\<Union>c \<in> set ?cs. fst ` set (select_keys c sh)) = set keys \<inter> dom (map_of (db_blocks sh))"
    unfolding sel using u by auto
  show ?thesis
  proof (cases "keys = []")
    case True
    then show ?thesis by (simp add: delete_def)
  next
    case False
    then have "?ks \<noteq> []" using ks by (metis set_empty)
    then show ?thesis by (simp add: delete_def Let_def ex filter_chunks u del: rev_is_Nil_conv remdups_eq_nil_iff)
  qed
qed

text \<open>\<open>delete\<close> removes exactly the given keys from the index and returns exactly those of
  them that were stored; other keys keep their locations, for the database and for this
  process; and a deleted key that was stored is no longer found by it. When the
  transaction fails, nothing changes.\<close>

theorem delete_correct:
  assumes "delete tx keys sh s = (r, sh', s')"
  shows "(tx \<longrightarrow> r = Inr (set keys \<inter> dom (map_of (db_blocks sh)))) \<and>
    (tx \<longrightarrow> (\<forall>k. map_of (db_blocks sh') k = (if k \<in> set keys then None else map_of (db_blocks sh) k))) \<and>
    (tx \<longrightarrow> (\<forall>k. locate sh' s' k =
       (if k \<in> set keys \<and> map_of (db_blocks sh) k \<noteq> None then None else locate sh s k))) \<and>
    (\<not> tx \<longrightarrow> sh' = sh \<and> s' = s) \<and> db_meta sh' = db_meta sh \<and> seg_files sh' = seg_files sh"
proof (cases tx)
  case True
  with assms have e: "r = Inr (set keys \<inter> dom (map_of (db_blocks sh)))"
    "sh' = sh\<lparr>db_blocks := filter (\<lambda>(k, _). k \<notin> set keys) (db_blocks sh)\<rparr>"
    "s' = s\<lparr>location_cache := filter (\<lambda>(k, _). k \<notin> set keys \<inter> dom (map_of (db_blocks sh))) (location_cache s)\<rparr>"
    by (simp_all add: delete_spec)
  have db: "map_of (db_blocks sh') k = (if k \<in> set keys then None else map_of (db_blocks sh) k)" for k
    by (simp add: e(2) map_of_filter_keys [where P = "\<lambda>k. k \<notin> set keys"])
  have c: "map_of (location_cache s') k =
      (if k \<in> set keys \<and> map_of (db_blocks sh) k \<noteq> None then None else map_of (location_cache s) k)" for k
    using map_of_filter_keys [where P = "\<lambda>k. k \<notin> set keys \<inter> dom (map_of (db_blocks sh))" and d = "location_cache s" and k = k]
    by (auto simp: e(3) domIff)
  have "locate sh' s' k = (if k \<in> set keys \<and> map_of (db_blocks sh) k \<noteq> None then None else locate sh s k)" for k
    by (auto simp: locate_def db c split: option.splits)
  with True e db show ?thesis by simp
next
  case False
  with assms show ?thesis by (auto simp: delete_def Let_def split: if_splits)
qed

text \<open>A process that has looked up one of two stored blocks.\<close>

definition index_shared :: segment_shared where
  "index_shared = \<lparr>db_blocks = [(''a'', \<lparr>segment_id = 0, offset = 0, loc_length = 2\<rparr>), (''b'', \<lparr>segment_id = 0, offset = 2, loc_length = 2\<rparr>)],
     db_meta = [], seg_files = []\<rparr>"

definition index_store :: segment_store where
  "index_store = \<lparr>block_size = 2, segment_size_bytes = 4, segment_shards = 1,
     location_cache = [(''a'', \<lparr>segment_id = 0, offset = 0, loc_length = 2\<rparr>)], closed = False\<rparr>"

theorem get_locations_correct_witness:
  "fst (contains_many [''b'', ''x'', ''a'', ''b''] index_shared index_store) = [True, False, True, True]"
proof -
  have "keys_distinct index_shared" by code_simp
  moreover have "map (\<lambda>k. locate index_shared index_store k \<noteq> None) [''b'', ''x'', ''a'', ''b''] = [True, False, True, True]" by code_simp
  ultimately show ?thesis using get_locations_correct by metis
qed

theorem delete_correct_witness:
  "fst (delete True [''b'', ''x'', ''b''] index_shared index_store) = Inr {''b''} \<and>
   locate (fst (snd (delete True [''b'', ''x'', ''b''] index_shared index_store)))
     (snd (snd (delete True [''b'', ''x'', ''b''] index_shared index_store))) ''b'' = None"
proof -
  let ?d = "delete True [''b'', ''x'', ''b''] index_shared index_store"
  have d: "?d = (fst ?d, fst (snd ?d), snd (snd ?d))" by simp
  note c = delete_correct [OF d]
  have "dom (map_of (db_blocks index_shared)) = {''a'', ''b''}" by (auto simp: index_shared_def split: if_splits)
  then have "fst ?d = Inr {''b''}" using c by auto
  moreover have "map_of (db_blocks index_shared) ''b'' \<noteq> None" by (simp add: index_shared_def)
  ultimately show ?thesis using c by auto
qed

end
