(* ===== verification/Segment_Alloc.thy ===== *)
theory Segment_Alloc
  imports Segment_Index
begin

text \<open>
  Allocation in segment files: however many processes with whatever numbers of shards, block
  and segment sizes prepare stores on one index, no two allocated extents overlap and no
  space is ever allocated twice, so that every location that was ever handed out stays valid.
\<close>

section \<open>Extents\<close>

record extent =
  ex_seg :: nat
  ex_start :: nat
  ex_end :: nat

definition overlap :: "extent \<Rightarrow> extent \<Rightarrow> bool" where
  "overlap x y \<longleftrightarrow> ex_seg x = ex_seg y \<and> ex_start x < ex_end y \<and> ex_start y < ex_end x"

definition extent_of :: "nat \<Rightarrow> segment_write \<Rightarrow> extent" where
  "extent_of bs e = \<lparr>ex_seg = sw_segment_id e, ex_start = sw_offset e, ex_end = sw_offset e + bs\<rparr>"

definition loc_extent :: "segment_location \<Rightarrow> extent" where
  "loc_extent l = \<lparr>ex_seg = segment_id l, ex_start = offset l, ex_end = offset l + loc_length l\<rparr>"

abbreviation no_overlap :: "extent list \<Rightarrow> bool" where
  "no_overlap xs \<equiv> sorted_wrt (\<lambda>x y. \<not> overlap x y) xs"

text \<open>
  The allocator's invariant, for the shards \<open>A\<close> (as segment and fill level), the shards \<open>F\<close>
  that this process does not use, and the extents \<open>xs\<close> allocated so far: the segments in
  use are different, below \<open>next\<close>, and filled at least up to what was allocated in them.
\<close>

definition filled :: "(nat \<times> nat) set \<Rightarrow> nat \<Rightarrow> extent \<Rightarrow> bool" where
  "filled S next_id x \<longleftrightarrow> ex_seg x < next_id \<and> (\<forall>(sid, off) \<in> S. ex_seg x = sid \<longrightarrow> ex_end x \<le> off)"

definition alloc_ok :: "(nat \<times> nat) set \<Rightarrow> (nat \<times> nat) list \<Rightarrow> nat \<Rightarrow> extent list \<Rightarrow> bool" where
  "alloc_ok F A next_id xs \<longleftrightarrow>
     distinct (map fst A) \<and> fst ` set A \<inter> fst ` F = {} \<and> (\<forall>sid \<in> fst ` (set A \<union> F). sid < next_id) \<and>
     (\<forall>x \<in> set xs. filled (set A \<union> F) next_id x) \<and> no_overlap xs"

lemma alloc_okD:
  assumes "alloc_ok F A next_id xs"
  shows "distinct (map fst A)" "fst ` set A \<inter> fst ` F = {}" "\<And>sid. sid \<in> fst ` (set A \<union> F) \<Longrightarrow> sid < next_id"
    "\<And>x. x \<in> set xs \<Longrightarrow> filled (set A \<union> F) next_id x" "no_overlap xs"
  using assms unfolding alloc_ok_def by blast+

text \<open>A fresh segment for a new shard.\<close>

lemma alloc_ok_fresh:
  assumes "alloc_ok F A next_id xs"
  shows "alloc_ok F (A @ [(next_id, 0)]) (next_id + 1) xs"
proof -
  note ok = alloc_okD [OF assms]
  have "filled (set (A @ [(next_id, 0)]) \<union> F) (next_id + 1) x" if "x \<in> set xs" for x
    using ok(4) [OF that] by (auto simp: filled_def)
  moreover have "next_id \<notin> fst ` (set A \<union> F)" using ok(3) by blast
  moreover have "sid < next_id + 1" if "sid \<in> fst ` (set (A @ [(next_id, 0)]) \<union> F)" for sid
  proof -
    from that have "sid = next_id \<or> sid \<in> fst ` (set A \<union> F)" by auto
    then show ?thesis using ok(3) [of sid] by linarith
  qed
  ultimately show ?thesis
    using ok(1,2,5) unfolding alloc_ok_def by auto
qed

text \<open>Moving the shard \<open>p\<close> from \<open>F\<close> to \<open>A\<close>.\<close>

lemma alloc_ok_adopt:
  assumes "alloc_ok F A next_id xs" "p \<in> F" "\<And>q. q \<in> F \<Longrightarrow> fst q = fst p \<Longrightarrow> q = p"
  shows "alloc_ok (F - {p}) (A @ [p]) next_id xs"
proof -
  have u: "set (A @ [p]) \<union> (F - {p}) = set A \<union> F" using assms(2) by auto
  have "fst p \<notin> fst ` set A" using alloc_okD(2) [OF assms(1)] assms(2) by auto
  moreover have "fst p \<notin> fst ` (F - {p})" using assms(3) by force
  moreover have "fst ` set A \<inter> fst ` (F - {p}) = {}" using alloc_okD(2) [OF assms(1)] by blast
  ultimately show ?thesis using alloc_okD [OF assms(1)] unfolding alloc_ok_def u by auto
qed

text \<open>
  Allocating one block in shard \<open>i\<close>: a full segment is replaced by the next free one, and the
  extent is appended to the shard's segment.
\<close>

lemma filled_mono:
  assumes "filled S n x" "n \<le> n'" "\<And>q. q \<in> S' \<Longrightarrow> fst q = ex_seg x \<Longrightarrow> \<exists>r \<in> S. fst r = fst q \<and> snd r \<le> snd q"
  shows "filled S' n' x"
  unfolding filled_def
proof (intro conjI ballI, goal_cases)
  case (2 q)
  have "ex_end x \<le> snd q" if "ex_seg x = fst q"
    using assms(3) [OF 2 that [symmetric]] assms(1) that by (fastforce simp: filled_def)
  then show ?case by (cases q) simp
qed (use assms(1,2) in \<open>auto simp: filled_def\<close>)

lemma alloc_ok_roll:
  assumes "alloc_ok F A n xs"
  shows "alloc_ok F (A[i := (n, 0)]) (n + 1) xs"
proof -
  note ok = alloc_okD [OF assms]
  let ?A = "A[i := (n, 0)]"
  have new: "n \<notin> fst ` (set A \<union> F)" using ok(3) by blast
  have mem: "q = (n, 0) \<or> q \<in> set A" if "q \<in> set ?A" for q
    using that set_update_subset_insert [of A i "(n, 0)"] by blast
  have "distinct (map fst ?A)"
    unfolding map_update using new by (intro distinct_list_update [OF ok(1)]) auto
  moreover have "fst ` set ?A \<subseteq> insert n (fst ` set A)" using mem by force
  then have "fst ` set ?A \<inter> fst ` F = {}" using ok(2) new by blast
  moreover have "sid < n + 1" if "sid \<in> fst ` (set ?A \<union> F)" for sid
    using that mem ok(3) [of sid] by fastforce
  moreover have "filled (set ?A \<union> F) (n + 1) x" if "x \<in> set xs" for x
  proof (rule filled_mono [OF ok(4) [OF that]])
    fix q assume q: "q \<in> set ?A \<union> F" "fst q = ex_seg x"
    then have "q \<noteq> (n, 0)" using ok(4) [OF that] by (auto simp: filled_def)
    with q mem show "\<exists>r \<in> set A \<union> F. fst r = fst q \<and> snd r \<le> snd q" by blast
  qed simp
  ultimately show ?thesis using ok(5) unfolding alloc_ok_def by blast
qed

lemma alloc_ok_extend:
  assumes ok: "alloc_ok F A n xs" and i: "i < length A" "A ! i = (sid, off)"
  shows "alloc_ok F (A[i := (sid, off + bs)]) n (xs @ [\<lparr>ex_seg = sid, ex_start = off, ex_end = off + bs\<rparr>])"
    (is "alloc_ok F ?A n (xs @ [?x])")
proof -
  note ok' = alloc_okD [OF ok]
  have mem: "(sid, off) \<in> set A" using nth_mem [OF i(1)] i(2) by simp
  have keys: "map fst ?A = map fst A" using list_update_id [of "map fst A" i] i by (simp add: map_update)
  then have fsts: "fst ` set ?A = fst ` set A" by (metis set_map)
  have old: "q = (sid, off + bs) \<or> q \<in> set A" if "q \<in> set ?A" for q
    using that set_update_subset_insert [of A i "(sid, off + bs)"] by blast
  have "\<exists>r \<in> set A \<union> F. fst r = fst q \<and> snd r \<le> snd q" if "q \<in> set ?A \<union> F" for q
    using that old [of q] mem by force
  then have kept: "filled (set ?A \<union> F) n x" if "x \<in> set xs" for x
    using filled_mono [OF ok'(4) [OF that]] by blast
  have "(sid, off + bs) \<in> set ?A" using i by (simp add: set_update_memI)
  then have "q = (sid, off + bs)" if "q \<in> set ?A \<union> F" "fst q = sid" for q
    using that ok'(2) fsts keys ok'(1) by (metis Int_iff UnE empty_iff eq_key_imp_eq_value fst_conv imageI prod.collapse)
  then have new: "filled (set ?A \<union> F) n ?x" using ok'(3) [of sid] mem by (force simp: filled_def)
  have "\<not> overlap x ?x" if "x \<in> set xs" for x
  proof -
    have "ex_seg x = sid \<longrightarrow> ex_end x \<le> off" using ok'(4) [OF that] mem by (fastforce simp: filled_def)
    then show ?thesis by (auto simp: overlap_def)
  qed
  with ok'(5) have "no_overlap (xs @ [?x])" by (simp add: sorted_wrt_append)
  moreover have "filled (set ?A \<union> F) n x" if "x \<in> set (xs @ [?x])" for x using that kept new by auto
  ultimately show ?thesis using ok'(1-3) unfolding alloc_ok_def keys image_Un fsts by blast
qed

lemma alloc_ok_place:
  assumes "alloc_ok F A next_id xs" "i < length A"
    and "(sid, off, next') = (if limit < snd (A ! i) + bs then (next_id, 0, next_id + 1) else (fst (A ! i), snd (A ! i), next_id))"
  shows "alloc_ok F (A[i := (sid, off + bs)]) next' (xs @ [\<lparr>ex_seg = sid, ex_start = off, ex_end = off + bs\<rparr>])"
proof (cases "limit < snd (A ! i) + bs")
  case True
  then show ?thesis
    using alloc_ok_extend [OF alloc_ok_roll [OF assms(1), of i], of i] assms(2,3) by simp
next
  case False
  then show ?thesis using alloc_ok_extend [OF assms(1,2)] assms(3) by simp
qed

section \<open>The state in the database\<close>

text \<open>The shards of the metadata from index \<open>m\<close> on.\<close>

definition meta_shards :: "nat \<Rightarrow> segment_shared \<Rightarrow> (nat \<times> nat) set" where
  "meta_shards m sh = {(sid, off). \<exists>i \<ge> m. map_of (db_meta sh) (ShardSegmentId i) = Some sid \<and>
     map_of (db_meta sh) (ShardSegmentOffset i) = Some off}"

text \<open>
  What a database can look like: with shard state, the shards have different segments below
  the next free one, filled at least up to what is allocated in them; without, everything
  allocated lies before the latest segment's end.
\<close>

definition shards_ok :: "segment_shared \<Rightarrow> bool" where
  "shards_ok sh \<longleftrightarrow>
     (\<forall>i. map_of (db_meta sh) (ShardSegmentId i) = None \<longleftrightarrow> map_of (db_meta sh) (ShardSegmentOffset i) = None) \<and>
     (\<forall>i j sid. map_of (db_meta sh) (ShardSegmentId i) = Some sid \<and> map_of (db_meta sh) (ShardSegmentId j) = Some sid \<longrightarrow> i = j) \<and>
     (\<not> has_shard_state sh \<longrightarrow> (\<forall>i. map_of (db_meta sh) (ShardSegmentId i) = None)) \<and>
     distinct (map fst (db_meta sh))"

definition db_alloc_ok :: "segment_shared \<Rightarrow> extent list \<Rightarrow> bool" where
  "db_alloc_ok sh xs \<longleftrightarrow> shards_ok sh \<and>
     (if has_shard_state sh then alloc_ok (meta_shards 0 sh) [] (dict_get (db_meta sh) NextSegmentId 0) xs
      else no_overlap xs \<and> (\<forall>x \<in> set xs. ex_seg x \<le> fst (latest_segment sh) \<and>
              (ex_seg x = fst (latest_segment sh) \<longrightarrow> ex_end x \<le> snd (latest_segment sh))))"

lemma meta_shards_step:
  "meta_shards m sh =
     (case (map_of (db_meta sh) (ShardSegmentId m), map_of (db_meta sh) (ShardSegmentOffset m)) of
        (Some sid, Some off) \<Rightarrow> insert (sid, off) (meta_shards (Suc m) sh)
      | _ \<Rightarrow> meta_shards (Suc m) sh)"
  by (auto simp: meta_shards_def le_Suc_eq Suc_le_eq nat_less_le split: option.splits)

lemma alloc_ok_mono: "alloc_ok F A n xs \<Longrightarrow> n \<le> n' \<Longrightarrow> alloc_ok F A n' xs"
  by (force simp: alloc_ok_def filled_def)

lemma shards_okD:
  assumes "shards_ok sh"
  shows "map_of (db_meta sh) (ShardSegmentId i) = None \<longleftrightarrow> map_of (db_meta sh) (ShardSegmentOffset i) = None"
    "map_of (db_meta sh) (ShardSegmentId i) = Some sid \<Longrightarrow> map_of (db_meta sh) (ShardSegmentId j) = Some sid \<Longrightarrow> i = j"
    "\<not> has_shard_state sh \<Longrightarrow> map_of (db_meta sh) (ShardSegmentId i) = None"
    "distinct (map fst (db_meta sh))"
  using assms unfolding shards_ok_def by blast+

lemma meta_shards_other:
  assumes "shards_ok sh" "map_of (db_meta sh) (ShardSegmentId m) = Some sid" "q \<in> meta_shards (Suc m) sh"
  shows "fst q \<noteq> sid"
  using assms unfolding shards_ok_def meta_shards_def by fastforce

definition legacy_ok :: "segment_shared \<Rightarrow> nat \<Rightarrow> extent list \<Rightarrow> bool" where
  "legacy_ok sh n xs \<longleftrightarrow> fst (latest_segment sh) < n \<and>
     (\<forall>x \<in> set xs. ex_seg x = fst (latest_segment sh) \<longrightarrow> ex_end x \<le> snd (latest_segment sh))"

lemma shard_step_ok:
  assumes sh: "shards_ok sh" and ok: "alloc_ok (meta_shards m sh) A n xs" "length A = m"
    and legacy: "\<not> has_shard_state sh \<Longrightarrow> m = 0 \<Longrightarrow> legacy_ok sh n xs"
    and r: "shard_step sh m (A, n) = (A', n')"
  shows "alloc_ok (meta_shards (Suc m) sh) A' n' xs \<and> length A' = Suc m"
proof (cases "map_of (db_meta sh) (ShardSegmentId m)")
  case None
  then have F: "meta_shards m sh = meta_shards (Suc m) sh" by (subst meta_shards_step) simp
  show ?thesis
  proof (cases "m = 0 \<and> \<not> has_shard_state sh")
    case True
    with r None have e: "A' = [latest_segment sh]" "n' = max n (fst (latest_segment sh) + 1)"
      using ok(2) by (simp_all add: shard_step_def)
    have "meta_shards (Suc m) sh = {}" using True sh by (auto simp: meta_shards_def shards_ok_def)
    moreover have "legacy_ok sh n xs" using legacy True by blast
    ultimately show ?thesis
      using alloc_okD(4,5) [OF ok(1)] True ok(2)
      by (cases "latest_segment sh") (auto simp: e alloc_ok_def filled_def legacy_ok_def less_max_iff_disj)
  next
    case False
    with r None have "A' = A @ [(n, 0)]" "n' = n + 1" by (auto simp: shard_step_def)
    with ok alloc_ok_fresh show ?thesis by (simp add: F)
  qed
next
  case (Some sid)
  with sh obtain off where off: "map_of (db_meta sh) (ShardSegmentOffset m) = Some off"
    using shards_okD(1) [OF sh, of m] by (cases "map_of (db_meta sh) (ShardSegmentOffset m)") auto
  have F: "meta_shards m sh = insert (sid, off) (meta_shards (Suc m) sh)"
    by (subst meta_shards_step) (simp add: Some off)
  have other: "fst q \<noteq> sid" if "q \<in> meta_shards (Suc m) sh" for q
    by (rule meta_shards_other [OF sh Some that])
  then have "(sid, off) \<notin> meta_shards (Suc m) sh" by force
  then have F': "meta_shards m sh - {(sid, off)} = meta_shards (Suc m) sh" by (simp add: F)
  have "alloc_ok (meta_shards m sh - {(sid, off)}) (A @ [(sid, off)]) n xs"
    by (rule alloc_ok_adopt [OF ok(1)]) (use F other in auto)
  moreover have "A' = A @ [(sid, off)]" "n' = n" using r Some off by (simp_all add: shard_step_def)
  ultimately show ?thesis using ok(2) by (simp add: F')
qed

lemma shards_fold_ok:
  assumes sh: "shards_ok sh" and ok: "alloc_ok (meta_shards 0 sh) [] n xs"
    and legacy: "\<not> has_shard_state sh \<Longrightarrow> legacy_ok sh n xs"
    and r: "fold (shard_step sh) [0..<m] ([], n) = (A, n')"
  shows "alloc_ok (meta_shards m sh) A n' xs \<and> length A = m"
  using r
proof (induction m arbitrary: A n')
  case (Suc m)
  obtain A1 n1 where 1: "fold (shard_step sh) [0..<m] ([], n) = (A1, n1)" by fastforce
  from Suc.IH [OF this] have a: "alloc_ok (meta_shards m sh) A1 n1 xs" "length A1 = m" by simp_all
  have l: "legacy_ok sh n1 xs" if "\<not> has_shard_state sh" "m = 0" using legacy that 1 by simp
  from Suc.prems 1 have "shard_step sh m (A1, n1) = (A, n')" by simp
  from shard_step_ok [OF sh a l this] show ?case by simp
qed (use ok in simp)

lemma first_free_ok:
  assumes "db_alloc_ok sh xs"
  shows "alloc_ok (meta_shards 0 sh) [] (first_free_segment sh) xs"
    and "\<not> has_shard_state sh \<Longrightarrow> legacy_ok sh (first_free_segment sh) xs"
proof -
  have free: "fst (latest_segment sh) < first_free_segment sh" if "\<not> has_shard_state sh"
    using that by (simp add: first_free_segment_def existing_segment_ids_def)
  show "alloc_ok (meta_shards 0 sh) [] (first_free_segment sh) xs"
  proof (cases "has_shard_state sh")
    case True
    then show ?thesis
      using assms alloc_ok_mono [of "meta_shards 0 sh" "[]" "dict_get (db_meta sh) NextSegmentId 0" xs]
      by (simp add: db_alloc_ok_def first_free_segment_def)
  next
    case False
    then have "meta_shards 0 sh = {}"
      using assms shards_okD(3) [of sh] by (auto simp: db_alloc_ok_def meta_shards_def)
    moreover have "ex_seg x < first_free_segment sh" if "x \<in> set xs" for x
    proof -
      have "ex_seg x \<le> fst (latest_segment sh)" using assms False that by (simp add: db_alloc_ok_def)
      then show ?thesis using free [OF False] by simp
    qed
    moreover have "no_overlap xs" using assms False by (simp add: db_alloc_ok_def)
    ultimately show ?thesis by (simp add: alloc_ok_def filled_def)
  qed
  show "legacy_ok sh (first_free_segment sh) xs" if "\<not> has_shard_state sh"
    using that assms free by (simp add: legacy_ok_def db_alloc_ok_def)
qed

lemma allocation_state_ok:
  assumes "db_alloc_ok sh xs" "allocation_state sh s = (A, n, cursor)" "0 < segment_shards s"
  shows "alloc_ok (meta_shards (segment_shards s) sh) A n xs" "length A = segment_shards s" "cursor < segment_shards s"
proof -
  obtain A' n' where f: "fold (shard_step sh) [0..<segment_shards s] ([], first_free_segment sh) = (A', n')" by fastforce
  have "shards_ok sh" using assms(1) by (simp add: db_alloc_ok_def)
  from shards_fold_ok [OF this first_free_ok [OF assms(1)] f] assms(2,3) f
  show "alloc_ok (meta_shards (segment_shards s) sh) A n xs" "length A = segment_shards s" "cursor < segment_shards s"
    by (auto simp: allocation_state_def)
qed

section \<open>Placing the blocks of a store\<close>

lemma place_block_ok:
  assumes ok: "alloc_ok F A n xs" and len: "length A = segment_shards s" "0 < segment_shards s"
    and B: "length B = segment_shards s"
    and r: "place_block s cursor (index, k, b) (A, n, B) = (A', n', B')"
  obtains e where "sw_key e = k" "sw_block_id e = b"
    "alloc_ok F A' n' (xs @ [extent_of (block_size s) e])"
    "B' = B[(cursor + index) mod segment_shards s := B ! ((cursor + index) mod segment_shards s) @ [e]]"
    "length A' = length A" "block_size s \<le> segment_size_bytes s \<Longrightarrow> ex_end (extent_of (block_size s) e) \<le> segment_size_bytes s"
proof -
  let ?i = "(cursor + index) mod segment_shards s"
  have i: "?i < length A" using len by simp
  obtain sid off where so: "(sid, off, n') = (if segment_size_bytes s < snd (A ! ?i) + block_size s then (n, 0, n + 1)
      else (fst (A ! ?i), snd (A ! ?i), n))"
    and A': "A' = A[?i := (sid, off + block_size s)]"
    and B': "B' = B[?i := B ! ?i @ [\<lparr>sw_key = k, sw_segment_id = sid, sw_offset = off, sw_block_id = b\<rparr>]]"
    using r by (auto simp: place_block_def Let_def case_prod_beta split: if_splits)
  let ?e = "\<lparr>sw_key = k, sw_segment_id = sid, sw_offset = off, sw_block_id = b\<rparr>"
  show thesis
  proof (rule that [of ?e])
    show "alloc_ok F A' n' (xs @ [extent_of (block_size s) ?e])"
      using alloc_ok_place [OF ok i so] by (simp add: A' extent_of_def)
    show "ex_end (extent_of (block_size s) ?e) \<le> segment_size_bytes s" if "block_size s \<le> segment_size_bytes s"
      using that so by (auto simp: extent_of_def split: if_splits)
  qed (simp_all add: A' B')
qed

lemma mset_concat_update:
  "i < length B \<Longrightarrow> mset (concat (B[i := B ! i @ [e]])) = add_mset e (mset (concat B))"
  by (induction B arbitrary: i) (auto split: nat.splits)

text \<open>The blocks of \<open>us\<close>, numbered from \<open>m\<close>, in the order they are placed.\<close>

definition plan_ok :: "segment_store \<Rightarrow> (offload_key \<times> nat) list \<Rightarrow> segment_write list \<Rightarrow> bool" where
  "plan_ok s us es \<longleftrightarrow> map (\<lambda>e. (sw_key e, sw_block_id e)) es = us \<and>
     (block_size s \<le> segment_size_bytes s \<longrightarrow> (\<forall>e \<in> set es. ex_end (extent_of (block_size s) e) \<le> segment_size_bytes s))"

lemma place_fold_ok:
  assumes "alloc_ok F A n xs" "length A = segment_shards s" "0 < segment_shards s" "length B = segment_shards s"
    and "fold (place_block s cursor) (enumerate m us) (A, n, B) = (A', n', B')"
  shows "\<exists>es. plan_ok s us es \<and> alloc_ok F A' n' (xs @ map (extent_of (block_size s)) es) \<and>
    mset (concat B') = mset (concat B) + mset es \<and> length A' = segment_shards s"
  using assms
proof (induction us arbitrary: m A n B xs)
  case Nil
  then show ?case by (intro exI [of _ "[]"]) (simp add: plan_ok_def)
next
  case (Cons u us)
  obtain k b where u: "u = (k, b)" by (cases u)
  obtain A1 n1 B1 where 1: "place_block s cursor (m, k, b) (A, n, B) = (A1, n1, B1)" by (metis prod_cases3)
  from place_block_ok [OF Cons.prems(1-4) 1] obtain e where e: "sw_key e = k" "sw_block_id e = b"
    "alloc_ok F A1 n1 (xs @ [extent_of (block_size s) e])"
    "B1 = B[(cursor + m) mod segment_shards s := B ! ((cursor + m) mod segment_shards s) @ [e]]"
    "length A1 = length A" "block_size s \<le> segment_size_bytes s \<Longrightarrow> ex_end (extent_of (block_size s) e) \<le> segment_size_bytes s"
    by blast
  have "(cursor + m) mod segment_shards s < length B" using Cons.prems(3,4) by simp
  from mset_concat_update [OF this, of e] have B1: "mset (concat B1) = add_mset e (mset (concat B))" by (simp only: e(4))
  have l: "length A1 = segment_shards s" "length B1 = segment_shards s" using e(4,5) Cons.prems(2,4) by simp_all
  have "fold (place_block s cursor) (enumerate (Suc m) us) (A1, n1, B1) = (A', n', B')"
    using Cons.prems(5) 1 by (simp add: u)
  from Cons.IH [OF e(3) l(1) Cons.prems(3) l(2) this] obtain es where es: "plan_ok s us es"
    "alloc_ok F A' n' ((xs @ [extent_of (block_size s) e]) @ map (extent_of (block_size s)) es)"
    "mset (concat B') = mset (concat B1) + mset es" "length A' = segment_shards s"
    by blast
  show ?case
    by (rule exI [of _ "e # es"]) (use es e(1,2,6) B1 u in \<open>simp add: plan_ok_def\<close>)
qed

section \<open>Saving the state\<close>

lemma map_of_enumerate: "map_of (enumerate m xs) i = (if m \<le> i \<and> i < m + length xs then Some (xs ! (i - m)) else None)"
  by (induction xs arbitrary: m) (auto simp: nth_Cons' Suc_diff_Suc)

lemma map_of_renamed:
  "inj f \<Longrightarrow> map_of (map (\<lambda>(i, st). (f i, g st)) d) (f i) = map_option g (map_of d i)"
  by (induction d) (auto simp: inj_eq)

lemma map_of_renamed_other:
  "\<forall>i. f i \<noteq> k \<Longrightarrow> map_of (map (\<lambda>(i, st). (f i, g st)) d) k = None"
  by (induction d) auto

lemma map_of_save_allocation:
  "map_of (save_allocation A n c meta) k =
     (case k of NextSegmentId \<Rightarrow> Some n | ShardCursor \<Rightarrow> Some c
      | ShardSegmentId i \<Rightarrow> if i < length A then Some (fst (A ! i)) else map_of meta k
      | ShardSegmentOffset i \<Rightarrow> if i < length A then Some (snd (A ! i)) else map_of meta k
      | _ \<Rightarrow> map_of meta k)"
proof -
  have i: "inj ShardSegmentId" "inj ShardSegmentOffset" by (simp_all add: inj_def)
  let ?rows = "[(NextSegmentId, n), (ShardCursor, c)] @
        map (\<lambda>(i, st). (ShardSegmentId i, fst st)) (enumerate 0 A) @
        map (\<lambda>(i, st). (ShardSegmentOffset i, snd st)) (enumerate 0 A)"
  have keys: "map fst ?rows = NextSegmentId # ShardCursor # map ShardSegmentId [0..<length A] @ map ShardSegmentOffset [0..<length A]"
    by (simp add: case_prod_beta comp_def flip: map_map [of _ fst, unfolded comp_def])
  have "distinct (map fst ?rows)" unfolding keys by (auto simp: distinct_map inj_on_def)
  from map_of_update_all [OF this, of meta k] show ?thesis
    unfolding save_allocation_def
    by (cases k) (auto simp: map_add_def map_of_renamed [OF i(1)] map_of_renamed [OF i(2)]
        map_of_renamed_other map_of_enumerate split: option.splits)
qed

text \<open>The whole of \<open>prepare_store\<close>: what it returns and the state it leaves.\<close>

lemma meta_shards_saved:
  assumes A: "length A = m" and sh': "db_meta sh' = save_allocation A n c (db_meta sh)"
  shows "meta_shards 0 sh' = set A \<union> meta_shards m sh"
proof -
  have "p \<in> meta_shards 0 sh' \<longleftrightarrow> (\<exists>i < m. p = A ! i) \<or> p \<in> meta_shards m sh" for p
  proof
    assume "p \<in> meta_shards 0 sh'"
    then obtain i where i: "map_of (db_meta sh') (ShardSegmentId i) = Some (fst p)"
      "map_of (db_meta sh') (ShardSegmentOffset i) = Some (snd p)" by (auto simp: meta_shards_def)
    show "(\<exists>i < m. p = A ! i) \<or> p \<in> meta_shards m sh"
    proof (cases "i < m")
      case True
      with i have "p = A ! i" by (simp add: sh' map_of_save_allocation A prod_eq_iff)
      with True show ?thesis by blast
    next
      case False
      with i have "p \<in> meta_shards m sh"
        by (auto simp: sh' map_of_save_allocation A meta_shards_def case_prod_beta intro!: exI [of _ i])
      then show ?thesis ..
    qed
  next
    assume "(\<exists>i < m. p = A ! i) \<or> p \<in> meta_shards m sh"
    then obtain i where "map_of (db_meta sh') (ShardSegmentId i) = Some (fst p)"
      "map_of (db_meta sh') (ShardSegmentOffset i) = Some (snd p)"
    proof
      assume "\<exists>i < m. p = A ! i"
      then obtain i where "i < m" "p = A ! i" by blast
      then show thesis using that [of i] by (simp add: sh' map_of_save_allocation A)
    next
      assume "p \<in> meta_shards m sh"
      then obtain i where "m \<le> i" "map_of (db_meta sh) (ShardSegmentId i) = Some (fst p)"
        "map_of (db_meta sh) (ShardSegmentOffset i) = Some (snd p)" by (auto simp: meta_shards_def)
      then show thesis using that [of i] by (simp add: sh' map_of_save_allocation A)
    qed
    then show "p \<in> meta_shards 0 sh'" by (auto simp: meta_shards_def case_prod_beta)
  qed
  moreover have "(\<exists>i < m. p = A ! i) \<longleftrightarrow> p \<in> set A" for p by (metis A in_set_conv_nth)
  ultimately show ?thesis by blast
qed

lemma saved_shards_ok:
  assumes sh: "shards_ok sh" and ok: "alloc_ok (meta_shards m sh) A n xs" and A: "length A = m" "0 < m"
    and sh': "db_meta sh' = save_allocation A n c (db_meta sh)"
  shows "shards_ok sh'"
  unfolding shards_ok_def
proof (intro conjI allI impI)
  note saved = map_of_save_allocation [of A n c "db_meta sh", folded sh']
  show "map_of (db_meta sh') (ShardSegmentId i) = None \<longleftrightarrow> map_of (db_meta sh') (ShardSegmentOffset i) = None" for i
    using shards_okD(1) [OF sh, of i] by (simp add: saved)
  have foreign: "fst (A ! i) \<noteq> sid"
    if i: "i < m" "\<not> j < m" "map_of (db_meta sh) (ShardSegmentId j) = Some sid" for i j sid
  proof -
    obtain off where "map_of (db_meta sh) (ShardSegmentOffset j) = Some off"
      using shards_okD(1) [OF sh, of j] i(3) by (cases "map_of (db_meta sh) (ShardSegmentOffset j)") auto
    with i have "(sid, off) \<in> meta_shards m sh" by (auto simp: meta_shards_def intro!: exI [of _ j])
    then have "sid \<in> fst ` meta_shards m sh" by force
    moreover have "fst (A ! i) \<in> fst ` set A" using i(1) A by simp
    ultimately show ?thesis using alloc_okD(2) [OF ok] by auto
  qed
  show "i = j" if "map_of (db_meta sh') (ShardSegmentId i) = Some sid \<and> map_of (db_meta sh') (ShardSegmentId j) = Some sid" for i j sid
    using that foreign [of i j sid] foreign [of j i sid] shards_okD(2) [OF sh, of i sid j] A
      nth_eq_iff_index_eq [OF alloc_okD(1) [OF ok], of i j]
    by (auto simp: saved split: if_splits)
  have "has_shard_state sh'" using A by (simp add: has_shard_state_def saved)
  then show "map_of (db_meta sh') (ShardSegmentId i) = None" if "\<not> has_shard_state sh'" for i using that by simp
  show "distinct (map fst (db_meta sh'))"
    using shards_okD(4) [OF sh] by (simp add: sh' save_allocation_def distinct_update_all del: update_all_simps)
qed

lemma save_ok:
  assumes db: "db_alloc_ok sh xs" and ok: "alloc_ok (meta_shards m sh) A n ys" and A: "length A = m" "0 < m"
    and sh': "db_meta sh' = save_allocation A n c (db_meta sh)"
  shows "db_alloc_ok sh' ys"
proof -
  have sh: "shards_ok sh" using db by (simp add: db_alloc_ok_def)
  note saved = map_of_save_allocation [of A n c "db_meta sh", folded sh']
  have "has_shard_state sh'" using A by (simp add: has_shard_state_def saved)
  moreover have "dict_get (db_meta sh') NextSegmentId 0 = n" by (simp add: dict_get_def saved)
  moreover have "alloc_ok (set A \<union> meta_shards m sh) [] n ys"
    using alloc_okD [OF ok] by (simp add: alloc_ok_def)
  ultimately show ?thesis
    using saved_shards_ok [OF sh ok A sh'] meta_shards_saved [OF A(1) sh'] by (simp add: db_alloc_ok_def)
qed

lemma locate_cong: "db_blocks sh' = db_blocks sh \<Longrightarrow> locate sh' s = locate sh s"
  by (simp add: fun_eq_iff locate_def cong: option.case_cong)

text \<open>The fate of one call: an error or nothing to store, or a plan for the missing keys.\<close>

definition uniq_keys :: "offload_key list \<Rightarrow> nat list \<Rightarrow> segment_shared \<Rightarrow> segment_store \<Rightarrow> (offload_key \<times> nat) list" where
  "uniq_keys keys block_ids sh s = unstored keys block_ids (map (\<lambda>k. locate sh s k \<noteq> None) keys)"

lemma lookup_store:
  assumes kd: "keys_distinct sh" and s1: "s1 = snd (get_locations keys sh s)"
  shows "s1 = s\<lparr>location_cache := location_cache s1\<rparr>" "locate sh s1 k = locate sh s k"
    "segment_shards s1 = segment_shards s" "block_size s1 = block_size s" "segment_size_bytes s1 = segment_size_bytes s"
proof -
  show e: "s1 = s\<lparr>location_cache := location_cache s1\<rparr>"
    unfolding s1 by (rule get_locations_spec(3) [OF kd])
  show "locate sh s1 k = locate sh s k"
    unfolding s1 by (rule locate_after_lookup [OF kd])
  show "segment_shards s1 = segment_shards s" "block_size s1 = block_size s" "segment_size_bytes s1 = segment_size_bytes s"
    by (subst e, simp)+
qed

text \<open>The transaction that allocates the missing blocks, and saves the allocator's state.\<close>

lemma prepare_store_allocates:
  assumes kd: "keys_distinct sh" and db: "db_alloc_ok sh xs" and n: "0 < segment_shards s"
    and us: "length keys = length block_ids" "uniq_keys keys block_ids sh s \<noteq> []"
    and p: "prepare_store True keys block_ids sh s = (r, sh', s')"
  obtains es plan meta where "r = Inr plan" "s' = snd (get_locations keys sh s)" "sh' = sh\<lparr>db_meta := meta\<rparr>"
    "plan_ok s (uniq_keys keys block_ids sh s) es" "mset plan = mset es"
    "db_alloc_ok sh' (xs @ map (extent_of (block_size s)) es)" "has_shard_state sh'"
proof -
  let ?s = "snd (get_locations keys sh s)" and ?us = "uniq_keys keys block_ids sh s"
  note sizes = lookup_store(3-5) [OF kd refl, of keys s]
  have ne: "keys \<noteq> []" using us by (auto simp: uniq_keys_def unstored_def)
  obtain A n0 cursor where al: "allocation_state sh ?s = (A, n0, cursor)" by (metis prod_cases3)
  obtain A' n' B' where f: "fold (place_block ?s cursor) (enumerate 0 ?us) (A, n0, replicate (segment_shards s) []) = (A', n', B')"
    by (metis prod_cases3)
  have n': "0 < segment_shards ?s" using n sizes by simp
  note ao = allocation_state_ok [OF db al n']
  obtain es where es: "plan_ok s ?us es" "mset (concat B') = mset es" "length A' = segment_shards s"
    "alloc_ok (meta_shards (segment_shards s) sh) A' n' (xs @ map (extent_of (block_size s)) es)"
    using place_fold_ok [OF ao(1,2) n' _ f] by (auto simp: sizes plan_ok_def)
  let ?meta = "save_allocation A' n' ((cursor + length ?us) mod segment_shards s) (db_meta sh)"
  have r: "r = Inr (concat B')" "sh' = sh\<lparr>db_meta := ?meta\<rparr>" "s' = ?s"
    using p us ne al f by (auto simp: prepare_store_def contains_many_spec [OF kd] uniq_keys_def sizes)
  have "db_alloc_ok sh' (xs @ map (extent_of (block_size s)) es)"
    by (rule save_ok [OF db es(4,3) n]) (simp add: r)
  moreover have "has_shard_state sh'" using es(3) n by (simp add: r has_shard_state_def map_of_save_allocation)
  ultimately show thesis using that [OF r(1,3,2) es(1)] es(2) by blast
qed

lemma prepare_store_cases:
  assumes kd: "keys_distinct sh" and db: "db_alloc_ok sh xs" and n: "0 < segment_shards s"
    and p: "prepare_store tx keys block_ids sh s = (r, sh', s')"
  shows "s' = s\<lparr>location_cache := location_cache s'\<rparr> \<and> (\<forall>k. locate sh' s' k = locate sh s k) \<and>
    db_blocks sh' = db_blocks sh \<and> seg_files sh' = seg_files sh \<and>
    (r = Inr [] \<and> sh' = sh \<and> length keys = length block_ids \<and> uniq_keys keys block_ids sh s = [] \<or>
     (\<exists>e. r = Inl e) \<and> sh' = sh \<or>
     (\<exists>es plan. r = Inr plan \<and> length keys = length block_ids \<and> plan_ok s (uniq_keys keys block_ids sh s) es \<and>
        mset plan = mset es \<and> db_alloc_ok sh' (xs @ map (extent_of (block_size s)) es) \<and> has_shard_state sh'))"
proof -
  let ?s = "snd (get_locations keys sh s)" and ?us = "uniq_keys keys block_ids sh s"
  note cache = lookup_store(1,2) [OF kd refl, of keys s]
  consider (lengths) "length keys \<noteq> length block_ids" | (empty) "length keys = length block_ids" "keys = []"
    | (stored) "length keys = length block_ids" "keys \<noteq> []" "?us = []"
    | (failed) "length keys = length block_ids" "keys \<noteq> []" "?us \<noteq> []" "\<not> tx"
    | (planned) "length keys = length block_ids" "?us \<noteq> []" "tx"
    by blast
  then show ?thesis
  proof cases
    case stored
    with p have "r = Inr []" "sh' = sh" "s' = ?s"
      by (auto simp: prepare_store_def contains_many_spec [OF kd] uniq_keys_def)
    with stored cache show ?thesis by simp
  next
    case failed
    with p have "\<exists>e. r = Inl e" "sh' = sh" "s' = ?s"
      by (auto simp: prepare_store_def contains_many_spec [OF kd] uniq_keys_def Let_def split: prod.splits)
    with cache show ?thesis by simp
  next
    case planned
    then have p': "prepare_store True keys block_ids sh s = (r, sh', s')" using p by simp
    obtain es plan meta where e: "r = Inr plan" "s' = ?s" "sh' = sh\<lparr>db_meta := meta\<rparr>"
      "plan_ok s ?us es" "mset plan = mset es" "db_alloc_ok sh' (xs @ map (extent_of (block_size s)) es)" "has_shard_state sh'"
      by (rule prepare_store_allocates [OF kd db n planned(1,2) p'])
    moreover have "locate sh' s' k = locate sh s k" for k using cache(2) [of k] locate_cong [of sh' sh] by (simp add: e(2,3))
    ultimately show ?thesis using planned(1) cache(1) by auto
  qed (use p in \<open>auto simp: prepare_store_def uniq_keys_def unstored_def\<close>)
qed

end
