(* ===== verification/Segment_Policy.thy ===== *)
theory Segment_Policy
  imports Segment_Alloc
begin

text \<open>
  What preparing and completing stores promises, for one call on any database and for any
  sequence of calls by several processes on one database.
\<close>

section \<open>Extents in any order\<close>

lemma overlap_sym: "overlap x y \<longleftrightarrow> overlap y x"
  by (auto simp: overlap_def)

lemma no_overlap_perm:
  assumes "mset xs = mset ys" "no_overlap xs"
  shows "no_overlap ys"
  using assms
proof (induction xs arbitrary: ys)
  case (Cons x xs)
  then have "x \<in> set ys" by (metis list.set_intros(1) mset_eq_setD)
  then obtain a b where ys: "ys = a @ x # b" by (meson split_list)
  with Cons.prems(1) have m: "mset xs = mset (a @ b)" by simp
  with Cons have "no_overlap (a @ b)" by simp
  moreover have "\<not> overlap x y" if "y \<in> set (a @ b)" for y
    using Cons.prems(2) that mset_eq_setD [OF m] by auto
  ultimately show ?case using overlap_sym by (auto simp: ys sorted_wrt_append)
qed simp

lemma no_overlap_different:
  assumes "no_overlap (map f xs)" "x \<in> set xs" "y \<in> set xs" "x \<noteq> y"
  shows "\<not> overlap (f x) (f y)"
proof -
  obtain i j where ij: "i < length xs" "j < length xs" "x = xs ! i" "y = xs ! j"
    using assms(2,3) by (auto simp: in_set_conv_nth)
  with assms(4) have "i \<noteq> j" by auto
  then consider "i < j" | "j < i" by linarith
  then show ?thesis
    using assms(1) ij overlap_sym [of "f x" "f y"] by cases (auto simp: sorted_wrt_iff_nth_less)
qed

section \<open>Preparing a store\<close>

lemma fst_in_unstored:
  "map_of (unstored keys block_ids ex) k = Some b \<longleftrightarrow>
     map_of (filter (\<lambda>(k, _). True) (map (\<lambda>(k, b, _). (k, b)) (filter (\<lambda>(k, b, e). \<not> e) (zip keys (zip block_ids ex))))) k = Some b"
proof -
  have "map_of (fold (\<lambda>(k, b, e) d. if \<not> e \<and> map_of d k = None then AList.update k b d else d) zs d) k =
      (case map_of d k of Some b \<Rightarrow> Some b
       | None \<Rightarrow> map_of (map (\<lambda>(k, b, _). (k, b)) (filter (\<lambda>(k, b, e). \<not> e) zs)) k)"
    for zs :: "(offload_key \<times> nat \<times> bool) list" and d and k
  proof (induction zs arbitrary: d)
    case (Cons z zs)
    obtain a b e where z: "z = (a, b, e)" by (cases z) auto
    show ?case
      by (cases e; cases "map_of d a") (auto simp: z Cons map_of_update split: option.splits)
  qed (simp split: option.splits)
  from this [of "zip keys (zip block_ids ex)" "[]"] show ?thesis by (simp add: unstored_def)
qed

lemma distinct_unstored: "distinct (map fst (unstored keys block_ids ex))"
proof -
  have "distinct (map fst d) \<Longrightarrow> distinct (map fst (fold (\<lambda>(k, b, e) d. if \<not> e \<and> map_of d k = None then AList.update k b d else d) zs d))"
    for zs :: "(offload_key \<times> nat \<times> bool) list" and d
    by (induction zs arbitrary: d) (auto simp: distinct_update)
  from this [of "[]"] show ?thesis by (simp add: unstored_def)
qed

text \<open>The first occurrence of each key that is not located, with its block.\<close>

lemma map_of_uniq_keys:
  assumes "length keys = length block_ids"
  shows "map_of (uniq_keys keys block_ids sh s) k =
    (if locate sh s k = None then map_of (zip keys block_ids) k else None)"
proof -
  have z: "map_of (map (\<lambda>(k, b, _). (k, b)) (filter (\<lambda>(k, b, e). \<not> e) (zip ks (zip bs (map (\<lambda>k. P k) ks))))) k =
      (if P k then None else map_of (zip ks bs) k)" if "length ks = length bs" for ks :: "'a list" and bs :: "'b list" and P k
    using that by (induction ks bs rule: list_induct2) auto
  have t: "filter (\<lambda>(k, _). True) d = d" for d :: "(offload_key \<times> nat) list" by (simp add: case_prod_beta)
  have "map_of (uniq_keys keys block_ids sh s) k = Some b \<longleftrightarrow>
      (if locate sh s k = None then map_of (zip keys block_ids) k else None) = Some b" for b
    unfolding uniq_keys_def fst_in_unstored t z [OF assms] by simp
  then show ?thesis by (metis not_Some_eq)
qed

lemma prepare_store_plan:
  assumes kd: "keys_distinct sh" and db: "db_alloc_ok sh xs" and n: "0 < segment_shards s"
    and size: "block_size s \<le> segment_size_bytes s"
    and p: "prepare_store tx keys block_ids sh s = (Inr plan, sh', s')"
  shows "length keys = length block_ids \<and> distinct (map sw_key plan) \<and>
        (\<forall>k b. (\<exists>e \<in> set plan. sw_key e = k \<and> sw_block_id e = b) \<longleftrightarrow>
            locate sh s k = None \<and> map_of (zip keys block_ids) k = Some b) \<and>
        (\<forall>e \<in> set plan. sw_offset e + block_size s \<le> segment_size_bytes s) \<and>
        no_overlap (xs @ map (extent_of (block_size s)) plan) \<and>
        db_blocks sh' = db_blocks sh \<and> seg_files sh' = seg_files sh"
proof -
  let ?us = "uniq_keys keys block_ids sh s"
  have no_xs: "no_overlap xs" using db by (auto simp: db_alloc_ok_def alloc_ok_def split: if_splits)
  obtain es where es: "plan_ok s ?us es" "mset plan = mset es" "no_overlap (xs @ map (extent_of (block_size s)) es)"
      "length keys = length block_ids" "db_blocks sh' = db_blocks sh" "seg_files sh' = seg_files sh"
  proof -
    have "plan = [] \<and> length keys = length block_ids \<and> ?us = [] \<or>
      (\<exists>es. length keys = length block_ids \<and> plan_ok s ?us es \<and>
        mset plan = mset es \<and> db_alloc_ok sh' (xs @ map (extent_of (block_size s)) es))"
      using prepare_store_cases [OF kd db n p] by auto
    then show ?thesis
    proof
      assume "plan = [] \<and> length keys = length block_ids \<and> ?us = []"
      then show ?thesis
        using that [of "[]"] prepare_store_cases [OF kd db n p] no_xs by (auto simp: plan_ok_def)
    next
      assume "\<exists>es. length keys = length block_ids \<and> plan_ok s ?us es \<and>
        mset plan = mset es \<and> db_alloc_ok sh' (xs @ map (extent_of (block_size s)) es)"
      then obtain es where e: "length keys = length block_ids" "plan_ok s ?us es" "mset plan = mset es"
        "db_alloc_ok sh' (xs @ map (extent_of (block_size s)) es)" by auto
      then have "no_overlap (xs @ map (extent_of (block_size s)) es)"
        by (simp add: db_alloc_ok_def alloc_ok_def split: if_splits)
      then show ?thesis using that e prepare_store_cases [OF kd db n p] by blast
    qed
  qed
  have us: "map (\<lambda>e. (sw_key e, sw_block_id e)) es = ?us" using es(1) by (simp add: plan_ok_def)
  have keys: "map sw_key es = map fst ?us" by (simp flip: us)
  have "distinct (map fst ?us)" by (simp add: uniq_keys_def distinct_unstored)
  then have d: "distinct (map sw_key plan)"
    using es(2) keys by (metis mset_eq_imp_distinct_iff mset_map)
  have mem: "(\<exists>e \<in> set plan. sw_key e = k \<and> sw_block_id e = b) \<longleftrightarrow> (k, b) \<in> set ?us" for k b
    using mset_eq_setD [OF es(2)] by (auto simp flip: us)
  have "(k, b) \<in> set ?us \<longleftrightarrow> map_of ?us k = Some b" for k b
    using \<open>distinct (map fst ?us)\<close> by (simp add: map_of_eq_Some_iff)
  then have "(\<exists>e \<in> set plan. sw_key e = k \<and> sw_block_id e = b) \<longleftrightarrow>
      locate sh s k = None \<and> map_of (zip keys block_ids) k = Some b" for k b
    by (simp add: mem map_of_uniq_keys [OF es(4)])
  moreover have "sw_offset e + block_size s \<le> segment_size_bytes s" if "e \<in> set plan" for e
    using that es(1) size mset_eq_setD [OF es(2)] by (auto simp: plan_ok_def extent_of_def)
  moreover have "no_overlap (xs @ map (extent_of (block_size s)) plan)"
    by (rule no_overlap_perm [OF _ es(3)]) (simp add: es(2))
  ultimately show ?thesis using d es(4-6) by simp
qed

text \<open>C24: \<open>prepare_store\<close> plans exactly the blocks that are missing: each key that is neither
  indexed nor cached gets one entry, with the block of its first occurrence, and no other
  key gets one. The extents of the plan lie within the segment size, and overlap neither
  each other nor anything allocated before, on a database with shards of any number and on
  one of the old format. On an error, the database is unchanged.\<close>

theorem prepare_store_correct:
  assumes kd: "keys_distinct sh" and db: "db_alloc_ok sh xs" and n: "0 < segment_shards s"
    and size: "block_size s \<le> segment_size_bytes s"
    and p: "prepare_store tx keys block_ids sh s = (r, sh', s')"
  shows "case r of
      Inl _ \<Rightarrow> sh' = sh
    | Inr plan \<Rightarrow>
        length keys = length block_ids \<and> distinct (map sw_key plan) \<and>
        (\<forall>k b. (\<exists>e \<in> set plan. sw_key e = k \<and> sw_block_id e = b) \<longleftrightarrow>
            locate sh s k = None \<and> map_of (zip keys block_ids) k = Some b) \<and>
        (\<forall>e \<in> set plan. sw_offset e + block_size s \<le> segment_size_bytes s) \<and>
        no_overlap (xs @ map (extent_of (block_size s)) plan) \<and>
        db_blocks sh' = db_blocks sh \<and> seg_files sh' = seg_files sh"
proof (cases r)
  case (Inl e)
  with prepare_store_cases [OF kd db n p] show ?thesis by auto
next
  case (Inr plan)
  from prepare_store_plan [OF kd db n size p [unfolded Inr]] Inr show ?thesis by simp
qed

text \<open>Blocks of two bytes, in segments of two blocks, over two shards.\<close>

definition sample_store :: segment_store where
  "sample_store = \<lparr>block_size = 2, segment_size_bytes = 4, segment_shards = 2, location_cache = [], closed = False\<rparr>"

text \<open>A database of the old format: no shard state, two blocks in segment 3.\<close>

definition legacy_shared :: segment_shared where
  "legacy_shared = \<lparr>db_blocks = [(''o1'', \<lparr>segment_id = 3, offset = 0, loc_length = 2\<rparr>),
      (''o2'', \<lparr>segment_id = 3, offset = 2, loc_length = 2\<rparr>)],
     db_meta = [], seg_files = [(3, ''abcd'')]\<rparr>"

definition legacy_extents :: "extent list" where
  "legacy_extents = map (loc_extent \<circ> snd) (db_blocks legacy_shared)"

lemma legacy_shared_ok: "keys_distinct legacy_shared" "db_alloc_ok legacy_shared legacy_extents"
proof -
  have h: "\<not> has_shard_state legacy_shared" "latest_segment legacy_shared = (3, 4)" "keys_distinct legacy_shared" by code_simp+
  have "shards_ok legacy_shared" by (simp add: shards_ok_def legacy_shared_def)
  moreover have "no_overlap legacy_extents" by code_simp
  ultimately show "db_alloc_ok legacy_shared legacy_extents" "keys_distinct legacy_shared"
    using h by (simp_all add: db_alloc_ok_def) (simp add: legacy_extents_def legacy_shared_def loc_extent_def)
qed

theorem prepare_store_correct_witness:
  "\<exists>plan sh' s'. prepare_store True [''k1'', ''o1'', ''k2'', ''k1'', ''k3''] [7, 1, 0, 5, 4] legacy_shared sample_store
       = (Inr plan, sh', s') \<and>
     no_overlap (legacy_extents @ map (extent_of 2) plan) \<and> length plan = 3 \<and> distinct (map sw_key plan)"
proof -
  let ?p = "prepare_store True [''k1'', ''o1'', ''k2'', ''k1'', ''k3''] [7, 1, 0, 5, 4] legacy_shared sample_store"
  obtain r sh' s' where p: "?p = (r, sh', s')" by (metis prod_cases3)
  have "\<not> isl (fst ?p)" "length (projr (fst ?p)) = 3" by code_simp+
  then obtain plan where r: "r = Inr plan" "length plan = 3" unfolding p by (cases r) auto
  have "0 < segment_shards sample_store" "block_size sample_store \<le> segment_size_bytes sample_store" "block_size sample_store = 2"
    by (simp_all add: sample_store_def)
  from prepare_store_correct [OF legacy_shared_ok this(1,2) p] this(3) r p show ?thesis by auto
qed

section \<open>Any number of processes\<close>

text \<open>
  The plans handed out so far, with the block size of the process that got them; a process
  completes or abandons one of them, deletes keys, or prepares a new store. A process
  appears as its own state, whatever its cache holds.
\<close>

datatype index_op =
    PrepareOp segment_store bool "offload_key list" "nat list"
  | CompleteOp segment_store bool bool nat
  | DeleteOp segment_store bool "offload_key list"

type_synonym plans = "(nat \<times> segment_write list) list"

fun index_step :: "index_op \<Rightarrow> segment_shared \<times> plans \<Rightarrow> segment_shared \<times> plans" where
  "index_step (PrepareOp s tx keys block_ids) (sh, plans) =
     (case prepare_store tx keys block_ids sh s of
        (Inr plan, sh', _) \<Rightarrow> (sh', plans @ [(block_size s, plan)])
      | (Inl _, sh', _) \<Rightarrow> (sh', plans))"
| "index_step (CompleteOp s tx success i) (sh, plans) =
     (if i < length plans \<and> fst (plans ! i) = block_size s
      then (fst (snd (complete_store tx (snd (plans ! i)) success sh s)), plans) else (sh, plans))"
| "index_step (DeleteOp s tx keys) (sh, plans) = (fst (snd (delete tx keys sh s)), plans)"

fun valid_index_op :: "index_op \<Rightarrow> bool" where
  "valid_index_op (PrepareOp s _ _ _) = (0 < segment_shards s)"
| "valid_index_op _ = True"

definition plan_entries :: "plans \<Rightarrow> (nat \<times> segment_write) list" where
  "plan_entries plans = concat (map (\<lambda>(bs, es). map (Pair bs) es) plans)"

abbreviation entry_extent :: "nat \<times> segment_write \<Rightarrow> extent" where
  "entry_extent be \<equiv> extent_of (fst be) (snd be)"

definition entry_location :: "nat \<times> segment_write \<Rightarrow> segment_location" where
  "entry_location be = \<lparr>segment_id = sw_segment_id (snd be), offset = sw_offset (snd be), loc_length = fst be\<rparr>"

definition index_inv :: "segment_shared \<times> plans \<Rightarrow> bool" where
  "index_inv = (\<lambda>(sh, plans).
     keys_distinct sh \<and>
     (\<exists>xs. mset xs = mset (map entry_extent (plan_entries plans)) \<and> db_alloc_ok sh xs) \<and>
     (has_shard_state sh \<or> db_blocks sh = [] \<and> plan_entries plans = []) \<and>
     (\<forall>k l. map_of (db_blocks sh) k = Some l \<longrightarrow>
        (\<exists>be \<in> set (plan_entries plans). sw_key (snd be) = k \<and> l = entry_location be)))"

lemma plan_entries_snoc: "plan_entries (plans @ [(bs, es)]) = plan_entries plans @ map (Pair bs) es"
  by (simp add: plan_entries_def)

lemma plan_entries_mem: "i < length plans \<Longrightarrow> e \<in> set (snd (plans ! i)) \<Longrightarrow> (fst (plans ! i), e) \<in> set (plan_entries plans)"
  by (force simp: plan_entries_def in_set_conv_nth [of _ plans])

lemma index_inv_empty: "index_inv (empty_shared, [])"
  by (simp add: index_inv_def empty_shared_def keys_distinct_def plan_entries_def db_alloc_ok_def shards_ok_def has_shard_state_def)

lemma complete_store_shared:
  "fst (snd (complete_store tx es success sh s)) =
     (if success \<and> tx then sh\<lparr>db_blocks := fold (\<lambda>e d. setdefault (sw_key e) (entry_location (block_size s, e)) d) es (db_blocks sh)\<rparr> else sh)"
  by (cases "es = []"; cases success; cases tx)
    (simp_all add: complete_store_def entry_location_def Let_def case_prod_beta)

lemma map_of_insert_entries:
  "map_of (fold (\<lambda>e d. setdefault (sw_key e) (f e) d) es d) k = Some l \<Longrightarrow>
     map_of d k = Some l \<or> (\<exists>e \<in> set es. sw_key e = k \<and> l = f e)"
proof (induction es arbitrary: d)
  case (Cons e es)
  from Cons.IH [of "setdefault (sw_key e) (f e) d"] Cons.prems show ?case
    by (auto simp: dict_simps split: if_splits)
qed simp

lemma distinct_insert_entries:
  "distinct (map fst d) \<Longrightarrow> distinct (map fst (fold (\<lambda>e d. setdefault (sw_key e) (f e) d) es d))"
  by (induction es arbitrary: d) (auto simp: dict_simps)

text \<open>With shard state, the blocks table plays no part in allocation.\<close>

lemma blocks_irrelevant:
  assumes "has_shard_state sh" "db_alloc_ok sh xs"
  shows "db_alloc_ok (sh\<lparr>db_blocks := d\<rparr>) xs"
proof -
  have "has_shard_state (sh\<lparr>db_blocks := d\<rparr>) = has_shard_state sh" by (simp add: has_shard_state_def)
  moreover have "shards_ok (sh\<lparr>db_blocks := d\<rparr>) = shards_ok sh" by (simp add: shards_ok_def has_shard_state_def)
  moreover have "meta_shards 0 (sh\<lparr>db_blocks := d\<rparr>) = meta_shards 0 sh" by (simp add: meta_shards_def)
  ultimately show ?thesis using assms by (simp add: db_alloc_ok_def)
qed

lemma index_invE:
  assumes "index_inv (sh, plans)"
  obtains xs where "keys_distinct sh" "mset xs = mset (map entry_extent (plan_entries plans))" "db_alloc_ok sh xs"
    "has_shard_state sh \<or> db_blocks sh = [] \<and> plan_entries plans = []"
    "\<And>k l. map_of (db_blocks sh) k = Some l \<Longrightarrow> \<exists>be \<in> set (plan_entries plans). sw_key (snd be) = k \<and> l = entry_location be"
  using assms unfolding index_inv_def by blast

lemma index_invD:
  assumes "index_inv (sh, plans)"
  shows "keys_distinct sh" "has_shard_state sh \<or> db_blocks sh = []"
    "map_of (db_blocks sh) k = Some l \<Longrightarrow> \<exists>be \<in> set (plan_entries plans). sw_key (snd be) = k \<and> l = entry_location be"
  using assms by (auto simp: index_inv_def)

text \<open>Once there is shard state, the blocks table may hold any planned locations.\<close>

lemma index_inv_blocks:
  assumes inv: "index_inv (sh, plans)" and has: "has_shard_state sh" and d: "distinct (map fst d)"
    and loc: "\<And>k l. map_of d k = Some l \<Longrightarrow> \<exists>be \<in> set (plan_entries plans). sw_key (snd be) = k \<and> l = entry_location be"
  shows "index_inv (sh\<lparr>db_blocks := d\<rparr>, plans)"
proof -
  obtain xs where xs: "keys_distinct sh" "mset xs = mset (map entry_extent (plan_entries plans))" "db_alloc_ok sh xs"
    using index_invE [OF inv] by metis
  then have "keys_distinct (sh\<lparr>db_blocks := d\<rparr>)" "has_shard_state (sh\<lparr>db_blocks := d\<rparr>)"
    using has d by (simp_all add: keys_distinct_def has_shard_state_def)
  then show ?thesis using xs(2) blocks_irrelevant [OF has xs(3)] loc by (auto simp: index_inv_def)
qed

lemma prepare_index_inv:
  assumes inv: "index_inv (sh, plans)" and n: "0 < segment_shards s"
  shows "index_inv (index_step (PrepareOp s tx keys ids) (sh, plans))"
proof -
  obtain xs where kd: "keys_distinct sh" and xs: "mset xs = mset (map entry_extent (plan_entries plans))" "db_alloc_ok sh xs"
    and loc: "\<And>k l. map_of (db_blocks sh) k = Some l \<Longrightarrow> \<exists>be \<in> set (plan_entries plans). sw_key (snd be) = k \<and> l = entry_location be"
    using index_invE [OF inv] by metis
  obtain r sh' s' where p: "prepare_store tx keys ids sh s = (r, sh', s')" by (metis prod_cases3)
  note c = prepare_store_cases [OF kd xs(2) n p]
  have b: "db_blocks sh' = db_blocks sh" "keys_distinct sh'" using c kd by (simp_all add: keys_distinct_def)
  consider (nothing) "r = Inr []" "sh' = sh" | (failed) e where "r = Inl e" "sh' = sh"
    | (planned) es plan where "r = Inr plan" "mset plan = mset es" "has_shard_state sh'"
      "db_alloc_ok sh' (xs @ map (extent_of (block_size s)) es)"
    using c by blast
  then show ?thesis
  proof cases
    case planned
    let ?p = "plans @ [(block_size s, plan)]"
    have "mset (xs @ map (extent_of (block_size s)) es) = mset (map entry_extent (plan_entries ?p))"
      by (simp add: plan_entries_snoc xs(1) planned(2) comp_def)
    then have "\<exists>ys. mset ys = mset (map entry_extent (plan_entries ?p)) \<and> db_alloc_ok sh' ys"
      using planned(4) by blast
    moreover have "\<exists>be \<in> set (plan_entries ?p). sw_key (snd be) = k \<and> l = entry_location be"
      if "map_of (db_blocks sh') k = Some l" for k l
      using loc [of k l] that b(1) by (auto simp: plan_entries_snoc)
    ultimately show ?thesis using b(2) planned(1,3) p unfolding index_inv_def by simp
  qed (use inv p in \<open>simp_all add: index_inv_def plan_entries_snoc\<close>)
qed

lemma complete_index_inv:
  assumes inv: "index_inv (sh, plans)"
  shows "index_inv (index_step (CompleteOp s tx success i) (sh, plans))"
proof (cases "i < length plans \<and> fst (plans ! i) = block_size s \<and> success \<and> tx \<and> snd (plans ! i) \<noteq> []")
  case True
  let ?es = "snd (plans ! i)"
  let ?d = "fold (\<lambda>e d. setdefault (sw_key e) (entry_location (block_size s, e)) d) ?es (db_blocks sh)"
  have "plan_entries plans \<noteq> []"
    using True plan_entries_mem [of i plans "hd ?es"] by auto
  then have has: "has_shard_state sh" using index_invE [OF inv] by blast
  have kd: "keys_distinct sh" by (rule index_invD(1) [OF inv])
  have "index_inv (sh\<lparr>db_blocks := ?d\<rparr>, plans)"
  proof (rule index_inv_blocks [OF inv has])
    fix k l assume "map_of ?d k = Some l"
    from map_of_insert_entries [OF this]
    show "\<exists>be \<in> set (plan_entries plans). sw_key (snd be) = k \<and> l = entry_location be"
    proof
      assume "\<exists>e \<in> set ?es. sw_key e = k \<and> l = entry_location (block_size s, e)"
      then obtain e where "e \<in> set ?es" "sw_key e = k" "l = entry_location (block_size s, e)" by blast
      with plan_entries_mem [of i plans e] True show ?thesis by (intro bexI [of _ "(block_size s, e)"]) auto
    qed (rule index_invD(3) [OF inv])
  qed (use kd in \<open>simp add: keys_distinct_def distinct_insert_entries\<close>)
  with True show ?thesis by (simp add: complete_store_shared)
next
  case False
  then have "index_step (CompleteOp s tx success i) (sh, plans) = (sh, plans)" by (auto simp: complete_store_shared)
  with inv show ?thesis by simp
qed

lemma delete_index_inv:
  assumes inv: "index_inv (sh, plans)"
  shows "index_inv (index_step (DeleteOp s tx keys) (sh, plans))"
proof (cases "tx \<and> has_shard_state sh")
  case True
  let ?d = "filter (\<lambda>(k, _). k \<notin> set keys) (db_blocks sh)"
  have "index_inv (sh\<lparr>db_blocks := ?d\<rparr>, plans)"
  proof (rule index_inv_blocks [OF inv])
    show "distinct (map fst ?d)"
      using index_invD(1) [OF inv] by (simp add: keys_distinct_def distinct_map_filter)
    fix k l assume "map_of ?d k = Some l"
    then have "map_of (db_blocks sh) k = Some l"
      using map_of_filter_keys [where P = "\<lambda>k. k \<notin> set keys" and d = "db_blocks sh" and k = k] by (simp split: if_splits)
    then show "\<exists>be \<in> set (plan_entries plans). sw_key (snd be) = k \<and> l = entry_location be"
      by (rule index_invD(3) [OF inv])
  qed (use True in simp)
  with True show ?thesis by (simp add: delete_spec)
next
  case False
  moreover have "has_shard_state sh \<or> db_blocks sh = []" by (rule index_invD(2) [OF inv])
  ultimately have "index_step (DeleteOp s tx keys) (sh, plans) = (sh, plans)"
    by (cases tx) (auto simp: delete_spec delete_def [of False] Let_def)
  with inv show ?thesis by simp
qed

lemma index_step_inv:
  assumes "valid_index_op op" "index_inv (sh, plans)"
  shows "index_inv (index_step op (sh, plans))"
  using assms prepare_index_inv complete_index_inv delete_index_inv by (cases op) simp_all

interpretation idx_run: guarded_component index_step index_inv valid_index_op
  by unfold_locales (metis index_step_inv surj_pair)

text \<open>C2: Space in the segment files is never handed out twice. Whatever several processes with
  any numbers of shards, block and segment sizes and any caches do to one new index -
  preparing stores, completing or abandoning them, deleting, with transactions that fail or
  not - the extents of all plans ever returned are disjoint, even those of deleted blocks;
  every indexed location is the extent that was planned for its key; and the locations of
  different keys do not overlap.\<close>

theorem extents_never_overlap:
  assumes ops: "list_all valid_index_op ops" and run: "fold index_step ops (empty_shared, []) = (sh, plans)"
  shows "no_overlap (map entry_extent (plan_entries plans)) \<and>
    (\<forall>k l. map_of (db_blocks sh) k = Some l \<longrightarrow>
       (\<exists>be \<in> set (plan_entries plans). sw_key (snd be) = k \<and> l = entry_location be)) \<and>
    (\<forall>k k' l l'. map_of (db_blocks sh) k = Some l \<and> map_of (db_blocks sh) k' = Some l' \<and> k \<noteq> k' \<longrightarrow>
       \<not> overlap (loc_extent l) (loc_extent l'))"
proof -
  have inv: "index_inv (sh, plans)" using idx_run.run_inv [OF index_inv_empty ops] run by simp
  then obtain xs where xs: "mset xs = mset (map entry_extent (plan_entries plans))" "db_alloc_ok sh xs"
    and loc: "\<And>k l. map_of (db_blocks sh) k = Some l \<Longrightarrow> \<exists>be \<in> set (plan_entries plans). sw_key (snd be) = k \<and> l = entry_location be"
    by (auto simp: index_inv_def)
  have "no_overlap xs" using xs(2) by (simp add: db_alloc_ok_def alloc_ok_def split: if_splits)
  then have no: "no_overlap (map entry_extent (plan_entries plans))" by (rule no_overlap_perm [OF xs(1)])
  have "\<not> overlap (loc_extent l) (loc_extent l')"
    if l: "map_of (db_blocks sh) k = Some l" "map_of (db_blocks sh) k' = Some l'" "k \<noteq> k'" for k k' l l'
  proof -
    obtain be be' where be: "be \<in> set (plan_entries plans)" "sw_key (snd be) = k" "l = entry_location be"
      "be' \<in> set (plan_entries plans)" "sw_key (snd be') = k'" "l' = entry_location be'"
      using loc [OF l(1)] loc [OF l(2)] by blast
    then have "\<not> overlap (entry_extent be) (entry_extent be')"
      using no_overlap_different [OF no be(1,4)] l(3) by auto
    then show ?thesis by (simp add: be loc_extent_def entry_location_def extent_of_def)
  qed
  with no loc show ?thesis by blast
qed

definition other_store :: segment_store where
  "other_store = \<lparr>block_size = 3, segment_size_bytes = 9, segment_shards = 3, location_cache = [], closed = False\<rparr>"

definition index_ops :: "index_op list" where
  "index_ops = [PrepareOp sample_store True [''a'', ''b'', ''c''] [0, 1, 2], PrepareOp other_store True [''a'', ''d''] [4, 5],
     CompleteOp other_store True True 1, CompleteOp sample_store True True 0, DeleteOp other_store True [''a''],
     PrepareOp sample_store True [''a'', ''e''] [3, 0], CompleteOp sample_store True False 0]"

theorem extents_never_overlap_witness:
  "no_overlap (map entry_extent (plan_entries (snd (fold index_step index_ops (empty_shared, []))))) \<and>
   length (plan_entries (snd (fold index_step index_ops (empty_shared, [])))) = 7"
proof -
  let ?r = "fold index_step index_ops (empty_shared, [])"
  have "list_all valid_index_op index_ops" by (simp add: index_ops_def sample_store_def other_store_def)
  moreover have "?r = (fst ?r, snd ?r)" by simp
  ultimately have "no_overlap (map entry_extent (plan_entries (snd ?r)))" using extents_never_overlap by blast
  moreover have "length (plan_entries (snd ?r)) = 7" by code_simp
  ultimately show ?thesis by simp
qed

end
