(* ===== verification/Segment_IO.thy ===== *)
theory Segment_IO
  imports Segment_Policy
begin

text \<open>
  Reading and writing segment files: coalescing and batching are invisible, writes stay
  within the extents of their entries even when they fail, and what was stored is loaded.
\<close>

section \<open>Bytes\<close>

definition slice :: "nat \<Rightarrow> nat \<Rightarrow> bytes \<Rightarrow> bytes" where
  "slice off len f = take len (drop off f)"

lemma length_pwrite: "length (pwrite off data f) = max (length f) (off + length data)"
  by (simp add: pwrite_def)

lemma nth_pwrite:
  "i < length (pwrite off data f) \<Longrightarrow> pwrite off data f ! i =
     (if off \<le> i \<and> i < off + length data then data ! (i - off) else if i < length f then f ! i else CHR 0x00)"
  unfolding length_pwrite by (auto simp: pwrite_def nth_append min_def intro: arg_cong [where f = "(!) data"])

lemma pwrite_append: "pwrite (off + length a) b (pwrite off a f) = pwrite off (a @ b) f"
proof (rule nth_equalityI)
  show "length (pwrite (off + length a) b (pwrite off a f)) = length (pwrite off (a @ b) f)"
    by (simp add: length_pwrite)
  fix i assume i: "i < length (pwrite (off + length a) b (pwrite off a f))"
  then have "i < length (pwrite off (a @ b) f)" by (simp add: length_pwrite)
  then show "pwrite (off + length a) b (pwrite off a f) ! i = pwrite off (a @ b) f ! i"
    using i by (auto simp: nth_pwrite length_pwrite nth_append)
qed

lemma slice_pwrite_same: "slice off (length data) (pwrite off data f) = data"
  by (rule nth_equalityI) (auto simp: slice_def nth_pwrite length_pwrite)

lemma slice_pwrite_other:
  assumes "o' + len \<le> length f" "o' + len \<le> off \<or> off + length data \<le> o'"
  shows "slice o' len (pwrite off data f) = slice o' len f"
  by (rule nth_equalityI) (use assms in \<open>auto simp: slice_def nth_pwrite length_pwrite\<close>)

lemma length_splice: "s + length d \<le> length buf \<Longrightarrow> length (splice s d buf) = length buf"
  by (simp add: splice_def)

lemma slice_splice_same: "s + length d \<le> length buf \<Longrightarrow> slice s (length d) (splice s d buf) = d"
  by (simp add: slice_def splice_def)

lemma slice_splice_other:
  assumes "s + length d \<le> length buf" "o' + len \<le> s \<or> s + length d \<le> o'"
  shows "slice o' len (splice s d buf) = slice o' len buf"
  by (rule nth_equalityI) (use assms in \<open>auto simp: slice_def splice_def nth_append\<close>)

lemma view_slice: "view_of bs b buf = slice (b * bs) bs buf"
  by (simp add: view_of_def slice_def)

text \<open>The content of a segment at an extent.\<close>

definition content :: "(nat \<times> bytes) list \<Rightarrow> nat \<Rightarrow> nat \<Rightarrow> nat \<Rightarrow> bytes" where
  "content files sid off len = slice off len (dict_get files sid [])"

definition present :: "(nat \<times> bytes) list \<Rightarrow> nat \<Rightarrow> nat \<Rightarrow> nat \<Rightarrow> bool" where
  "present files sid off len \<longleftrightarrow> map_of files sid \<noteq> None \<and> off + len \<le> length (dict_get files sid [])"

section \<open>Writing\<close>

lemma update_twice: "AList.update k v (AList.update k w d) = AList.update k v d"
  by (induction d) auto

lemma pwritev_chunks_full: "pwritev_chunks cs off f [] = (Inr (), (if cs = [] then f else pwrite off (concat (concat cs)) f), [])"
proof (induction cs arbitrary: off f)
  case (Cons c cs)
  have "pwritev_chunks (c # cs) off f [] = pwritev_chunks cs (off + length (concat c)) (pwrite off (concat c) f) []"
    by (simp add: next_io_def Let_def)
  then show ?case by (simp add: Cons pwrite_append del: pwritev_chunks.simps)
qed simp

lemma chunks_of_eq_Nil: "0 < n \<Longrightarrow> chunks_of n xs = [] \<longleftrightarrow> xs = []"
  by (simp add: chunks_of.simps [of n xs])

lemma pwritev_all_full:
  "0 < limit \<Longrightarrow> buffers \<noteq> [] \<Longrightarrow> pwritev_all limit buffers off f [] = (Inr (), pwrite off (concat buffers) f, [])"
  by (simp add: pwritev_all_def pwritev_chunks_full concat_chunks_of chunks_of_eq_Nil)

text \<open>The effect of one entry: its block, written at its place.\<close>

definition write_block :: "nat \<Rightarrow> bytes \<Rightarrow> segment_write \<Rightarrow> (nat \<times> bytes) list \<Rightarrow> (nat \<times> bytes) list" where
  "write_block bs buf e files =
     AList.update (sw_segment_id e)
       (pwrite (sw_offset e) (view_of bs (sw_block_id e) buf) (dict_get files (sw_segment_id e) [])) files"

definition write_views :: "nat \<Rightarrow> nat \<Rightarrow> bytes list \<Rightarrow> (nat \<times> bytes) list \<Rightarrow> (nat \<times> bytes) list" where
  "write_views sid off views files =
     (if views = [] then files else AList.update sid (pwrite off (concat views) (dict_get files sid [])) files)"

lemma write_flush_full: "0 < limit \<Longrightarrow> write_flush limit sid off views files [] = (Inr (), write_views sid off views files, [])"
  by (simp add: write_flush_def write_views_def pwritev_all_full)

lemma write_views_snoc:
  assumes "length (concat views) = length views * bs"
  shows "write_views sid off (views @ [v]) files =
    AList.update sid (pwrite (off + length views * bs) v (dict_get (write_views sid off views files) sid [])) (write_views sid off views files)"
  using assms pwrite_append [of off "concat views" v]
  by (auto simp: write_views_def dict_simps update_twice)

definition block_in :: "nat \<Rightarrow> bytes \<Rightarrow> nat \<Rightarrow> bool" where
  "block_in bs buf b \<longleftrightarrow> b * bs + bs \<le> length buf"

lemma length_view: "block_in bs buf b \<Longrightarrow> length (view_of bs b buf) = bs"
  by (simp add: block_in_def view_of_def)

lemma write_loop_full:
  assumes "0 < limit" "\<forall>e \<in> set es. block_in bs buf (sw_block_id e)" "length (concat views) = length views * bs"
  shows "write_loop limit bs buf es sid off views files [] =
    (Inr (), fold (write_block bs buf) es (write_views sid off views files), [])"
  using assms(2,3)
proof (induction es arbitrary: sid off views files)
  case Nil
  then show ?case by (simp add: write_flush_full [OF assms(1)])
next
  case (Cons e es)
  let ?v = "view_of bs (sw_block_id e) buf"
  have v: "length ?v = bs" using Cons.prems(1) by (intro length_view) simp
  have es: "\<forall>e \<in> set es. block_in bs buf (sw_block_id e)" using Cons.prems(1) by simp
  have single: "write_views (sw_segment_id e) (sw_offset e) [?v] files' = write_block bs buf e files'" for files'
    by (simp add: write_views_def write_block_def)
  have one: "length (concat [?v]) = length [?v] * bs" using v by simp
  consider "views = []" | "views \<noteq> []" "sw_segment_id e \<noteq> sid \<or> sw_offset e \<noteq> off + length views * bs"
    | "views \<noteq> []" "sw_segment_id e = sid" "sw_offset e = off + length views * bs" by blast
  then show ?case
  proof cases
    case 1
    then show ?thesis using Cons.IH [OF es one] by (simp add: Let_def single) (simp add: write_views_def)
  next
    case 2
    then show ?thesis
      using Cons.IH [OF es one] by (simp add: Let_def single write_flush_full [OF assms(1)])
  next
    case 3
    have "length (concat (views @ [?v])) = length (views @ [?v]) * bs" using v Cons.prems(2) by simp
    from Cons.IH [OF es this] 3 show ?thesis
      by (simp add: Let_def write_views_snoc [OF Cons.prems(2)]) (simp add: write_block_def)
  qed
qed

lemma write_entries_full:
  assumes "0 < batch_limit iov io_batch" "\<forall>e \<in> set es. block_in (block_size s) buf (sw_block_id e)"
  shows "write_entries iov io_batch es buf [] sh s =
    (Inr (), sh\<lparr>seg_files := fold (write_block (block_size s) buf) es (seg_files sh)\<rparr>)"
  using write_loop_full [OF assms(1,2), of "[]"] by (simp add: write_entries_def write_views_def)

section \<open>Writes stay in their extents\<close>

definition apart :: "nat \<Rightarrow> nat \<Rightarrow> nat \<Rightarrow> nat \<Rightarrow> bool" where
  "apart o1 l1 o2 l2 \<longleftrightarrow> o1 + l1 \<le> o2 \<or> o2 + l2 \<le> o1"

lemma pwritev_chunks_frame:
  assumes "pwritev_chunks cs off f io = (r, f', io')" "o' + len \<le> length f" "apart o' len off (length (concat (concat cs)))"
  shows "slice o' len f' = slice o' len f \<and> length f \<le> length f'"
  using assms
proof (induction cs arbitrary: off f io)
  case (Cons c cs)
  let ?data = "concat c"
  obtain x io1 where x: "next_io io = (x, io1)" by fastforce
  have step: "slice o' len (pwrite off d f) = slice o' len f" "length f \<le> length (pwrite off d f)"
    if "length d \<le> length ?data" for d
    using Cons.prems(2,3) that by (auto simp: apart_def length_pwrite intro!: slice_pwrite_other)
  have rest: "slice o' len f' = slice o' len f \<and> length f \<le> length f'"
    if "pwritev_chunks cs (off + length ?data) (pwrite off ?data f) io1 = (r, f', io')"
  proof -
    have "o' + len \<le> length (pwrite off ?data f)" using Cons.prems(2) by (simp add: length_pwrite)
    moreover have "apart o' len (off + length ?data) (length (concat (concat cs)))"
      using Cons.prems(3) by (auto simp: apart_def)
    ultimately show ?thesis using Cons.IH [OF that] step [of ?data] by auto
  qed
  show ?case
  proof (cases x)
    case Full
    with rest Cons.prems(1) x show ?thesis by (simp add: Let_def)
  next
    case (Short n)
    with rest Cons.prems(1) x step [of "take n ?data"] show ?thesis by (auto simp: Let_def split: if_splits)
  next
    case (Fails e)
    with Cons.prems(1) x show ?thesis by (simp add: Let_def)
  qed
qed simp

definition kept :: "nat \<Rightarrow> nat \<Rightarrow> nat \<Rightarrow> (nat \<times> bytes) list \<Rightarrow> (nat \<times> bytes) list \<Rightarrow> bool" where
  "kept sid off len files files' \<longleftrightarrow>
     present files' sid off len \<and> content files' sid off len = content files sid off len"

lemma kept_trans: "kept sid off len a b \<Longrightarrow> kept sid off len b c \<Longrightarrow> kept sid off len a c"
  by (simp add: kept_def)

lemma write_flush_kept:
  assumes "write_flush limit sid off views files io = (r, files', io')" "present files sid' o' len"
    and "views \<noteq> [] \<longrightarrow> sid' \<noteq> sid \<or> apart o' len off (length (concat views))"
  shows "kept sid' o' len files files'"
proof (cases "views = []")
  case True
  with assms show ?thesis by (simp add: write_flush_def kept_def)
next
  case False
  obtain r1 f' io1 where p: "pwritev_all limit views off (dict_get files sid []) io = (r1, f', io1)" by (metis prod_cases3)
  with assms(1) False have files': "files' = AList.update sid f' files" by (simp add: write_flush_def)
  show ?thesis
  proof (cases "sid' = sid")
    case True
    have "slice o' len f' = slice o' len (dict_get files sid []) \<and> length (dict_get files sid []) \<le> length f'"
    proof (cases "limit = 0")
      case True
      with p show ?thesis by (auto simp: pwritev_all_def)
    next
      case limit: False
      then have "pwritev_chunks (chunks_of limit views) off (dict_get files sid []) io = (r1, f', io1)"
        using p by (simp add: pwritev_all_def)
      then show ?thesis
        by (rule pwritev_chunks_frame) (use assms(2,3) True False limit in \<open>simp_all add: present_def concat_chunks_of\<close>)
    qed
    with assms(2) True show ?thesis by (auto simp: kept_def present_def content_def files' dict_simps)
  next
    case other: False
    with assms(2) show ?thesis by (simp add: kept_def present_def content_def files' dict_simps)
  qed
qed

lemma length_view_le: "length (view_of bs b buf) \<le> bs"
  by (simp add: view_of_def)

text \<open>
  Whatever the outcome of the I/O calls, a range of a file that lies outside the entries'
  extents is as before.
\<close>

lemma write_loop_kept:
  assumes "write_loop limit bs buf es sid off views files io = (r, files', io')" "present files sid' o' len" "0 < len"
    and "\<forall>e \<in> set es. sid' \<noteq> sw_segment_id e \<or> apart o' len (sw_offset e) bs"
    and "views \<noteq> [] \<longrightarrow> sid' \<noteq> sid \<or> apart o' len off (length views * bs)"
    and "\<forall>v \<in> set views. length v \<le> bs"
  shows "kept sid' o' len files files'"
  using assms
proof (induction es arbitrary: sid off views files io)
  case Nil
  have "length (concat views) \<le> length views * bs"
    using Nil.prems(6) by (induction views) auto
  then have "views \<noteq> [] \<longrightarrow> sid' \<noteq> sid \<or> apart o' len off (length (concat views))"
    using Nil.prems(5) by (auto simp: apart_def)
  with Nil.prems show ?case by (auto intro: write_flush_kept)
next
  case (Cons e es)
  let ?v = "view_of bs (sw_block_id e) buf"
  have es: "\<forall>e \<in> set es. sid' \<noteq> sw_segment_id e \<or> apart o' len (sw_offset e) bs"
    and e: "sid' \<noteq> sw_segment_id e \<or> apart o' len (sw_offset e) bs" using Cons.prems(4) by simp_all
  have one: "[?v] \<noteq> [] \<longrightarrow> sid' \<noteq> sw_segment_id e \<or> apart o' len (sw_offset e) (length [?v] * bs)"
    "\<forall>v \<in> set [?v]. length v \<le> bs" using e by (simp_all add: length_view_le)
  have total: "length (concat views) \<le> length views * bs" using Cons.prems(6) by (induction views) auto
  consider "views = []" | "views \<noteq> []" "sw_segment_id e \<noteq> sid \<or> sw_offset e \<noteq> off + length views * bs"
    | "views \<noteq> []" "sw_segment_id e = sid" "sw_offset e = off + length views * bs" by blast
  then show ?case
  proof cases
    case 1
    with Cons.prems(1) have "write_loop limit bs buf es (sw_segment_id e) (sw_offset e) [?v] files io = (r, files', io')"
      by (simp add: Let_def)
    from Cons.IH [OF this Cons.prems(2,3) es one] show ?thesis .
  next
    case 2
    obtain r1 files1 io1 where fl: "write_flush limit sid off views files io = (r1, files1, io1)" by (metis prod_cases3)
    have k1: "kept sid' o' len files files1"
      by (rule write_flush_kept [OF fl Cons.prems(2)]) (use Cons.prems(5) total in \<open>auto simp: apart_def\<close>)
    show ?thesis
    proof (cases r1)
      case (Inl err)
      with Cons.prems(1) 2 fl k1 show ?thesis by (auto simp: Let_def)
    next
      case (Inr u)
      with Cons.prems(1) 2 fl have "write_loop limit bs buf es (sw_segment_id e) (sw_offset e) [?v] files1 io1 = (r, files', io')"
        by (auto simp: Let_def)
      from Cons.IH [OF this _ Cons.prems(3) es one] k1 show ?thesis using kept_trans [OF k1] by (simp add: kept_def)
    qed
  next
    case 3
    then have w: "write_loop limit bs buf es sid off (views @ [?v]) files io = (r, files', io')"
      using Cons.prems(1) by (simp add: Let_def)
    have "views @ [?v] \<noteq> [] \<longrightarrow> sid' \<noteq> sid \<or> apart o' len off (length (views @ [?v]) * bs)"
      using Cons.prems(3,5) e 3 by (auto simp: apart_def)
    from Cons.IH [OF w Cons.prems(2,3) es this] Cons.prems(6) show ?thesis by (simp add: length_view_le)
  qed
qed

lemma write_entries_kept:
  assumes "write_entries iov io_batch es buf io sh s = (r, sh')"
    and "present (seg_files sh) sid off len" "0 < len" "0 < block_size s"
    and "\<forall>e \<in> set es. \<not> overlap \<lparr>ex_seg = sid, ex_start = off, ex_end = off + len\<rparr> (extent_of (block_size s) e)"
  shows "kept sid off len (seg_files sh) (seg_files sh') \<and> db_blocks sh' = db_blocks sh \<and> db_meta sh' = db_meta sh"
proof (cases "es = []")
  case True
  with assms show ?thesis by (simp add: write_entries_def kept_def)
next
  case False
  obtain r1 files' io' where w: "write_loop (batch_limit iov io_batch) (block_size s) buf es (sw_segment_id (hd es))
      (sw_offset (hd es)) [] (seg_files sh) io = (r1, files', io')" by (metis prod_cases3)
  with assms(1) False have sh': "sh' = sh\<lparr>seg_files := files'\<rparr>" by (simp add: write_entries_def)
  have "\<forall>e \<in> set es. sid \<noteq> sw_segment_id e \<or> apart off len (sw_offset e) (block_size s)"
    using assms(5) by (auto simp: overlap_def extent_of_def apart_def)
  from write_loop_kept [OF w assms(2,3) this] show ?thesis by (simp add: sh')
qed

text \<open>A write never damages another block. Whatever the I/O calls of \<open>write_entries\<close> do -
  succeed, write short or fail at any point - every range of a segment file outside the
  extents of the written entries keeps its bytes; the index does not change.\<close>

theorem write_entries_safe:
  assumes "write_entries iov io_batch es buf io sh s = (r, sh')"
    and "present (seg_files sh) sid off len" "0 < len"
    and "\<forall>e \<in> set es. \<not> overlap \<lparr>ex_seg = sid, ex_start = off, ex_end = off + len\<rparr> (extent_of (block_size s) e)"
    and "0 < block_size s"
  shows "present (seg_files sh') sid off len \<and>
    content (seg_files sh') sid off len = content (seg_files sh) sid off len \<and>
    db_blocks sh' = db_blocks sh \<and> db_meta sh' = db_meta sh"
  using write_entries_kept [OF assms(1-3,5,4)] by (simp add: kept_def)

text \<open>Two blocks, of which the second is written short, beside a block that was there before.\<close>

theorem write_entries_safe_witness:
  "content (seg_files (snd (write_entries 1 None
      [\<lparr>sw_key = ''a'', sw_segment_id = 3, sw_offset = 2, sw_block_id = 0\<rparr>, \<lparr>sw_key = ''b'', sw_segment_id = 4, sw_offset = 0, sw_block_id = 1\<rparr>]
      ''WXYZ'' [Full, Short 1] legacy_shared sample_store))) 3 0 2 = ''ab'' \<and>
   fst (write_entries 1 None
      [\<lparr>sw_key = ''a'', sw_segment_id = 3, sw_offset = 2, sw_block_id = 0\<rparr>, \<lparr>sw_key = ''b'', sw_segment_id = 4, sw_offset = 0, sw_block_id = 1\<rparr>]
      ''WXYZ'' [Full, Short 1] legacy_shared sample_store) = Inl (OSError ''Short write'')"
proof -
  let ?es = "[\<lparr>sw_key = ''a'', sw_segment_id = 3, sw_offset = 2, sw_block_id = 0\<rparr>, \<lparr>sw_key = ''b'', sw_segment_id = 4, sw_offset = 0, sw_block_id = 1\<rparr>]"
  let ?w = "write_entries 1 None ?es ''WXYZ'' [Full, Short 1] legacy_shared sample_store"
  have p: "present (seg_files legacy_shared) 3 0 2" and c: "content (seg_files legacy_shared) 3 0 2 = ''ab''" by code_simp+
  have no: "\<forall>e \<in> set ?es. \<not> overlap \<lparr>ex_seg = 3, ex_start = 0, ex_end = 0 + 2\<rparr> (extent_of (block_size sample_store) e)"
    by (simp add: overlap_def extent_of_def)
  have bs: "0 < block_size sample_store" by (simp add: sample_store_def)
  have "?w = (fst ?w, snd ?w)" by simp
  from write_entries_safe [OF this p _ no bs] c have "content (seg_files (snd ?w)) 3 0 2 = ''ab''" by simp
  moreover have "fst ?w = Inl (OSError ''Short write'')" by code_simp
  ultimately show ?thesis by blast
qed

section \<open>Loading\<close>

abbreviation views_length :: "(nat \<times> nat) list \<Rightarrow> nat" where
  "views_length vs \<equiv> sum_list (map snd vs)"

lemma scatter_append: "scatter (vs @ ws) data buf = scatter ws (drop (views_length vs) data) (scatter vs data buf)"
  by (induction vs arbitrary: data buf) (auto simp: add.commute)

lemma scatter_take: "views_length vs \<le> n \<Longrightarrow> scatter vs (take n data) buf = scatter vs data buf"
proof (induction vs arbitrary: n data buf)
  case (Cons v vs)
  obtain st l where v: "v = (st, l)" by (cases v)
  have "drop l (take n data) = take (n - l) (drop l data)" by (simp add: drop_take)
  with Cons v show ?case by (simp add: min_absorb1)
qed simp

lemma preadv_chunks_full:
  assumes "off + views_length (concat cs) \<le> length f"
  shows "preadv_chunks cs off f buf [] = (Inr (), scatter (concat cs) (drop off f) buf, [])"
  using assms
proof (induction cs arbitrary: off buf)
  case (Cons c cs)
  let ?n = "views_length c"
  have n: "length (take ?n (drop off f)) = ?n" using Cons.prems by simp
  then have "preadv_chunks (c # cs) off f buf [] = preadv_chunks cs (off + ?n) f (scatter c (take ?n (drop off f)) buf) []"
    by (simp add: next_io_def Let_def)
  also have "\<dots> = (Inr (), scatter (concat cs) (drop (off + ?n) f) (scatter c (take ?n (drop off f)) buf), [])"
    using Cons.prems by (intro Cons.IH) simp
  finally show ?case by (simp add: scatter_append scatter_take add.commute del: preadv_chunks.simps)
qed simp

definition load_views :: "(nat \<times> bytes) list \<Rightarrow> nat \<Rightarrow> nat \<Rightarrow> (nat \<times> nat) list \<Rightarrow> bytes \<Rightarrow> bytes" where
  "load_views files sid off views buf = scatter views (drop off (dict_get files sid [])) buf"

lemma load_flush_full:
  assumes "0 < limit" "views \<noteq> [] \<longrightarrow> present files sid off (views_length views)"
  shows "load_flush limit files sid off views buf [] = (Inr (), load_views files sid off views buf, [])"
proof (cases "views = []")
  case False
  with assms(2) obtain f where "map_of files sid = Some f" "off + views_length views \<le> length f"
    by (auto simp: present_def)
  with False assms(1) preadv_chunks_full [of off "chunks_of limit views" f buf] show ?thesis
    by (simp add: load_flush_def preadv_all_def load_views_def concat_chunks_of)
qed (simp add: load_flush_def load_views_def)

text \<open>The effect of one entry: its range of the segment, copied to its destination.\<close>

definition load_block_at :: "(nat \<times> bytes) list \<Rightarrow> segment_location \<times> nat \<times> nat \<Rightarrow> bytes \<Rightarrow> bytes" where
  "load_block_at files e buf =
     splice (fst (snd e)) (content files (segment_id (fst e)) (offset (fst e)) (snd (snd e))) buf"

definition loadable :: "nat \<Rightarrow> (nat \<times> bytes) list \<Rightarrow> segment_location \<Rightarrow> bool" where
  "loadable bs files l \<longleftrightarrow> loc_length l = bs \<and> present files (segment_id l) (offset l) bs"

lemma load_views_single: "load_views files (segment_id l) (offset l) [dst] buf = load_block_at files (l, dst) buf"
  by (cases dst) (simp add: load_views_def load_block_at_def content_def slice_def)

lemma load_views_snoc:
  "load_views files sid off (views @ [dst]) buf =
     splice (fst dst) (content files sid (off + views_length views) (snd dst)) (load_views files sid off views buf)"
  by (cases dst) (simp add: load_views_def scatter_append content_def slice_def add.commute)

lemma load_loop_full:
  assumes "0 < limit" "\<forall>e \<in> set es. loadable bs files (fst e) \<and> snd (snd e) = bs"
    and "views \<noteq> [] \<longrightarrow> present files sid off len" "len = views_length views"
  shows "load_loop limit bs files es sid off len views buf [] =
    (Inr (), fold (load_block_at files) es (load_views files sid off views buf), [])"
  using assms(2-4)
proof (induction es arbitrary: sid off len views buf)
  case Nil
  then show ?case by (simp add: load_flush_full [OF assms(1)])
next
  case (Cons e es)
  obtain l dst where e: "e = (l, dst)" by (cases e)
  have le: "loc_length l = bs" "present files (segment_id l) (offset l) bs" "snd dst = bs"
    using Cons.prems(1) by (simp_all add: e loadable_def)
  have es: "\<forall>e \<in> set es. loadable bs files (fst e) \<and> snd (snd e) = bs" using Cons.prems(1) by simp
  have one: "[dst] \<noteq> [] \<longrightarrow> present files (segment_id l) (offset l) (snd dst)" "snd dst = views_length [dst]"
    using le by simp_all
  consider "views = []" | "views \<noteq> []" "segment_id l \<noteq> sid \<or> offset l \<noteq> off + len"
    | "views \<noteq> []" "segment_id l = sid" "offset l = off + len" by blast
  then show ?case
  proof cases
    case 1
    then show ?thesis
      using Cons.IH [OF es one] by (simp add: e le(1) load_views_single) (simp add: load_views_def)
  next
    case 2
    then show ?thesis
      using Cons.IH [OF es one] load_flush_full [OF assms(1), of views files sid off] Cons.prems(2,3)
      by (simp add: e le(1) load_views_single)
  next
    case 3
    have "views @ [dst] \<noteq> [] \<longrightarrow> present files sid off (len + snd dst)" "len + snd dst = views_length (views @ [dst])"
      using le 3 Cons.prems(3) by (auto simp: present_def)
    from Cons.IH [OF es this] 3 Cons.prems(3) show ?thesis
      by (simp add: e le(1) load_views_snoc load_block_at_def)
  qed
qed

text \<open>Several entries with different destination blocks.\<close>

lemma load_blocks:
  assumes "distinct (map (fst \<circ> snd) es)"
    and "\<forall>e \<in> set es. snd (snd e) = bs \<and> (\<exists>b. fst (snd e) = b * bs \<and> block_in bs buf b)"
    and "\<forall>e \<in> set es. loadable bs files (fst e)"
  shows "length (fold (load_block_at files) es buf) = length buf \<and>
    (\<forall>e \<in> set es. slice (fst (snd e)) bs (fold (load_block_at files) es buf) =
       content files (segment_id (fst e)) (offset (fst e)) bs) \<and>
    (\<forall>b. b * bs \<notin> set (map (fst \<circ> snd) es) \<longrightarrow>
       slice (b * bs) bs (fold (load_block_at files) es buf) = slice (b * bs) bs buf)"
  using assms
proof (induction es arbitrary: buf)
  case (Cons e es)
  let ?buf = "load_block_at files e buf" and ?data = "content files (segment_id (fst e)) (offset (fst e)) bs"
  obtain b where b: "fst (snd e) = b * bs" "block_in bs buf b" "snd (snd e) = bs" using Cons.prems(2) by auto
  have data: "length ?data = bs" using Cons.prems(3) by (auto simp: loadable_def present_def content_def slice_def)
  have buf: "?buf = splice (b * bs) ?data buf" by (simp add: load_block_at_def b)
  have fits: "b * bs + length ?data \<le> length buf" using b(2) data by (simp add: block_in_def)
  have len: "length ?buf = length buf" unfolding buf by (rule length_splice [OF fits])
  have same: "slice (b * bs) bs ?buf = ?data" using slice_splice_same [OF fits] by (simp add: buf data)
  have other: "slice (b' * bs) bs ?buf = slice (b' * bs) bs buf" if "b' * bs \<noteq> b * bs" for b'
  proof -
    from that have "b' \<noteq> b" by auto
    then have "b' * bs + bs \<le> b * bs \<or> b * bs + bs \<le> b' * bs"
      by (metis add.commute mult_Suc mult_le_mono1 not_less_eq_eq nat_le_linear le_antisym Suc_leI le_neq_implies_less)
    then show ?thesis unfolding buf by (intro slice_splice_other [OF fits]) (simp add: data)
  qed
  have "\<forall>e \<in> set es. snd (snd e) = bs \<and> (\<exists>b. fst (snd e) = b * bs \<and> block_in bs ?buf b)"
    using Cons.prems(2) by (simp add: block_in_def len)
  note IH = Cons.IH [OF _ this] 
  have "length (fold (load_block_at files) es ?buf) = length ?buf \<and>
    (\<forall>e \<in> set es. slice (fst (snd e)) bs (fold (load_block_at files) es ?buf) =
       content files (segment_id (fst e)) (offset (fst e)) bs) \<and>
    (\<forall>b. b * bs \<notin> set (map (fst \<circ> snd) es) \<longrightarrow>
       slice (b * bs) bs (fold (load_block_at files) es ?buf) = slice (b * bs) bs ?buf)"
    using Cons.prems(1,3) by (intro IH) simp_all
  moreover have "b * bs \<notin> set (map (fst \<circ> snd) es)" using Cons.prems(1) b(1) by simp
  ultimately show ?case using len same other b(1) by simp
qed simp

end
