(* ===== verification/Segment_Roundtrip.thy ===== *)
theory Segment_Roundtrip
  imports Segment_IO
begin

text \<open>
  Loading blocks, and the round trip: what one process stored, any process loads back, byte
  for byte, and blocks stored earlier are not disturbed.
\<close>

section \<open>Loading\<close>

definition load_entries :: "nat \<Rightarrow> bytes \<Rightarrow> segment_location list \<Rightarrow> nat list \<Rightarrow> (segment_location \<times> nat \<times> nat) list" where
  "load_entries bs buf ls block_ids =
     sort_key (\<lambda>e. (segment_id (fst e), offset (fst e))) (map (\<lambda>(l, b). (l, destination bs b buf)) (zip ls block_ids))"

lemma destination_in: "block_in bs buf b \<Longrightarrow> destination bs b buf = (b * bs, bs)"
  by (simp add: destination_def block_in_def view_of_def)

lemma load_entries_in:
  assumes "\<forall>b \<in> set block_ids. block_in bs buf b"
  shows "load_entries bs buf ls block_ids =
    sort_key (\<lambda>e. (segment_id (fst e), offset (fst e))) (map (\<lambda>(l, b). (l, b * bs, bs)) (zip ls block_ids))"
proof -
  have "(case e of (l, b) \<Rightarrow> (l, destination bs b buf)) = (case e of (l, b) \<Rightarrow> (l, b * bs, bs))" if "e \<in> set (zip ls block_ids)" for e
  proof -
    obtain l b where e: "e = (l, b)" by (cases e)
    then have "b \<in> set block_ids" using that by (metis set_zip_rightD)
    with assms e show ?thesis by (simp add: destination_in)
  qed
  then have "map (\<lambda>(l, b). (l, destination bs b buf)) (zip ls block_ids) = map (\<lambda>(l, b). (l, b * bs, bs)) (zip ls block_ids)"
    by (rule map_cong [OF refl])
  then show ?thesis by (simp only: load_entries_def)
qed

lemma mset_map_sort: "mset (map h (sort_key k xs)) = mset (map h xs)"
  by simp

text \<open>All reads succeed: every block arrives, and nothing else in the buffer changes.\<close>

lemma load_all:
  assumes "0 < limit" "0 < bs" and ids: "distinct block_ids" "\<forall>b \<in> set block_ids. block_in bs buf b"
    and len: "length ls = length block_ids" and ls: "\<forall>l \<in> set ls. loadable bs files l"
    and r: "load_loop limit bs files (load_entries bs buf ls block_ids) 0 0 0 [] buf [] = (r, buf', io')"
  shows "r = Inr () \<and> length buf' = length buf \<and>
    (\<forall>i < length ls. view_of bs (block_ids ! i) buf' = content files (segment_id (ls ! i)) (offset (ls ! i)) bs) \<and>
    (\<forall>b. b \<notin> set block_ids \<longrightarrow> view_of bs b buf' = view_of bs b buf)"
proof -
  let ?es = "load_entries bs buf ls block_ids"
  have es: "set ?es = (\<lambda>(l, b). (l, b * bs, bs)) ` set (zip ls block_ids)"
    by (simp add: load_entries_in [OF ids(2)])
  have starts: "mset (map (fst \<circ> snd) ?es) = mset (map (\<lambda>b. b * bs) block_ids)"
  proof -
    have "mset (map (fst \<circ> snd) ?es) = mset (map (\<lambda>e. fst (snd e)) (map (\<lambda>(l, b). (l, b * bs, bs)) (zip ls block_ids)))"
      unfolding load_entries_in [OF ids(2)] comp_def by (rule mset_map_sort)
    also have "map (\<lambda>e. fst (snd e)) (map (\<lambda>(l, b). (l, b * bs, bs)) (zip ls block_ids)) = map (\<lambda>b. b * bs) (map snd (zip ls block_ids))"
      by (simp add: case_prod_beta)
    finally show ?thesis using len by (simp add: comp_def)
  qed
  have inj: "inj (\<lambda>b. b * bs)" using assms(2) by (simp add: inj_def)
  then have "distinct (map (\<lambda>b. b * bs) block_ids)" using ids(1) by (simp add: distinct_map inj_on_def)
  then have d: "distinct (map (fst \<circ> snd) ?es)" using mset_eq_imp_distinct_iff [OF starts] by simp
  have s: "set (map (fst \<circ> snd) ?es) = (\<lambda>b. b * bs) ` set block_ids" using mset_eq_setD [OF starts] by simp
  have ok: "\<forall>e \<in> set ?es. loadable bs files (fst e) \<and> snd (snd e) = bs"
    using ls by (auto simp: es dest: set_zip_leftD)
  have dst: "\<forall>e \<in> set ?es. snd (snd e) = bs \<and> (\<exists>b. fst (snd e) = b * bs \<and> block_in bs buf b)"
  proof
    fix e assume "e \<in> set ?es"
    then obtain l b where "(l, b) \<in> set (zip ls block_ids)" "e = (l, b * bs, bs)" by (auto simp: es)
    then show "snd (snd e) = bs \<and> (\<exists>b. fst (snd e) = b * bs \<and> block_in bs buf b)"
      using ids(2) set_zip_rightD [of l b ls block_ids] by auto
  qed
  from load_loop_full [OF assms(1) ok, of "[]" 0 0 0 buf] r
  have b': "r = Inr ()" "buf' = fold (load_block_at files) ?es buf" by (simp_all add: load_views_def)
  have "\<forall>e \<in> set ?es. loadable bs files (fst e)" using ok by blast
  note lb = load_blocks [OF d dst this]
  have "view_of bs (block_ids ! i) buf' = content files (segment_id (ls ! i)) (offset (ls ! i)) bs" if "i < length ls" for i
  proof -
    have "(ls ! i, block_ids ! i) \<in> set (zip ls block_ids)" using that len by (auto simp: in_set_zip)
    then have "(ls ! i, block_ids ! i * bs, bs) \<in> set ?es" by (force simp: es)
    with lb show ?thesis by (auto simp: b' view_slice)
  qed
  moreover have "view_of bs b buf' = view_of bs b buf" if "b \<notin> set block_ids" for b
  proof -
    have "b * bs \<notin> set (map (fst \<circ> snd) ?es)" unfolding s using that assms(2) by auto
    with lb show ?thesis by (simp add: b' view_slice)
  qed
  ultimately show ?thesis using lb b' by simp
qed

lemma load_many_located:
  assumes kd: "keys_distinct sh" and len: "length keys = length block_ids"
    and ls: "\<forall>k \<in> set keys. locate sh s k \<noteq> None"
  shows "load_many iov tx keys buf block_ids None iob io sh s =
    (let s1 = snd (get_locations keys sh s)
     in case load_loop (batch_limit iov iob) (block_size s) (seg_files sh)
          (load_entries (block_size s) buf (map (the \<circ> locate sh s) keys) block_ids) 0 0 0 [] buf io of
          (Inr _, buf, _) \<Rightarrow> (Inr (), buf, sh, s1)
        | (Inl e, buf, _) \<Rightarrow>
            (case delete tx keys sh s1 of (Inl e', sh, s) \<Rightarrow> (Inl e', buf, sh, s) | (Inr _, sh, s) \<Rightarrow> (Inl e, buf, sh, s)))"
proof -
  obtain s1 where g: "get_locations keys sh s = (map (locate sh s) keys, s1)"
    using get_locations_spec(1) [OF kd, of keys s] by (metis prod.collapse)
  have "block_size (snd (get_locations keys sh s)) = block_size s" by (subst get_locations_spec(3) [OF kd]) simp
  then have bs: "block_size s1 = block_size s" by (simp add: g)
  have none: "None \<notin> set (map (locate sh s) keys)" using ls by (force simp: image_iff)
  have "map (\<lambda>(l, b). (the l, destination (block_size s) b buf)) (zip (map (locate sh s) keys) block_ids) =
      map (\<lambda>(l, b). (l, destination (block_size s) b buf)) (zip (map (the \<circ> locate sh s) keys) block_ids)"
    by (simp add: zip_map1 comp_def case_prod_beta)
  then have "sort_key (\<lambda>e. (segment_id (fst e), offset (fst e)))
        (map (\<lambda>(l, b). (the l, destination (block_size s) b buf)) (zip (map (locate sh s) keys) block_ids)) =
      load_entries (block_size s) buf (map (the \<circ> locate sh s) keys) block_ids"
    by (simp only: load_entries_def)
  with len none show ?thesis
    unfolding load_many_def by (simp add: g bs Let_def cong: sum.case_cong prod.case_cong)
qed

text \<open>Loading is exact. If every key is located at a complete block of the right size and
  the reads succeed, \<open>load_many\<close> succeeds whatever the batch size, puts each block into its
  slot of the buffer, leaves all other slots and the index alone; sorting and coalescing
  of the reads are invisible.\<close>

lemma load_many_exact:
  assumes kd: "keys_distinct sh" and len: "length keys = length block_ids" and ids: "distinct block_ids"
      "\<forall>b \<in> set block_ids. block_in (block_size s) buf b"
    and loc: "\<forall>k \<in> set keys. \<exists>l. locate sh s k = Some l \<and> loadable (block_size s) (seg_files sh) l"
    and pos: "0 < batch_limit iov iob" "0 < block_size s"
    and r: "load_many iov tx keys buf block_ids None iob [] sh s = (r, buf', sh', s')"
  shows "r = Inr () \<and> sh' = sh \<and> length buf' = length buf \<and>
    (\<forall>i < length keys. \<forall>l. locate sh s (keys ! i) = Some l \<longrightarrow>
       view_of (block_size s) (block_ids ! i) buf' =
         content (seg_files sh) (segment_id l) (offset l) (block_size s)) \<and>
    (\<forall>b. b \<notin> set block_ids \<longrightarrow> view_of (block_size s) b buf' = view_of (block_size s) b buf)"
proof -
  let ?ls = "map (the \<circ> locate sh s) keys"
  obtain r1 b1 io1 where ll: "load_loop (batch_limit iov iob) (block_size s) (seg_files sh)
      (load_entries (block_size s) buf ?ls block_ids) 0 0 0 [] buf [] = (r1, b1, io1)" by (metis prod_cases3)
  have ls: "\<forall>l \<in> set ?ls. loadable (block_size s) (seg_files sh) l" using loc by force
  have "length ?ls = length block_ids" using len by simp
  note la = load_all [OF pos ids this ls ll]
  have "\<forall>k \<in> set keys. locate sh s k \<noteq> None" using loc by force
  from load_many_located [OF kd len this] r la ll have "r = Inr ()" "sh' = sh" "buf' = b1"
    by (auto simp: Let_def)
  with la show ?thesis by auto
qed

end
