(* ===== verification/Segment_Durable.thy ===== *)
theory Segment_Durable
  imports Segment_Roundtrip
begin

text \<open>
  Storing and loading together: a store is all or nothing, what was stored is what any
  process loads, a failed load forgets the blocks, and what a stale cache does.
\<close>

section \<open>A write that succeeds has written everything\<close>

lemma pwritev_chunks_success:
  "pwritev_chunks cs off f io = (Inr u, f', io') \<Longrightarrow> pwritev_chunks cs off f [] = (Inr (), f', [])"
proof (induction cs arbitrary: off f io)
  case (Cons c cs)
  obtain x io1 where x: "next_io io = (x, io1)" by fastforce
  have n: "next_io [] = (Full, [])" by (simp add: next_io_def)
  from Cons.prems have "pwritev_chunks cs (off + length (concat c)) (pwrite off (concat c) f) io1 = (Inr u, f', io')"
    by (cases x) (auto simp: x Let_def split: if_splits)
  from Cons.IH [OF this] show ?case by (simp add: n Let_def)
qed simp

lemma write_flush_success:
  "write_flush limit sid off views files io = (Inr u, files', io') \<Longrightarrow>
     write_flush limit sid off views files [] = (Inr (), files', [])"
  by (cases "pwritev_all limit views off (dict_get files sid []) io")
    (auto simp: write_flush_def pwritev_all_def Let_def split: if_splits dest: pwritev_chunks_success)

lemma write_loop_success:
  "write_loop limit bs buf es sid off views files io = (Inr u, files', io') \<Longrightarrow>
     write_loop limit bs buf es sid off views files [] = (Inr (), files', [])"
proof (induction es arbitrary: sid off views files io)
  case Nil
  then show ?case by (simp add: write_flush_success)
next
  case (Cons e es)
  obtain r1 files1 io1 where fl: "write_flush limit sid off views files io = (r1, files1, io1)" by (metis prod_cases3)
  consider "views = []" | "views \<noteq> []" "sw_segment_id e \<noteq> sid \<or> sw_offset e \<noteq> off + length views * bs"
    | "views \<noteq> []" "sw_segment_id e = sid" "sw_offset e = off + length views * bs" by blast
  then show ?case
  proof cases
    case 2
    with Cons.prems fl obtain v where r1: "r1 = Inr v" by (cases r1) (auto simp: Let_def)
    with Cons.IH Cons.prems 2 fl write_flush_success [OF fl [unfolded r1]] show ?thesis by (auto simp: Let_def)
  qed (use Cons in \<open>auto simp: Let_def\<close>)
qed

section \<open>The blocks of a plan\<close>

lemma write_block_kept:
  assumes "present files sid off len" "sid \<noteq> sw_segment_id e \<or> apart off len (sw_offset e) (length (view_of bs (sw_block_id e) buf))"
  shows "kept sid off len files (write_block bs buf e files)"
proof -
  have "slice off len (pwrite (sw_offset e) (view_of bs (sw_block_id e) buf) f) = slice off len f"
    if "off + len \<le> length f" "sid = sw_segment_id e" for f
    using that assms(2) by (auto simp: apart_def intro: slice_pwrite_other)
  with assms(1) show ?thesis
    by (auto simp: kept_def present_def content_def write_block_def dict_simps length_pwrite)
qed

lemma write_block_own:
  assumes "block_in bs buf (sw_block_id e)"
  shows "present (write_block bs buf e files) (sw_segment_id e) (sw_offset e) bs \<and>
    content (write_block bs buf e files) (sw_segment_id e) (sw_offset e) bs = view_of bs (sw_block_id e) buf"
  using slice_pwrite_same [of "sw_offset e" "view_of bs (sw_block_id e) buf" "dict_get files (sw_segment_id e) []"]
    length_view [OF assms]
  by (simp add: present_def content_def write_block_def dict_simps length_pwrite)

lemma write_blocks_kept:
  assumes "present files sid off len" "0 < len"
    and "\<forall>e \<in> set es. \<not> overlap \<lparr>ex_seg = sid, ex_start = off, ex_end = off + len\<rparr> (extent_of bs e)" "0 < bs"
  shows "kept sid off len files (fold (write_block bs buf) es files)"
  using assms(1,3)
proof (induction es arbitrary: files)
  case (Cons e es)
  have "length (view_of bs (sw_block_id e) buf) \<le> bs" by (rule length_view_le)
  then have "sid \<noteq> sw_segment_id e \<or> apart off len (sw_offset e) (length (view_of bs (sw_block_id e) buf))"
    using Cons.prems(2) assms(2,4) by (auto simp: overlap_def extent_of_def apart_def)
  from write_block_kept [OF Cons.prems(1) this]
  have k: "kept sid off len files (write_block bs buf e files)" .
  then have "present (write_block bs buf e files) sid off len" by (simp add: kept_def)
  from Cons.IH [OF this] Cons.prems(2) have "kept sid off len (write_block bs buf e files) (fold (write_block bs buf) es (write_block bs buf e files))"
    by simp
  with k show ?case by (auto intro: kept_trans)
qed (simp add: kept_def)

lemma write_blocks_all:
  assumes "\<forall>e \<in> set es. block_in bs buf (sw_block_id e)" "no_overlap (map (extent_of bs) es)" "0 < bs"
  shows "\<forall>e \<in> set es. present (fold (write_block bs buf) es files) (sw_segment_id e) (sw_offset e) bs \<and>
    content (fold (write_block bs buf) es files) (sw_segment_id e) (sw_offset e) bs = view_of bs (sw_block_id e) buf"
  using assms(1,2)
proof (induction es arbitrary: files)
  case (Cons e es)
  let ?files = "write_block bs buf e files"
  have own: "present ?files (sw_segment_id e) (sw_offset e) bs \<and>
      content ?files (sw_segment_id e) (sw_offset e) bs = view_of bs (sw_block_id e) buf"
    using Cons.prems(1) by (intro write_block_own) simp
  have "\<forall>e' \<in> set es. \<not> overlap \<lparr>ex_seg = sw_segment_id e, ex_start = sw_offset e, ex_end = sw_offset e + bs\<rparr> (extent_of bs e')"
    using Cons.prems(2) by (simp add: extent_of_def)
  from write_blocks_kept [OF conjunct1 [OF own] assms(3) this assms(3)] own
  have "present (fold (write_block bs buf) es ?files) (sw_segment_id e) (sw_offset e) bs \<and>
    content (fold (write_block bs buf) es ?files) (sw_segment_id e) (sw_offset e) bs = view_of bs (sw_block_id e) buf"
    by (simp add: kept_def)
  with Cons show ?case by simp
qed simp

section \<open>Indexing what was written\<close>

lemma insert_entries_old:
  "map_of d k = Some l \<Longrightarrow> map_of (fold (\<lambda>e d. setdefault (sw_key e) (f e) d) es d) k = Some l"
proof (induction es arbitrary: d)
  case (Cons e es)
  then have "map_of (setdefault (sw_key e) (f e) d) k = Some l" by (metis map_of_setdefault option.distinct(1))
  from Cons.IH [OF this] show ?case by simp
qed simp

lemma insert_entries_new:
  assumes "distinct (map sw_key es)" "e \<in> set es" "map_of d (sw_key e) = None"
  shows "map_of (fold (\<lambda>e d. setdefault (sw_key e) (f e) d) es d) (sw_key e) = Some (f e)"
  using assms
proof (induction es arbitrary: d)
  case (Cons a es)
  show ?case
  proof (cases "a = e")
    case True
    with Cons.prems(3) show ?thesis by (auto simp: dict_simps intro!: insert_entries_old)
  next
    case False
    with Cons.prems have "e \<in> set es" "sw_key a \<noteq> sw_key e" by (auto simp: image_iff)
    with Cons show ?thesis by (auto simp: dict_simps)
  qed
qed simp

lemma write_entries_success:
  assumes "write_entries iov io_batch es buf io sh s = (Inr u, sh')" "0 < batch_limit iov io_batch"
    and "\<forall>e \<in> set es. block_in (block_size s) buf (sw_block_id e)"
  shows "sh' = sh\<lparr>seg_files := fold (write_block (block_size s) buf) es (seg_files sh)\<rparr>"
proof (cases "es = []")
  case True
  with assms(1) show ?thesis by (simp add: write_entries_def)
next
  case False
  obtain r files io' where w: "write_loop (batch_limit iov io_batch) (block_size s) buf es (sw_segment_id (hd es))
      (sw_offset (hd es)) [] (seg_files sh) io = (r, files, io')" by (metis prod_cases3)
  with assms(1) False have r: "r = Inr u" "sh' = sh\<lparr>seg_files := files\<rparr>" by (simp_all add: write_entries_def)
  from write_loop_success [OF w [unfolded r]] write_loop_full [OF assms(2,3), of "[]"] r(2) show ?thesis
    by (simp add: write_views_def)
qed

text \<open>The index rows: every one lies in an extent that the allocator knows of.\<close>

definition indexed_extents :: "segment_shared \<Rightarrow> extent list \<Rightarrow> bool" where
  "indexed_extents sh xs \<longleftrightarrow> (\<forall>k l. map_of (db_blocks sh) k = Some l \<longrightarrow> loc_extent l \<in> set xs)"

lemma no_overlap_appendD: "no_overlap (xs @ ys) \<Longrightarrow> x \<in> set xs \<Longrightarrow> y \<in> set ys \<Longrightarrow> \<not> overlap x y"
  by (simp add: sorted_wrt_append)

lemma prepare_store_lengths:
  "prepare_store True keys block_ids sh s = (r, sh', s') \<Longrightarrow> length keys = length block_ids \<Longrightarrow> \<exists>plan. r = Inr plan"
  by (auto simp: prepare_store_def Let_def case_prod_beta split: if_splits)

lemma write_entries_index:
  "write_entries iov io_batch es buf io sh s = (r, sh') \<Longrightarrow> db_blocks sh' = db_blocks sh \<and> db_meta sh' = db_meta sh"
  by (auto simp: write_entries_def case_prod_beta Let_def split: if_splits)

lemma prepare_store_kept:
  assumes "keys_distinct sh" "db_alloc_ok sh xs" "0 < segment_shards s" "prepare_store tx keys block_ids sh s = (r, sh', s')"
  shows "block_size s' = block_size s" "keys_distinct sh'"
proof -
  note c = prepare_store_cases [OF assms]
  from conjunct1 [OF c] show "block_size s' = block_size s"
    by (metis segment_store.simps(1) segment_store.surjective segment_store.update_convs(4))
  from c have "db_blocks sh' = db_blocks sh" by blast
  with assms(1) show "keys_distinct sh'" by (simp add: keys_distinct_def)
qed

lemma planned_blocks_in:
  assumes "keys_distinct sh" "db_alloc_ok sh xs" "0 < segment_shards s" "block_size s \<le> segment_size_bytes s"
    and p: "prepare_store tx keys block_ids sh s = (Inr plan, sh', s')"
    and ids: "\<forall>b \<in> set block_ids. block_in (block_size s) buf b"
  shows "\<forall>e \<in> set plan. block_in (block_size s) buf (sw_block_id e)"
proof
  fix e assume "e \<in> set plan"
  with prepare_store_plan [OF assms(1-4) p] have "map_of (zip keys block_ids) (sw_key e) = Some (sw_block_id e)" by blast
  then have "sw_block_id e \<in> set block_ids" by (metis map_of_SomeD set_zip_rightD)
  with ids show "block_in (block_size s) buf (sw_block_id e)" by blast
qed

text \<open>The writes of a plan, whatever their outcome, keep what is indexed.\<close>

lemma planned_writes_kept:
  assumes ix: "indexed_extents sh xs" and no: "no_overlap (xs @ map (extent_of (block_size s1)) plan)"
    and sh1: "db_blocks sh1 = db_blocks sh" "seg_files sh1 = seg_files sh"
    and blocks: "\<forall>e \<in> set plan. block_in (block_size s1) buf (sw_block_id e)" and size: "0 < block_size s1"
    and w: "write_entries iov None plan buf io sh1 s1 = (r, sh2)"
    and l: "map_of (db_blocks sh) k = Some l" "0 < loc_length l" "present (seg_files sh) (segment_id l) (offset l) (loc_length l)"
  shows "kept (segment_id l) (offset l) (loc_length l) (seg_files sh) (seg_files sh2)"
proof -
  have "loc_extent l \<in> set xs" using ix l(1) by (auto simp: indexed_extents_def)
  then have "\<forall>e \<in> set plan. \<not> overlap \<lparr>ex_seg = segment_id l, ex_start = offset l, ex_end = offset l + loc_length l\<rparr> (extent_of (block_size s1) e)"
    using no_overlap_appendD [OF no] by (simp add: loc_extent_def)
  from write_entries_kept [OF w _ l(2) _ this] l(3) size show ?thesis by (simp add: sh1)
qed

text \<open>A plan that was written without an error and completed: its keys are indexed at their blocks.\<close>

lemma completed_plan_loadable:
  assumes w: "write_entries iov None plan buf io sh1 s1 = (Inr u, sh2)" and iov: "0 < iov"
    and blocks: "\<forall>e \<in> set plan. block_in (block_size s1) buf (sw_block_id e)" and size: "0 < block_size s1"
    and plan: "distinct (map sw_key plan)" "no_overlap (map (extent_of (block_size s1)) plan)"
    and c: "complete_store tx plan True sh2 s1 = (Inr v, sh', s')"
    and e: "e \<in> set plan" "map_of (db_blocks sh1) (sw_key e) = None"
  shows "\<exists>l. map_of (db_blocks sh') (sw_key e) = Some l \<and> loadable (block_size s1) (seg_files sh') l \<and>
    content (seg_files sh') (segment_id l) (offset l) (block_size s1) = view_of (block_size s1) (sw_block_id e) buf"
proof -
  let ?f = "\<lambda>e. entry_location (block_size s1, e)"
  have tx using c e(1) by (auto simp: complete_store_def split: if_splits)
  then have sh': "sh' = sh2\<lparr>db_blocks := fold (\<lambda>e d. setdefault (sw_key e) (?f e) d) plan (db_blocks sh2)\<rparr>"
    using complete_store_shared [of tx plan True sh2 s1] c by simp
  have files: "seg_files sh2 = fold (write_block (block_size s1) buf) plan (seg_files sh1)"
    using write_entries_success [OF w _ blocks] iov by (simp add: batch_limit_def)
  have "\<forall>e \<in> set plan. present (seg_files sh2) (sw_segment_id e) (sw_offset e) (block_size s1) \<and>
      content (seg_files sh2) (sw_segment_id e) (sw_offset e) (block_size s1) = view_of (block_size s1) (sw_block_id e) buf"
    unfolding files by (rule write_blocks_all) (use blocks plan(2) size in simp_all)
  moreover have "map_of (db_blocks sh2) (sw_key e) = None" using e(2) write_entries_index [OF w] by simp
  from insert_entries_new [OF plan(1) e(1) this, of ?f] have "map_of (db_blocks sh') (sw_key e) = Some (?f e)"
    by (simp add: sh')
  ultimately show ?thesis using e(1) by (auto simp: sh' loadable_def entry_location_def)
qed

text \<open>
  What \<open>store_many\<close> does: on an error, the index is as before; else each new key is indexed
  at a complete copy of its block.
\<close>

lemma store_many_spec:
  assumes kd: "keys_distinct sh" and db: "db_alloc_ok sh xs" and ix: "indexed_extents sh xs"
    and n: "0 < segment_shards s" and size: "0 < block_size s" "block_size s \<le> segment_size_bytes s" and iov: "0 < iov"
    and ids: "\<forall>b \<in> set block_ids. block_in (block_size s) buf b"
    and r: "store_many iov tx1 tx2 keys buf block_ids io sh s = (r, sh', s')"
  shows "(case r of Inl _ \<Rightarrow> db_blocks sh' = db_blocks sh
      | Inr _ \<Rightarrow> \<forall>k b. locate sh s k = None \<and> map_of (zip keys block_ids) k = Some b \<longrightarrow>
          (\<exists>l. map_of (db_blocks sh') k = Some l \<and> loadable (block_size s) (seg_files sh') l \<and>
             content (seg_files sh') (segment_id l) (offset l) (block_size s) = view_of (block_size s) b buf)) \<and>
    (\<forall>k l. map_of (db_blocks sh) k = Some l \<longrightarrow> map_of (db_blocks sh') k = Some l) \<and>
    (\<forall>k l. map_of (db_blocks sh) k = Some l \<and> 0 < loc_length l \<and>
       present (seg_files sh) (segment_id l) (offset l) (loc_length l) \<longrightarrow>
       kept (segment_id l) (offset l) (loc_length l) (seg_files sh) (seg_files sh'))"
proof -
  obtain r1 sh1 s1 where p: "prepare_store tx1 keys block_ids sh s = (r1, sh1, s1)" by (metis prod_cases3)
  show ?thesis
  proof (cases r1)
    case (Inl e)
    from prepare_store_cases [OF kd db n p] Inl have "sh1 = sh" by auto
    with r p Inl show ?thesis by (auto simp: store_many_def kept_def)
  next
    case (Inr plan)
    note pc = prepare_store_plan [OF kd db n size(2) p [unfolded Inr]]
    note s1 = prepare_store_kept(1) [OF kd db n p]
    have pl: "db_blocks sh1 = db_blocks sh" "seg_files sh1 = seg_files sh" "distinct (map sw_key plan)"
      "no_overlap (xs @ map (extent_of (block_size s1)) plan)" using pc s1 by simp_all
    note blocks = planned_blocks_in [OF kd db n size(2) p [unfolded Inr] ids, folded s1]
    obtain r2 sh2 where w: "write_entries iov None plan buf io sh1 s1 = (r2, sh2)" by fastforce
    note wi = write_entries_index [OF w]
    note old = planned_writes_kept [OF ix pl(4,1,2) blocks _ w]
    show ?thesis
    proof (cases r2)
      case (Inl e)
      then have "sh' = sh2" "r = Inl e" using r p Inr w by (simp_all add: store_many_def complete_store_def)
      with wi pl(1) size(1) s1 show ?thesis by (auto intro: old)
    next
      case r2: (Inr u)
      let ?f = "\<lambda>e. entry_location (block_size s1, e)"
      have rr: "complete_store tx2 plan True sh2 s1 = (r, sh', s')" using r p Inr w r2 by (simp add: store_many_def)
      then have sh': "sh' = (if tx2 then sh2\<lparr>db_blocks := fold (\<lambda>e d. setdefault (sw_key e) (?f e) d) plan (db_blocks sh2)\<rparr> else sh2)"
        using complete_store_shared [of tx2 plan True sh2 s1] by simp
      have "\<exists>l. map_of (db_blocks sh') k = Some l \<and> loadable (block_size s) (seg_files sh') l \<and>
             content (seg_files sh') (segment_id l) (offset l) (block_size s) = view_of (block_size s) b buf"
        if k: "r = Inr v" "locate sh s k = None" "map_of (zip keys block_ids) k = Some b" for v k b
      proof -
        from k pc obtain e where e: "e \<in> set plan" "sw_key e = k" "sw_block_id e = b" by blast
        have "map_of (db_blocks sh1) (sw_key e) = None" using k(2) e(2) pl(1) by (simp add: locate_def split: option.splits)
        from completed_plan_loadable [OF w [unfolded r2] iov blocks _ pl(3) _ rr [unfolded k(1)] e(1) this] pl(4) size(1) e
        show ?thesis by (simp add: s1 sorted_wrt_append)
      qed
      moreover have "db_blocks sh' = db_blocks sh" if "r = Inl e" for e
        using rr that wi pl(1) by (auto simp: complete_store_def case_prod_beta Let_def split: if_splits)
      moreover have "map_of (db_blocks sh') k = Some l" if "map_of (db_blocks sh) k = Some l" for k l
        using that insert_entries_old [of "db_blocks sh" k l ?f plan] by (simp add: sh' wi pl(1))
      moreover have "seg_files sh' = seg_files sh2" by (simp add: sh')
      ultimately show ?thesis using size(1) s1 by (cases r) (auto intro: old)
    qed
  qed
qed

lemma store_many_returns:
  assumes kd: "keys_distinct sh" and db: "db_alloc_ok sh xs"
    and n: "0 < segment_shards s" "block_size s \<le> segment_size_bytes s" and iov: "0 < iov"
    and ids: "\<forall>b \<in> set block_ids. block_in (block_size s) buf b"
    and len: "length keys = length block_ids"
  shows "fst (store_many iov True True keys buf block_ids [] sh s) = Inr ()"
proof -
  obtain plan sh1 s1 where p: "prepare_store True keys block_ids sh s = (Inr plan, sh1, s1)"
    using prepare_store_lengths [OF _ len] by (metis prod_cases3)
  note planned_blocks_in [OF kd db n p ids, folded prepare_store_kept(1) [OF kd db n(1) p]]
  with iov show ?thesis
    by (simp add: store_many_def p write_entries_full batch_limit_def complete_store_def case_prod_beta Let_def)
qed

section \<open>Round trip\<close>

text \<open>A cache is current if what it holds is what the index holds.\<close>

definition cache_current :: "segment_shared \<Rightarrow> segment_store \<Rightarrow> bool" where
  "cache_current sh s \<longleftrightarrow> (\<forall>k l. map_of (location_cache s) k = Some l \<longrightarrow> map_of (db_blocks sh) k = Some l)"

lemma locate_current: "cache_current sh s \<Longrightarrow> locate sh s k = map_of (db_blocks sh) k"
  by (auto simp: locate_def cache_current_def split: option.splits)

lemma store_many_distinct:
  assumes "keys_distinct sh" "store_many iov tx1 tx2 keys buf block_ids io sh s = (r, sh', s')"
    "db_alloc_ok sh xs" "0 < segment_shards s"
  shows "keys_distinct sh'"
proof -
  obtain r1 sh1 s1 where p: "prepare_store tx1 keys block_ids sh s = (r1, sh1, s1)" by (metis prod_cases3)
  note kd = prepare_store_kept(2) [OF assms(1,3,4) p]
  show ?thesis
  proof (cases r1)
    case (Inl e)
    with assms(2) p kd show ?thesis by (simp add: store_many_def)
  next
    case (Inr plan)
    obtain r2 sh2 where w: "write_entries iov None plan buf io sh1 s1 = (r2, sh2)" by fastforce
    with kd have kd2: "keys_distinct sh2" using write_entries_index [OF w] by (simp add: keys_distinct_def)
    show ?thesis
    proof (cases r2)
      case (Inl e)
      with assms(2) p Inr w kd2 show ?thesis by (simp add: store_many_def complete_store_def)
    next
      case r2: (Inr u)
      with assms(2) p Inr w have "sh' = fst (snd (complete_store tx2 plan True sh2 s1))" by (simp add: store_many_def)
      with kd2 show ?thesis
        by (simp add: complete_store_shared keys_distinct_def distinct_insert_entries)
    qed
  qed
qed

text \<open>What was loadable before a store is loadable after it, with the same bytes.\<close>

lemma store_many_keeps:
  assumes pre: "keys_distinct sh" "db_alloc_ok sh xs" "indexed_extents sh xs" "0 < segment_shards s" "0 < block_size s"
      "block_size s \<le> segment_size_bytes s" "0 < iov" "\<forall>b \<in> set block_ids. block_in (block_size s) buf b"
    and store: "store_many iov tx1 tx2 keys buf block_ids io sh s = (r, sh1, s1)"
    and l: "map_of (db_blocks sh) k = Some l" "loadable (block_size s) (seg_files sh) l"
  shows "map_of (db_blocks sh1) k = Some l \<and> loadable (block_size s) (seg_files sh1) l \<and>
    content (seg_files sh1) (segment_id l) (offset l) (block_size s) =
      content (seg_files sh) (segment_id l) (offset l) (block_size s)"
proof -
  from l(2) pre(5) have "0 < loc_length l" "present (seg_files sh) (segment_id l) (offset l) (loc_length l)"
    by (simp_all add: loadable_def)
  with store_many_spec [OF pre store] l(1) have "map_of (db_blocks sh1) k = Some l"
    "kept (segment_id l) (offset l) (loc_length l) (seg_files sh) (seg_files sh1)" by blast+
  with l(2) show ?thesis by (simp add: kept_def loadable_def)
qed

text \<open>C1: What is stored is what is loaded. \<open>store_many\<close> of new keys, with any outcome of its
  writes and transactions, either raises and leaves the index as it was, or returns; then
  another process (with the same block size and a current cache) that loads the keys into
  any blocks of any buffer, in batches of any size, gets back exactly the bytes that were
  stored. Without I/O errors it does return. In each case, the blocks that were stored
  before keep their locations and bytes.\<close>

theorem store_load_roundtrip:
  assumes kd: "keys_distinct sh" and db: "db_alloc_ok sh xs" and ix: "indexed_extents sh xs"
    and st: "0 < segment_shards s" "0 < block_size s" "block_size s \<le> segment_size_bytes s" "0 < iov"
    and src: "distinct keys" "length keys = length block_ids" "\<forall>b \<in> set block_ids. block_in (block_size s) buf b"
    and new: "\<forall>k \<in> set keys. locate sh s k = None"
    and store: "store_many iov tx1 tx2 keys buf block_ids io sh s = (r, sh1, s1)"
    and reader: "block_size t = block_size s" "cache_current sh1 t"
    and dst: "length keys = length ids" "distinct ids" "\<forall>b \<in> set ids. block_in (block_size s) buf2 b" "0 < batch_limit iov iob"
    and load: "load_many iov tx keys buf2 ids None iob [] sh1 t = (r2, buf2', sh2, t2)"
  shows "(case r of Inl _ \<Rightarrow> db_blocks sh1 = db_blocks sh
      | Inr _ \<Rightarrow> r2 = Inr () \<and> sh2 = sh1 \<and>
          (\<forall>i < length keys. view_of (block_size s) (ids ! i) buf2' = view_of (block_size s) (block_ids ! i) buf)) \<and>
    (io = [] \<and> tx1 \<and> tx2 \<longrightarrow> r = Inr ()) \<and>
    (\<forall>k l. map_of (db_blocks sh) k = Some l \<and> loadable (block_size s) (seg_files sh) l \<longrightarrow>
       map_of (db_blocks sh1) k = Some l \<and> loadable (block_size s) (seg_files sh1) l \<and>
       content (seg_files sh1) (segment_id l) (offset l) (block_size s) =
         content (seg_files sh) (segment_id l) (offset l) (block_size s))"
proof -
  note spec = store_many_spec [OF kd db ix st src(3) store]
  note old = store_many_keeps [OF kd db ix st src(3) store]
  have ret: "r = Inr ()" if "io = []" "tx1" "tx2"
    using store_many_returns [OF kd db st(1,3,4) src(3,2)] that store by simp
  have "r2 = Inr () \<and> sh2 = sh1 \<and>
      (\<forall>i < length keys. view_of (block_size s) (ids ! i) buf2' = view_of (block_size s) (block_ids ! i) buf)" if r: "r = Inr u" for u
  proof -
    have stored: "\<exists>l. locate sh1 t (keys ! i) = Some l \<and> loadable (block_size t) (seg_files sh1) l \<and>
        content (seg_files sh1) (segment_id l) (offset l) (block_size t) = view_of (block_size s) (block_ids ! i) buf"
      if i: "i < length keys" for i
    proof -
      have "map_of (zip keys block_ids) (keys ! i) = Some (block_ids ! i)"
        using i src(1,2) by (simp add: map_of_zip_nth)
      moreover have "locate sh s (keys ! i) = None" using i new by simp
      ultimately show ?thesis using spec r by (auto simp: locate_current [OF reader(2)] reader(1))
    qed
    then have loc: "\<forall>k \<in> set keys. \<exists>l. locate sh1 t k = Some l \<and> loadable (block_size t) (seg_files sh1) l"
      by (metis in_set_conv_nth)
    have bs: "\<forall>b \<in> set ids. block_in (block_size t) buf2 b" "0 < block_size t" using dst(3) st(2) by (simp_all add: reader(1))
    from load_many_exact [OF store_many_distinct [OF kd store db st(1)] dst(1,2) bs(1) loc dst(4) bs(2) load]
    have "r2 = Inr ()" "sh2 = sh1" and views: "\<And>i l. i < length keys \<Longrightarrow> locate sh1 t (keys ! i) = Some l \<Longrightarrow>
       view_of (block_size t) (ids ! i) buf2' = content (seg_files sh1) (segment_id l) (offset l) (block_size t)" by blast+
    moreover have "view_of (block_size s) (ids ! i) buf2' = view_of (block_size s) (block_ids ! i) buf" if i: "i < length keys" for i
      using stored [OF i] views [OF i] by (auto simp: reader(1))
    ultimately show ?thesis by blast
  qed
  with spec have "case r of Inl _ \<Rightarrow> db_blocks sh1 = db_blocks sh | Inr _ \<Rightarrow> r2 = Inr () \<and> sh2 = sh1 \<and>
      (\<forall>i < length keys. view_of (block_size s) (ids ! i) buf2' = view_of (block_size s) (block_ids ! i) buf)"
    by (cases r) simp_all
  with ret old show ?thesis by blast
qed

text \<open>A reader of the same block size that has not looked anything up.\<close>

definition reader_store :: segment_store where
  "reader_store = \<lparr>block_size = 2, segment_size_bytes = 8, segment_shards = 1, location_cache = [], closed = False\<rparr>"

theorem store_load_roundtrip_witness:
  "\<exists>r sh1 s1 r2 buf' sh2 t2.
     store_many 1 True True [''k1'', ''k2'', ''k3''] ''ABCDEFGH'' [3, 0, 1] [Full, Short 2] legacy_shared sample_store = (r, sh1, s1) \<and>
     load_many 1 True [''k1'', ''k2'', ''k3''] ''abcdefgh'' [1, 2, 0] None (Some 2) [] sh1 reader_store = (r2, buf', sh2, t2) \<and>
     r = Inr () \<and> r2 = Inr () \<and> view_of 2 1 buf' = ''GH'' \<and> view_of 2 2 buf' = ''AB'' \<and> view_of 2 0 buf' = ''CD''"
proof -
  let ?st = "store_many 1 True True [''k1'', ''k2'', ''k3''] ''ABCDEFGH'' [3, 0, 1] [Full, Short 2] legacy_shared sample_store"
  obtain r sh1 s1 where st: "?st = (r, sh1, s1)" by (metis prod_cases3)
  have "fst ?st = Inr ()" by code_simp
  then have r: "r = Inr ()" by (simp only: st fst_conv)
  let ?ld = "load_many 1 True [''k1'', ''k2'', ''k3''] ''abcdefgh'' [1, 2, 0] None (Some 2) [] sh1 reader_store"
  obtain r2 buf' sh2 t2 where ld: "?ld = (r2, buf', sh2, t2)" by (metis prod_cases4)
  have ix: "indexed_extents legacy_shared legacy_extents"
    by (auto simp: indexed_extents_def legacy_extents_def legacy_shared_def split: if_splits)
  have cur: "cache_current sh1 reader_store" by (simp add: cache_current_def reader_store_def)
  have new: "\<forall>k \<in> set [''k1'', ''k2'', ''k3'']. locate legacy_shared sample_store k = None" by code_simp
  have "\<forall>i < length [''k1'', ''k2'', ''k3'']. view_of (block_size sample_store) ([1, 2, 0] ! i) buf' =
      view_of (block_size sample_store) ([3, 0, 1] ! i) ''ABCDEFGH''" and r2: "r2 = Inr ()"
  proof -
    have p: "0 < segment_shards sample_store" "0 < block_size sample_store" "block_size sample_store \<le> segment_size_bytes sample_store"
      "0 < (1 :: nat)" "block_size reader_store = block_size sample_store"
      by (simp_all add: sample_store_def reader_store_def)
    have k: "distinct [''k1'', ''k2'', ''k3'']" "length [''k1'', ''k2'', ''k3''] = length [3, 0, 1 :: nat]"
      "length [''k1'', ''k2'', ''k3''] = length [1, 2, 0 :: nat]" "distinct [1, 2, 0 :: nat]" "0 < batch_limit 1 (Some 2)"
      by (simp_all add: batch_limit_def)
    have b: "\<forall>b \<in> set [3, 0, 1]. block_in (block_size sample_store) ''ABCDEFGH'' b"
      "\<forall>b \<in> set [1, 2, 0]. block_in (block_size sample_store) ''abcdefgh'' b"
      by (simp_all add: block_in_def sample_store_def)
    from store_load_roundtrip [OF legacy_shared_ok ix p(1-4) k(1,2) b(1) new st p(5) cur k(3,4) b(2) k(5) ld]
    show "\<forall>i < length [''k1'', ''k2'', ''k3'']. view_of (block_size sample_store) ([1, 2, 0] ! i) buf' =
      view_of (block_size sample_store) ([3, 0, 1] ! i) ''ABCDEFGH''" "r2 = Inr ()"
      unfolding r sum.case by blast+
  qed
  then have v: "view_of 2 ([1, 2, 0] ! i) buf' = view_of 2 ([3, 0, 1] ! i) ''ABCDEFGH''" if "i < 3" for i
    using that by (simp add: sample_store_def)
  from v [of 0] v [of 1] v [of 2] have "view_of 2 1 buf' = ''GH''" "view_of 2 2 buf' = ''AB''" "view_of 2 0 buf' = ''CD''"
    by (simp_all add: view_of_def numeral_2_eq_2)
  with st ld r r2 show ?thesis by blast
qed

section \<open>Stale locations\<close>

text \<open>C38: A location that this process has cached hides a block that another process has
  deleted. \<open>contains_many\<close> reports the block as stored; \<open>store_many\<close> returns normally
  and stores nothing, with whatever data and I/O outcomes; a process without a cached
  location does not find the block; and no \<open>delete\<close> by this process, on its own or after
  a failed load, clears the entry.\<close>

theorem stale_location_hides_store:
  assumes kd: "keys_distinct sh" and cached: "map_of (location_cache s) k = Some l" and gone: "map_of (db_blocks sh) k = None"
    and other: "map_of (location_cache t) k = None"
  shows "fst (contains_many [k] sh s) = [True] \<and>
    store_many iov tx1 tx2 [k] buf [b] io sh s = (Inr (), sh, snd (get_locations [k] sh s)) \<and>
    fst (load_many iov tx [k] buf [b] None iob io sh t) = Inl (FileNotFoundError 1) \<and>
    map_of (location_cache (snd (snd (delete True [k] sh s)))) k = Some l"
proof -
  have loc: "locate sh s k = Some l" by (simp add: locate_def cached)
  have "prepare_store tx1 [k] [b] sh s = (Inr [], sh, snd (get_locations [k] sh s))"
    by (simp add: prepare_store_def contains_many_spec [OF kd] loc unstored_def)
  then have "store_many iov tx1 tx2 [k] buf [b] io sh s = (Inr (), sh, snd (get_locations [k] sh s))"
    by (simp add: store_many_def write_entries_def complete_store_def)
  moreover have "fst (get_locations [k] sh t) = [None]"
    by (simp add: get_locations_spec(1) [OF kd] locate_def gone other)
  then have "fst (load_many iov tx [k] buf [b] None iob io sh t) = Inl (FileNotFoundError 1)"
    by (cases "get_locations [k] sh t") (simp add: load_many_def)
  moreover have "map_of (location_cache (snd (snd (delete True [k] sh s)))) k = Some l"
    using map_of_filter_keys [where P = "\<lambda>x. x \<notin> set [k] \<inter> dom (map_of (db_blocks sh))" and d = "location_cache s" and k = k] cached
    by (simp add: delete_spec gone domIff)
  ultimately show ?thesis by (simp add: contains_many_spec [OF kd] loc)
qed

text \<open>The state arises: one process looks the block up, another deletes it.\<close>

definition deleted_shared :: segment_shared where
  "deleted_shared = fst (snd (delete True [''o1''] legacy_shared reader_store))"

definition stale_store :: segment_store where
  "stale_store = snd (contains_many [''o1''] legacy_shared sample_store)"

theorem stale_location_hides_store_witness:
  "fst (contains_many [''o1''] deleted_shared stale_store) = [True] \<and>
   fst (store_many 8 True True [''o1''] ''XY'' [0] [] deleted_shared stale_store) = Inr () \<and>
   fst (load_many 8 True [''o1''] ''XY'' [0] None None [] deleted_shared reader_store) = Inl (FileNotFoundError 1)"
proof -
  have kd: "keys_distinct deleted_shared" by code_simp
  have c: "map_of (location_cache stale_store) ''o1'' = Some \<lparr>segment_id = 3, offset = 0, loc_length = 2\<rparr>" by code_simp
  have g: "map_of (db_blocks deleted_shared) ''o1'' = None" by code_simp
  have r: "map_of (location_cache reader_store) ''o1'' = None" by (simp add: reader_store_def)
  from stale_location_hides_store [OF kd c g r, of 8 True True "''XY''" 0 "[]" True None] show ?thesis by simp
qed

end
