(* ===== verification/Block_IO.thy ===== *)
theory Block_IO
  imports Segment_Store
begin

text \<open>
  \<open>fs/io.py\<close>: one file per block. A call of \<open>store_block\<close> or \<open>load_block\<close> is a sequence of
  system calls; each is one step here, so that the calls of many threads and processes on
  one file system interleave. Files are an association list from paths to bytes;
  the outcome of each system call is an argument of its step. A file opened for reading is
  the bytes it had when it was opened: block files are replaced, never written in place.
\<close>

section \<open>Temporary names\<close>

text \<open>Python's decimal \<open>str(n)\<close> of a natural number.\<close>

fun decimal :: "nat \<Rightarrow> string" where
  "decimal n = (if n < 10 then [char_of (48 + n)] else decimal (n div 10) @ [char_of (48 + n mod 10)])"

declare decimal.simps [simp del]

text \<open>The suffix of a thread: drawn at its first use, then kept in its thread-local storage.\<close>

definition get_tmp_suffix :: "nat \<Rightarrow> string option \<Rightarrow> string \<times> string option" where
  "get_tmp_suffix draw local = (case local of
     Some s \<Rightarrow> (s, local)
   | None \<Rightarrow> let s = ''_'' @ decimal draw @ ''.tmp'' in (s, Some s))"

section \<open>Storing a block\<close>

text \<open>The outcome of a system call; \<open>Partial n\<close> is a read or write of \<open>n\<close> bytes only.\<close>

datatype sys_outcome = Works | Partial nat | Raises string

datatype store_pc = CheckExists | EnsureDirs | OpenTemp | WriteTemp | ReplaceDest
  | RemoveTemp py_error | StoreDone "unit result"

record store_call =
  dest_path :: string
  tmp_path :: string
  view_slice :: bytes
  store_at :: store_pc

definition start_store :: "string \<Rightarrow> string \<Rightarrow> bytes \<Rightarrow> nat \<Rightarrow> nat \<Rightarrow> store_call" where
  "start_store dest suffix buf off bs =
     \<lparr>dest_path = dest, tmp_path = dest @ suffix, view_slice = take bs (drop off buf), store_at = CheckExists\<rparr>"

definition store_step :: "sys_outcome \<Rightarrow> (string \<times> bytes) list \<times> store_call \<Rightarrow> (string \<times> bytes) list \<times> store_call" where
  "store_step out = (\<lambda>(files, c).
     (case store_at c of
        CheckExists \<Rightarrow>
          (files, c\<lparr>store_at := (if map_of files (dest_path c) \<noteq> None then StoreDone (Inr ()) else EnsureDirs)\<rparr>)
      | EnsureDirs \<Rightarrow>
          (files, c\<lparr>store_at := (case out of Raises e \<Rightarrow> StoreDone (Inl (OSError e)) | _ \<Rightarrow> OpenTemp)\<rparr>)
      | OpenTemp \<Rightarrow>
          (case out of
             Raises e \<Rightarrow> (files, c\<lparr>store_at := RemoveTemp (OSError e)\<rparr>)
           | _ \<Rightarrow>
               if map_of files (tmp_path c) \<noteq> None
               then (files, c\<lparr>store_at := RemoveTemp (OSError ''File exists'')\<rparr>)
               else (AList.update (tmp_path c) [] files, c\<lparr>store_at := WriteTemp\<rparr>))
      | WriteTemp \<Rightarrow>
          (case out of
             Raises e \<Rightarrow> (files, c\<lparr>store_at := RemoveTemp (OSError e)\<rparr>)
           | Partial n \<Rightarrow>
               (AList.update (tmp_path c) (take n (view_slice c)) files,
                c\<lparr>store_at := (if n < length (view_slice c) then RemoveTemp (OSError ''Short write'') else ReplaceDest)\<rparr>)
           | Works \<Rightarrow> (AList.update (tmp_path c) (view_slice c) files, c\<lparr>store_at := ReplaceDest\<rparr>))
      | ReplaceDest \<Rightarrow>
          (case out of
             Raises e \<Rightarrow> (files, c\<lparr>store_at := RemoveTemp (OSError e)\<rparr>)
           | _ \<Rightarrow>
               (case map_of files (tmp_path c) of
                  None \<Rightarrow> (files, c\<lparr>store_at := RemoveTemp (OSError ''No such file or directory'')\<rparr>)
                | Some b \<Rightarrow>
                    (AList.delete (tmp_path c) (AList.update (dest_path c) b files), c\<lparr>store_at := StoreDone (Inr ())\<rparr>)))
      | RemoveTemp e \<Rightarrow>
          ((case out of Raises _ \<Rightarrow> files | _ \<Rightarrow> AList.delete (tmp_path c) files), c\<lparr>store_at := StoreDone (Inl e)\<rparr>)
      | StoreDone _ \<Rightarrow> (files, c)))"

text \<open>The whole call without interference: at most six system calls.\<close>

definition store_block :: "sys_outcome list \<Rightarrow> (string \<times> bytes) list \<Rightarrow> store_call \<Rightarrow> (string \<times> bytes) list \<times> store_call" where
  "store_block outs files c = fold store_step (take 6 (outs @ replicate 6 Works)) (files, c)"

section \<open>Loading a block\<close>

datatype load_pc = OpenSource | ReadSource bytes | RemoveSource py_error | LoadDone "unit result"

record load_call =
  source_path :: string
  read_size :: nat
  load_view :: bytes
  load_at :: load_pc

definition start_load :: "string \<Rightarrow> bytes \<Rightarrow> nat \<Rightarrow> nat \<Rightarrow> load_call" where
  "start_load source buf off bs =
     \<lparr>source_path = source, read_size = bs, load_view = take bs (drop off buf), load_at = OpenSource\<rparr>"

definition load_step :: "sys_outcome \<Rightarrow> (string \<times> bytes) list \<times> load_call \<Rightarrow> (string \<times> bytes) list \<times> load_call" where
  "load_step out = (\<lambda>(files, c).
     (case load_at c of
        OpenSource \<Rightarrow>
          (case out of
             Raises e \<Rightarrow> (files, c\<lparr>load_at := RemoveSource (OSError e)\<rparr>)
           | _ \<Rightarrow>
               (case map_of files (source_path c) of
                  None \<Rightarrow> (files, c\<lparr>load_at := RemoveSource (OSError ''No such file or directory'')\<rparr>)
                | Some b \<Rightarrow> (files, c\<lparr>load_at := ReadSource b\<rparr>)))
      | ReadSource b \<Rightarrow>
          (case out of
             Raises e \<Rightarrow> (files, c\<lparr>load_at := RemoveSource (OSError e)\<rparr>)
           | _ \<Rightarrow>
               let avail = take (length (load_view c)) b;
                   data = (case out of Partial n \<Rightarrow> take n avail | _ \<Rightarrow> avail)
               in (files, c\<lparr>load_view := data @ drop (length data) (load_view c),
                            load_at := (if length data < read_size c then RemoveSource (OSError ''Short read'')
                                        else LoadDone (Inr ()))\<rparr>))
      | RemoveSource e \<Rightarrow>
          ((case out of Raises _ \<Rightarrow> files | _ \<Rightarrow> AList.delete (source_path c) files), c\<lparr>load_at := LoadDone (Inl e)\<rparr>)
      | LoadDone _ \<Rightarrow> (files, c)))"

definition load_block :: "sys_outcome list \<Rightarrow> (string \<times> bytes) list \<Rightarrow> load_call \<Rightarrow> (string \<times> bytes) list \<times> load_call" where
  "load_block outs files c = fold load_step (take 3 (outs @ replicate 3 Works)) (files, c)"

section \<open>Many calls at once\<close>

text \<open>
  All calls in progress on one file system, and the deletions that other code makes. A step
  takes the number of the call that makes its next system call.
\<close>

record block_io =
  io_files :: "(string \<times> bytes) list"
  io_stores :: "store_call list"
  io_loads :: "load_call list"

datatype io_event = StoreEvent nat sys_outcome | LoadEvent nat sys_outcome | UnlinkEvent string

fun io_step :: "io_event \<Rightarrow> block_io \<Rightarrow> block_io" where
  "io_step (StoreEvent i out) s =
     (if i < length (io_stores s)
      then let (files, c) = store_step out (io_files s, io_stores s ! i)
           in s\<lparr>io_files := files, io_stores := (io_stores s)[i := c]\<rparr>
      else s)"
| "io_step (LoadEvent i out) s =
     (if i < length (io_loads s)
      then let (files, c) = load_step out (io_files s, io_loads s ! i)
           in s\<lparr>io_files := files, io_loads := (io_loads s)[i := c]\<rparr>
      else s)"
| "io_step (UnlinkEvent p) s = s\<lparr>io_files := AList.delete p (io_files s)\<rparr>"

end
