(* ===== verification/Fs_Manager.thy ===== *)
theory Fs_Manager
  imports Segment_Store Block_IO Thread_Pool Async_Lookup
begin

text \<open>
  \<open>fs/manager.py\<close>: the file system tier, composed of the segment store, the block files, the
  thread pool and the lookup manager. The pool's tasks are the calls that the code binds
  with \<open>functools.partial\<close>; its callbacks are the plans that \<open>complete_store\<close> is bound to.
  What the process shares with the outside is the world: the segment index and files, the
  block files, and the primary tier's memory. \<open>FileMapper.get_file_name\<close> (another package)
  is the argument \<open>mapper\<close>; outcomes of system calls are in the task environment.
\<close>

section \<open>Configuration\<close>

record fs_config =
  cfg_strides :: "nat option"
  cfg_read_threads :: "int option"
  cfg_write_threads :: "int option"
  cfg_storage_layout :: string
  cfg_segment_size :: int
  cfg_io_batch :: int
  cfg_shards :: int

text \<open>\<open>os.cpu_count() or 2\<close>, at least 2, is split between reads and writes.\<close>

definition thread_counts :: "int option \<Rightarrow> int option \<Rightarrow> int option \<Rightarrow> int \<times> int" where
  "thread_counts cpu_count reads writes =
     (let cpus = max 2 (case cpu_count of None \<Rightarrow> 2 | Some c \<Rightarrow> if c = 0 then 2 else c);
          (r, w) = (case (reads, writes) of
              (None, None) \<Rightarrow> ((cpus + 1) div 2, cpus div 2)
            | (None, Some w) \<Rightarrow> (max 1 (cpus - w), w)
            | (Some r, None) \<Rightarrow> (r, max 1 (cpus - r))
            | (Some r, Some w) \<Rightarrow> (r, w))
      in (max 1 r, max 1 w))"

section \<open>State\<close>

datatype fs_task =
    NoTask
  | WriteEntries "segment_write list"
  | StoreBlock string nat
  | LoadBlock string nat
  | LoadMany "(offload_key \<times> nat \<times> segment_location) list"

record fs_manager =
  fm_block_size :: nat
  fm_io_batch :: nat
  fm_segment :: "segment_store option"
  fm_pool :: "(fs_task, segment_write list) pool"
  fm_lookups :: async_lookup

record fs_world =
  w_shared :: segment_shared
  w_files :: "(string \<times> bytes) list"
  w_view :: bytes

definition make_fs_manager :: "int option \<Rightarrow> fs_config \<Rightarrow> fs_manager result" where
  "make_fs_manager cpu_count cfg =
     (let (n_read, n_write) = thread_counts cpu_count (cfg_read_threads cfg) (cfg_write_threads cfg)
      in case cfg_strides cfg of
           None \<Rightarrow> Inl AssertionError
         | Some bs \<Rightarrow>
             if cfg_storage_layout cfg \<notin> {''file'', ''segment''}
             then Inl (ValueError ''storage_layout must be file or segment'')
             else if cfg_io_batch cfg < 0 then Inl (ValueError ''segment_io_batch_blocks must be non-negative'')
             else if cfg_shards cfg < 0 then Inl (ValueError ''segment_shards must be non-negative'')
             else if cfg_io_batch cfg = 0 \<and> bs = 0 then Inl ZeroDivisionError
             else
               let io_batch = (if cfg_io_batch cfg \<noteq> 0 then cfg_io_batch cfg else max 1 (1024 ^ 2 div int bs));
                   shards = (if cfg_shards cfg \<noteq> 0 then cfg_shards cfg else min 16 (max 1 (n_read + n_write)))
               in bind_result
                    (if cfg_storage_layout cfg = ''segment''
                     then bind_result (make_segment_store (int bs) (cfg_segment_size cfg) shards) (\<lambda>s. Inr (Some s))
                     else Inr None)
                    (\<lambda>segment. Inr \<lparr>fm_block_size = bs, fm_io_batch = nat io_batch, fm_segment = segment,
                       fm_pool = make_pool (nat n_read) (nat n_write), fm_lookups = make_async_lookup\<rparr>))"

text \<open>The run configuration, as JSON text, is written only when its file does not exist.\<close>

definition write_config_file :: "string \<Rightarrow> bytes \<Rightarrow> (string \<times> bytes) list \<Rightarrow> (string \<times> bytes) list" where
  "write_config_file path run_config files = (if map_of files path = None then AList.update path run_config files else files)"

section \<open>Look-ups\<close>

text \<open>\<open>None\<close> for the C extension: it is not installed.\<close>

definition batch_file_lookup :: "(string list \<Rightarrow> bool list) option \<Rightarrow> (string \<times> bytes) list \<Rightarrow> string list \<Rightarrow> bool list" where
  "batch_file_lookup c_lookup files paths =
     (case c_lookup of Some f \<Rightarrow> f paths | None \<Rightarrow> map (\<lambda>p. map_of files p \<noteq> None) paths)"

text \<open>The positions of the misses, and the hits with the answers at these positions.\<close>

definition missing_indices :: "bool list \<Rightarrow> nat list" where
  "missing_indices hits = filter (\<lambda>i. \<not> hits ! i) [0..<length hits]"

definition fs_batch_lookup :: "(string list \<Rightarrow> bool list) option \<Rightarrow> (offload_key \<Rightarrow> string) \<Rightarrow> offload_key list \<Rightarrow>
    fs_manager \<Rightarrow> fs_world \<Rightarrow> bool list \<times> fs_manager" where
  "fs_batch_lookup c_lookup mapper keys m w =
     (case fm_segment m of
        Some s \<Rightarrow>
          let (hits, s) = contains_many keys (w_shared w) s;
              m = m\<lparr>fm_segment := Some s\<rparr>;
              missing = missing_indices hits
          in if missing = [] then (hits, m)
             else let legacy = batch_file_lookup c_lookup (w_files w) (map (\<lambda>i. mapper (keys ! i)) missing)
                  in (fold (\<lambda>(i, hit) hs. hs[i := hit]) (zip missing legacy) hits, m)
      | None \<Rightarrow> (batch_file_lookup c_lookup (w_files w) (map mapper keys), m))"

datatype lookup_result = HIT | MISS | RETRY

definition fs_lookup :: "offload_key \<Rightarrow> req_context \<Rightarrow> fs_manager \<Rightarrow> lookup_result \<times> fs_manager" where
  "fs_lookup key ctx m =
     (let (r, a) = lookup key ctx (fm_lookups m);
          m = m\<lparr>fm_lookups := a\<rparr>
      in (case r of None \<Rightarrow> (RETRY, m) | Some hit \<Rightarrow> ((if hit then HIT else MISS), m)))"

text \<open>
  A move of the lookup thread on the world as it is: the answers are those of
  \<open>batch_lookup\<close>, one call for each request; each call also fills the location cache.
\<close>

definition fs_lookup_move :: "(string list \<Rightarrow> bool list) option \<Rightarrow> (offload_key \<Rightarrow> string) \<Rightarrow> fs_world \<Rightarrow> fs_manager \<Rightarrow> fs_manager" where
  "fs_lookup_move c_lookup mapper w m =
     (let a = worker_move (\<lambda>keys _. Inr (fst (fs_batch_lookup c_lookup mapper keys m w))) (fm_lookups m);
          m = (case worker (fm_lookups m) of
                 Processing b \<Rightarrow> fold (\<lambda>(_, _, keys) m. snd (fs_batch_lookup c_lookup mapper keys m w)) (group_by_req b) m
               | _ \<Rightarrow> m)
      in m\<lparr>fm_lookups := a\<rparr>)"

definition fs_on_schedule_end :: "fs_manager \<Rightarrow> fs_manager" where
  "fs_on_schedule_end m = m\<lparr>fm_lookups := flush (fm_lookups m)\<rparr>"

definition fs_on_request_finished :: "req_context \<Rightarrow> fs_manager \<Rightarrow> fs_manager result" where
  "fs_on_request_finished ctx m =
     bind_result (cleanup (req_id ctx) (fm_lookups m)) (\<lambda>a. Inr (m\<lparr>fm_lookups := a\<rparr>))"

section \<open>Jobs\<close>

text \<open>The tasks of a store: one for each segment, or one that does nothing.\<close>

definition store_tasks :: "segment_write list \<Rightarrow> fs_task list" where
  "store_tasks plan =
     (let tasks = map WriteEntries (group_writes plan) in if tasks = [] then [NoTask] else tasks)"

definition fs_submit_store :: "bool \<Rightarrow> (offload_key \<Rightarrow> string) \<Rightarrow> int \<Rightarrow> offload_key list \<Rightarrow> nat list \<Rightarrow>
    fs_manager \<times> fs_world \<Rightarrow> unit result \<times> fs_manager \<times> fs_world" where
  "fs_submit_store tx mapper job_id keys block_ids = (\<lambda>(m, w).
     (case fm_segment m of
        Some s \<Rightarrow>
          (case prepare_store tx keys block_ids (w_shared w) s of
             (Inl e, sh, s) \<Rightarrow> (Inl e, m\<lparr>fm_segment := Some s\<rparr>, w\<lparr>w_shared := sh\<rparr>)
           | (Inr plan, sh, s) \<Rightarrow>
               let tasks = store_tasks plan
               in (Inr (), m\<lparr>fm_segment := Some s, fm_pool := enqueue_store job_id (length tasks) tasks (Some plan) (fm_pool m)\<rparr>,
                   w\<lparr>w_shared := sh\<rparr>))
      | None \<Rightarrow>
          let tasks = map (\<lambda>(k, b). StoreBlock (mapper k) b) (zip keys block_ids)
          in (Inr (), m\<lparr>fm_pool := enqueue_store job_id (length keys) tasks None (fm_pool m)\<rparr>, w)))"

text \<open>The dictionary \<open>segment_entries\<close>: the located blocks by segment, in the order of the keys.\<close>

definition segment_chunks :: "(offload_key \<times> nat \<times> segment_location option) list \<Rightarrow>
    (offload_key \<times> nat \<times> segment_location) list list" where
  "segment_chunks es =
     map snd (fold (\<lambda>(k, b, l) d. case l of None \<Rightarrow> d
        | Some l \<Rightarrow> AList.update (segment_id l) (dict_get d (segment_id l) [] @ [(k, b, l)]) d) es [])"

definition load_tasks :: "(offload_key \<Rightarrow> string) \<Rightarrow> (offload_key \<times> nat \<times> segment_location option) list \<Rightarrow> fs_task list" where
  "load_tasks mapper es =
     map (\<lambda>(k, b, _). LoadBlock (mapper k) b) (filter (\<lambda>(_, _, l). l = None) es) @ map LoadMany (segment_chunks es)"

definition fs_submit_load :: "(offload_key \<Rightarrow> string) \<Rightarrow> int \<Rightarrow> offload_key list \<Rightarrow> nat list \<Rightarrow>
    fs_manager \<times> fs_world \<Rightarrow> fs_manager \<times> fs_world" where
  "fs_submit_load mapper job_id keys block_ids = (\<lambda>(m, w).
     (case fm_segment m of
        Some s \<Rightarrow>
          let (locs, s) = get_locations keys (w_shared w) s;
              tasks = load_tasks mapper (zip keys (zip block_ids locs))
          in (m\<lparr>fm_segment := Some s, fm_pool := enqueue_load job_id (length tasks) tasks (fm_pool m)\<rparr>, w)
      | None \<Rightarrow>
          let tasks = map (\<lambda>(k, b). LoadBlock (mapper k) b) (zip keys block_ids)
          in (m\<lparr>fm_pool := enqueue_load job_id (length keys) tasks (fm_pool m)\<rparr>, w)))"

section \<open>Running tasks\<close>

record task_env =
  te_iov :: nat
  te_io :: "io_outcome list"
  te_sys :: "sys_outcome list"
  te_suffix :: string
  te_tx :: bool

fun run_task :: "task_env \<Rightarrow> fs_task \<Rightarrow> fs_manager \<times> fs_world \<Rightarrow> unit result \<times> fs_manager \<times> fs_world" where
  "run_task env NoTask (m, w) = (Inr (), m, w)"
| "run_task env (WriteEntries es) (m, w) =
     (case fm_segment m of
        None \<Rightarrow> (Inl AttributeError, m, w)
      | Some s \<Rightarrow>
          let (r, sh) = write_entries (te_iov env) (Some (fm_io_batch m)) es (w_view w) (te_io env) (w_shared w) s
          in (r, m, w\<lparr>w_shared := sh\<rparr>))"
| "run_task env (StoreBlock path b) (m, w) =
     (let (files, c) = store_block (te_sys env) (w_files w)
            (start_store path (te_suffix env) (w_view w) (b * fm_block_size m) (fm_block_size m))
      in ((case store_at c of StoreDone r \<Rightarrow> r | _ \<Rightarrow> Inl RuntimeError), m, w\<lparr>w_files := files\<rparr>))"
| "run_task env (LoadBlock path b) (m, w) =
     (let (files, c) = load_block (te_sys env) (w_files w)
            (start_load path (w_view w) (b * fm_block_size m) (fm_block_size m))
      in ((case load_at c of LoadDone r \<Rightarrow> r | _ \<Rightarrow> Inl RuntimeError), m,
          w\<lparr>w_files := files, w_view := splice (b * fm_block_size m) (load_view c) (w_view w)\<rparr>))"
| "run_task env (LoadMany chunk) (m, w) =
     (case fm_segment m of
        None \<Rightarrow> (Inl AttributeError, m, w)
      | Some s \<Rightarrow>
          let (r, view, sh, s) = load_many (te_iov env) (te_tx env) (map fst chunk) (w_view w) (map (fst \<circ> snd) chunk)
                (Some (map (Some \<circ> snd \<circ> snd) chunk)) (Some (fm_io_batch m)) (te_io env) (w_shared w) s
          in (r, m\<lparr>fm_segment := Some s\<rparr>, w\<lparr>w_shared := sh, w_view := view\<rparr>))"

text \<open>The completion callback of a store job.\<close>

definition run_callback :: "bool \<Rightarrow> segment_write list \<Rightarrow> bool \<Rightarrow> fs_manager \<times> fs_world \<Rightarrow> unit result \<times> fs_manager \<times> fs_world" where
  "run_callback tx plan success = (\<lambda>(m, w).
     (case fm_segment m of
        None \<Rightarrow> (Inl AttributeError, m, w)
      | Some s \<Rightarrow>
          let (r, sh, s) = complete_store tx plan success (w_shared w) s
          in (r, m\<lparr>fm_segment := Some s\<rparr>, w\<lparr>w_shared := sh\<rparr>)))"

text \<open>
  A pool thread finishes the task it runs: the task's effect, \<open>task_done\<close> and, with the
  last task of a job, the callback. The labels record what happened.
\<close>

definition fs_worker_done :: "nat \<Rightarrow> task_env \<Rightarrow> fs_manager \<times> fs_world \<Rightarrow> (pool_label list \<times> fs_manager \<times> fs_world) option" where
  "fs_worker_done i env = (\<lambda>(m, w).
     (if i < length (threads (fm_pool m))
      then (case snd (threads (fm_pool m) ! i) of
              Running task j \<Rightarrow>
                let (r, m, w) = run_task env task (m, w);
                    js = jobs (fm_pool m) ! j;
                    call = snd (snd (snd (task_done (\<not> isl r) False js)));
                    (raises, m, w) =
                      (case (call, on_complete js) of
                         (Some arg, Some plan) \<Rightarrow>
                           let (cr, m, w) = run_callback (te_tx env) plan arg (m, w) in (isl cr, m, w)
                       | _ \<Rightarrow> (False, m, w))
                in (case worker_done i (\<not> isl r) raises (fm_pool m) of
                      None \<Rightarrow> None
                    | Some (j, call, p) \<Rightarrow> Some (done_labels j (\<not> isl r) raises call, m\<lparr>fm_pool := p\<rparr>, w))
            | _ \<Rightarrow> None)
      else None))"

definition fs_get_finished_jobs :: "fs_manager \<Rightarrow> (int \<times> bool) list \<times> fs_manager" where
  "fs_get_finished_jobs m = (let (res, p) = get_finished (fm_pool m) in (res, m\<lparr>fm_pool := p\<rparr>))"

text \<open>\<open>drain_jobs\<close> returns in the states where \<open>wait_idle\<close> does.\<close>

definition fs_drain_returns :: "fs_manager \<Rightarrow> bool" where
  "fs_drain_returns m = wait_idle_returns (fm_pool m)"

section \<open>Deleting\<close>

text \<open>\<open>denied\<close>: the paths whose \<open>unlink\<close> raises an \<open>OSError\<close> other than \<open>FileNotFoundError\<close>.\<close>

definition unlink_step :: "(string \<Rightarrow> bool) \<Rightarrow> (offload_key \<Rightarrow> string) \<Rightarrow> offload_key \<Rightarrow>
    (string \<times> bytes) list \<times> offload_key set \<times> offload_key set \<Rightarrow> (string \<times> bytes) list \<times> offload_key set \<times> offload_key set" where
  "unlink_step denied mapper k = (\<lambda>(files, deleted, removed).
     (if denied (mapper k) then (files, deleted, removed)
      else if map_of files (mapper k) = None then (files, deleted, insert k removed)
      else (AList.delete (mapper k) files, insert k deleted, insert k removed)))"

definition fs_delete :: "bool \<Rightarrow> (string \<Rightarrow> bool) \<Rightarrow> (offload_key \<Rightarrow> string) \<Rightarrow> offload_key list \<Rightarrow> fs_manager \<times> fs_world \<Rightarrow>
    (offload_key set \<times> nat) result \<times> fs_manager \<times> fs_world" where
  "fs_delete tx denied mapper keys = (\<lambda>(m, w).
     (let (r, m, w) =
            (case fm_segment m of
               None \<Rightarrow> (Inr {}, m, w)
             | Some s \<Rightarrow> let (r, sh, s) = delete tx keys (w_shared w) s
                       in (r, m\<lparr>fm_segment := Some s\<rparr>, w\<lparr>w_shared := sh\<rparr>))
      in case r of
           Inl e \<Rightarrow> (Inl e, m, w)
         | Inr deleted \<Rightarrow>
             let (files, deleted, removed) = fold (unlink_step denied mapper) keys (w_files w, deleted, {})
             in (Inr (removed, card deleted), m, w\<lparr>w_files := files\<rparr>)))"

section \<open>Shutting down\<close>

text \<open>
  The sentinel for the lookup thread and the stop flag for the pool; the joins wait until
  these threads have ended; then the segment store is closed.
\<close>

definition fs_shutdown_lookups :: "fs_manager \<Rightarrow> fs_manager" where
  "fs_shutdown_lookups m = m\<lparr>fm_lookups := post_sentinel (fm_lookups m)\<rparr>"

definition fs_shutdown_pool :: "fs_manager \<Rightarrow> fs_manager" where
  "fs_shutdown_pool m = m\<lparr>fm_pool := pool_shutdown (fm_pool m)\<rparr>"

definition fs_shutdown_segment :: "fs_manager \<Rightarrow> fs_manager" where
  "fs_shutdown_segment m = m\<lparr>fm_segment := map_option close (fm_segment m)\<rparr>"

end
