(* ===== verification/Segment_Failures.thy ===== *)
theory Segment_Failures
  imports Segment_Durable
begin

text \<open>
  \<open>load_many\<close> with any outcomes of its reads: it either delivers every block or raises and
  forgets the blocks, and in both cases it writes to the given blocks of the buffer only.
\<close>

section \<open>What a load writes\<close>

lemma length_splice_clipped: "s + length d \<le> length buf \<or> d = [] \<Longrightarrow> length (splice s d buf) = length buf"
  using length_splice [of s d buf] by (auto simp: splice_def)

abbreviation dst_in :: "bytes \<Rightarrow> nat \<times> nat \<Rightarrow> bool" where
  "dst_in buf v \<equiv> fst v + snd v \<le> length buf"

text \<open>The buffer keeps its length and all bytes outside the ranges \<open>V\<close>.\<close>

definition kept_outside :: "(nat \<times> nat) set \<Rightarrow> bytes \<Rightarrow> bytes \<Rightarrow> bool" where
  "kept_outside V buf buf' \<longleftrightarrow> length buf' = length buf \<and>
     (\<forall>i. (\<forall>(st, len) \<in> V. i < st \<or> st + len \<le> i) \<longrightarrow> buf' ! i = buf ! i)"

lemma outside_refl [simp]: "kept_outside V buf buf"
  by (simp add: kept_outside_def)

lemma outside_trans: "kept_outside V a b \<Longrightarrow> kept_outside V b c \<Longrightarrow> kept_outside V a c"
  by (auto simp: kept_outside_def)

lemma outside_length: "kept_outside V buf buf' \<Longrightarrow> length buf' = length buf"
  by (simp add: kept_outside_def)

lemma splice_kept:
  assumes "(st, len) \<in> V" "st + len \<le> length buf" "length d \<le> len"
  shows "kept_outside V buf (splice st d buf)"
  using assms by (fastforce simp: kept_outside_def splice_def nth_append)

lemma scatter_kept: "set vs \<subseteq> V \<Longrightarrow> \<forall>v \<in> V. dst_in buf v \<Longrightarrow> kept_outside V buf (scatter vs data buf)"
proof (induction vs arbitrary: data buf)
  case (Cons v vs)
  obtain st len where v: "v = (st, len)" by (cases v)
  have 1: "kept_outside V buf (splice st (take len data) buf)" using Cons.prems by (intro splice_kept [of st len]) (auto simp: v)
  have "kept_outside V (splice st (take len data) buf) (scatter vs (drop len data) (splice st (take len data) buf))"
    using Cons.prems outside_length [OF 1] by (intro Cons.IH) auto
  from outside_trans [OF 1 this] show ?case by (simp add: v)
qed simp

text \<open>One batch of \<open>preadv\<close>: what it read, and whether that is all that was asked for.\<close>

lemma preadv_chunks_step:
  obtains e where "fst (next_io io) = Fails e" "preadv_chunks (c # cs) off f buf io = (Inl (OSError e), buf, snd (next_io io))"
  | d where "length d < views_length c"
      "preadv_chunks (c # cs) off f buf io = (Inl (OSError ''Short read''), scatter c d buf, snd (next_io io))"
  | "views_length c \<le> length f - off" "\<And>n. fst (next_io io) = Short n \<Longrightarrow> views_length c \<le> n"
    "\<And>e. fst (next_io io) \<noteq> Fails e"
    "preadv_chunks (c # cs) off f buf io =
       preadv_chunks cs (off + views_length c) f (scatter c (take (views_length c) (drop off f)) buf) (snd (next_io io))"
proof -
  let ?avail = "take (views_length c) (drop off f)"
  obtain out io1 where o: "next_io io = (out, io1)" by (metis surj_pair)
  have avail: "length ?avail \<le> views_length c" by simp
  show thesis
  proof (cases out)
    case (Fails e)
    then show ?thesis using that(1) by (simp add: o)
  next
    case Full
    show ?thesis
    proof (cases "length ?avail = views_length c")
      case True
      then have "views_length c \<le> length f - off" by simp
      then show ?thesis using Full True by (intro that(3)) (simp_all add: o Let_def)
    next
      case False
      then show ?thesis using Full avail by (intro that(2) [of ?avail]) (auto simp: o Let_def)
    qed
  next
    case (Short n)
    show ?thesis
    proof (cases "length (take n ?avail) = views_length c")
      case True
      then have "take n ?avail = ?avail" "views_length c \<le> length f - off" "views_length c \<le> n" by (simp_all add: min_def split: if_splits)
      then show ?thesis using Short True by (intro that(3)) (simp_all add: o Let_def)
    next
      case False
      define d where "d = take n ?avail"
      have "length d \<noteq> views_length c" "length d \<le> views_length c" using False by (simp_all add: d_def)
      moreover have "preadv_chunks (c # cs) off f buf io =
          (if length d \<noteq> views_length c then (Inl (OSError ''Short read''), scatter c d buf, io1)
           else preadv_chunks cs (off + length d) f (scatter c d buf) io1)"
        unfolding d_def using Short by (simp only: preadv_chunks.simps Let_def o prod.case io_outcome.case)
      ultimately show ?thesis by (intro that(2) [of d]) (simp_all add: o)
    qed
  qed
qed

lemma preadv_chunks_kept:
  assumes "preadv_chunks cs off f buf io = (r, buf', io')" "set (concat cs) \<subseteq> V" "\<forall>v \<in> V. dst_in buf v"
  shows "kept_outside V buf buf'"
  using assms
proof (induction cs arbitrary: off buf io)
  case (Cons c cs)
  have c: "kept_outside V buf (scatter c d buf)" for d using Cons.prems(2,3) by (intro scatter_kept) auto
  show ?case
  proof (cases rule: preadv_chunks_step [of io c cs off f buf])
    case (1 e)
    with Cons.prems(1) show ?thesis by (simp del: preadv_chunks.simps)
  next
    case (2 d)
    with Cons.prems(1) c show ?thesis by (auto simp del: preadv_chunks.simps)
  next
    case 3
    have "kept_outside V (scatter c (take (views_length c) (drop off f)) buf) buf'"
      using Cons.prems outside_length [OF c] 3(4) by (intro Cons.IH) auto
    with c show ?thesis by (rule outside_trans)
  qed
qed simp

lemma load_flush_kept:
  assumes "load_flush limit files sid off views buf io = (r, buf', io')" "set views \<subseteq> V" "\<forall>v \<in> V. dst_in buf v"
  shows "kept_outside V buf buf'"
proof -
  have "kept_outside V buf b" if "0 < limit" "preadv_chunks (chunks_of limit views) off f buf io = (x, b, y)" for f x b y
    by (rule preadv_chunks_kept [OF that(2) _ assms(3)]) (use assms(2) in \<open>simp only: concat_chunks_of [OF that(1)]\<close>)
  with assms(1) show ?thesis
    by (auto simp: load_flush_def preadv_all_def split: if_splits option.splits)
qed

text \<open>The cases of a step of \<open>load_loop\<close>.\<close>

lemma load_loop_cases:
  obtains "loc_length l \<noteq> bs" | "loc_length l = bs" "views = []"
  | "loc_length l = bs" "views \<noteq> []" "segment_id l \<noteq> sid \<or> offset l \<noteq> off + len"
  | "loc_length l = bs" "views \<noteq> []" "\<not> (segment_id l \<noteq> sid \<or> offset l \<noteq> off + len)"
  by blast

lemma load_loop_kept:
  assumes "load_loop limit bs files es sid off len views buf io = (r, buf', io')"
    "snd ` set es \<subseteq> V" "set views \<subseteq> V" "\<forall>v \<in> V. dst_in buf v"
  shows "kept_outside V buf buf'"
  using assms
proof (induction es arbitrary: sid off len views buf io)
  case Nil
  then show ?case by (simp add: load_flush_kept)
next
  case (Cons e es)
  obtain l dst where e: "e = (l, dst)" by (cases e)
  obtain r1 buf1 io1 where f: "load_flush limit files sid off views buf io = (r1, buf1, io1)" by (metis prod_cases3)
  have k1: "kept_outside V buf buf1" by (rule load_flush_kept [OF f Cons.prems(3,4)])
  show ?case
  proof (cases rule: load_loop_cases [of l bs _ views sid off len])
    case 1
    with Cons.prems(1) show ?thesis by (simp add: e)
  next
    case 2
    with Cons.prems show ?thesis by (intro Cons.IH [of "segment_id l" "offset l" "snd dst" "[dst]" buf io]) (auto simp: e)
  next
    case 3
    show ?thesis
    proof (cases r1)
      case (Inl x)
      with 3 Cons.prems(1) f k1 show ?thesis by (auto simp: e split: if_splits)
    next
      case (Inr u)
      have "load_loop limit bs files es (segment_id l) (offset l) (snd dst) [dst] buf1 io1 = (r, buf', io')"
        using Cons.prems(1) 3 f Inr by (simp add: e split: if_splits)
      from Cons.IH [OF this] Cons.prems outside_length [OF k1] have "kept_outside V buf1 buf'" by (auto simp: e)
      with k1 show ?thesis by (rule outside_trans)
    qed
  next
    case 4
    with Cons.prems show ?thesis by (intro Cons.IH [of sid off "len + snd dst" "views @ [dst]" buf io]) (auto simp: e)
  qed
qed

lemma dst_in_destination: "dst_in buf (destination bs b buf)"
  by (auto simp: destination_def view_of_def)

lemma locations_block_size: "block_size (snd (get_locations keys sh s)) = block_size s"
  by (auto simp: get_locations_def Let_def split: prod.splits)

lemma load_many_kept:
  assumes "load_many iov tx keys buf ids locs iob io sh s = (r, buf', sh', s')"
  shows "kept_outside ((\<lambda>b. destination (block_size s) b buf) ` set ids) buf buf'"
proof -
  let ?V = "(\<lambda>b. destination (block_size s) b buf) ` set ids"
  obtain ls s1 where l: "(case locs of None \<Rightarrow> get_locations keys sh s | Some ls \<Rightarrow> (ls, s)) = (ls, s1)" by fastforce
  then have bs: "block_size s1 = block_size s"
    using locations_block_size [of keys sh s] by (cases locs) auto
  let ?es = "sort_key (\<lambda>e. (segment_id (fst e), offset (fst e))) (map (\<lambda>(l, b). (the l, destination (block_size s) b buf)) (zip ls ids))"
  have "snd ` set ?es \<subseteq> ?V" by (auto dest: set_zip_rightD)
  moreover have "\<forall>v \<in> ?V. dst_in buf v" using dst_in_destination by blast
  ultimately have "kept_outside ?V buf b" if "load_loop limit bs' files ?es 0 0 0 [] buf io = (x, b, y)" for limit bs' files x b y
    using load_loop_kept [OF that] by simp
  with assms l bs show ?thesis
    by (auto simp: load_many_def Let_def split: if_splits prod.splits sum.splits)
qed

section \<open>Loads that return\<close>

text \<open>A loop that returns normally has found every block complete and has read all of it.\<close>

lemma preadv_chunks_success:
  assumes "preadv_chunks cs off f buf io = (Inr (), buf', io')"
  shows "views_length (concat cs) \<le> length f - off \<and>
    buf' = scatter (concat cs) (drop off f) buf"
  using assms
proof (induction cs arbitrary: off buf io)
  case (Cons c cs)
  show ?case
  proof (cases rule: preadv_chunks_step [of io c cs off f buf])
    case 3
    from Cons.IH [of "off + views_length c"] 3(4) Cons.prems have
      "views_length (concat cs) \<le> length f - (off + views_length c)"
      "buf' = scatter (concat cs) (drop (off + views_length c) f) (scatter c (take (views_length c) (drop off f)) buf)" by simp_all
    with 3(1) show ?thesis by (auto simp: scatter_append scatter_take add.commute)
  qed (use Cons.prems in \<open>simp_all del: preadv_chunks.simps\<close>)
qed simp

lemma load_flush_success:
  assumes "load_flush limit files sid off views buf io = (Inr (), buf', io')"
  shows "(views \<noteq> [] \<and> 0 < views_length views \<longrightarrow> present files sid off (views_length views)) \<and> buf' = load_views files sid off views buf"
proof (cases "views = []")
  case False
  with assms obtain f where f: "map_of files sid = Some f" "0 < limit"
    "preadv_chunks (chunks_of limit views) off f buf io = (Inr (), buf', io')"
    by (auto simp: load_flush_def preadv_all_def split: option.splits if_splits)
  from preadv_chunks_success [OF f(3)] f(1) show ?thesis
    by (auto simp: concat_chunks_of [OF f(2)] present_def load_views_def)
qed (use assms in \<open>simp add: load_flush_def load_views_def\<close>)

lemma load_loop_success:
  assumes "load_loop limit bs files es sid off len views buf io = (Inr (), buf', io')" "0 < bs"
    "\<forall>e \<in> set es. snd (snd e) = bs" "len = views_length views" "views \<noteq> [] \<longrightarrow> 0 < len"
  shows "(\<forall>e \<in> set es. loadable bs files (fst e)) \<and> (views \<noteq> [] \<longrightarrow> present files sid off len) \<and>
    buf' = fold (load_block_at files) es (load_views files sid off views buf)"
  using assms
proof (induction es arbitrary: sid off len views buf io)
  case Nil
  then show ?case by (auto dest: load_flush_success)
next
  case (Cons e es)
  obtain l dst where e: "e = (l, dst)" by (cases e)
  have d: "snd dst = bs" "\<forall>e \<in> set es. snd (snd e) = bs" using Cons.prems(3) by (simp_all add: e)
  note IH = Cons.IH [OF _ \<open>0 < bs\<close> d(2)]
  show ?case
  proof (cases rule: load_loop_cases [of l bs _ views sid off len])
    case 1
    with Cons.prems(1) show ?thesis by (simp add: e)
  next
    case 2
    with IH [of "segment_id l" "offset l" "snd dst" "[dst]" buf io] Cons.prems(1,2) d(1) show ?thesis
      by (simp add: e loadable_def load_views_single) (simp add: load_views_def)
  next
    case 3
    obtain r1 buf1 io1 where f: "load_flush limit files sid off views buf io = (r1, buf1, io1)" by (metis prod_cases3)
    with 3 Cons.prems(1) have r1: "r1 = Inr ()" "load_loop limit bs files es (segment_id l) (offset l) (snd dst) [dst] buf1 io1 = (Inr (), buf', io')"
      by (auto simp: e split: sum.splits)
    from IH [OF r1(2)] load_flush_success [OF f [unfolded r1(1)]] 3 Cons.prems(2,4,5) d(1) show ?thesis
      by (simp add: e loadable_def load_views_single)
  next
    case 4
    with IH [of sid off "len + snd dst" "views @ [dst]" buf io] Cons.prems d(1) show ?thesis
      by (auto simp: e loadable_def present_def load_views_snoc load_block_at_def)
  qed
qed

text \<open>When the first read fails or delivers less than a block, the loop raises.\<close>

definition breaks :: "nat \<Rightarrow> io_outcome \<Rightarrow> bool" where
  "breaks bs out \<longleftrightarrow> (case out of Fails e \<Rightarrow> True | Short n \<Rightarrow> n < bs | Full \<Rightarrow> False)"

lemma load_flush_breaks:
  assumes "breaks bs out" "views \<noteq> []" "\<forall>v \<in> set views. snd v = bs"
  shows "isl (fst (load_flush limit files sid off views buf (out # io)))"
proof -
  have "isl (fst (preadv_chunks (chunks_of limit views) off f buf (out # io)))" if l: "0 < limit" for f
  proof -
    obtain c cs where cs: "chunks_of limit views = c # cs"
      using assms(2) concat_chunks_of [OF l, of views] by (cases "chunks_of limit views") auto
    have "c \<noteq> []" "set c \<subseteq> set views" using set_chunks_of [OF l, of views] cs l assms(2)
      by (auto simp: chunks_of.simps [of limit views] split: if_splits)
    then obtain v vs where "c = v # vs" "snd v = bs" using assms(3) by (cases c) auto
    then have "bs \<le> views_length c" by simp
    then show ?thesis unfolding cs using assms(1)
      by (cases rule: preadv_chunks_step [of "out # io" c cs off f buf])
        (auto simp: next_io_def breaks_def simp del: preadv_chunks.simps split: io_outcome.splits)
  qed
  with assms(2) show ?thesis by (simp add: load_flush_def preadv_all_def split: option.splits)
qed

lemma load_loop_breaks:
  assumes "breaks bs out" "\<forall>e \<in> set es. snd (snd e) = bs" "\<forall>v \<in> set views. snd v = bs" "es \<noteq> [] \<or> views \<noteq> []"
  shows "isl (fst (load_loop limit bs files es sid off len views buf (out # io)))"
  using assms(2-4)
proof (induction es arbitrary: sid off len views)
  case Nil
  then show ?case using load_flush_breaks [OF assms(1)] by simp
next
  case (Cons e es)
  obtain l dst where e: "e = (l, dst)" by (cases e)
  show ?case
  proof (cases rule: load_loop_cases [of l bs _ views sid off len])
    case 3
    obtain r1 buf1 io1 where f: "load_flush limit files sid off views buf (out # io) = (r1, buf1, io1)" by (metis prod_cases3)
    with load_flush_breaks [OF assms(1) 3(2) Cons.prems(2), of limit files sid off buf io] have "isl r1" by simp
    with f 3 show ?thesis by (cases r1) (simp_all add: e)
  qed (use Cons in \<open>simp_all add: e\<close>)
qed

section \<open>Deliver or forget\<close>

lemma blocks_apart: "b \<noteq> c \<Longrightarrow> i < bs \<Longrightarrow> b * bs + i < c * bs \<or> c * bs + bs \<le> b * bs + (i :: nat)"
proof -
  assume "b \<noteq> c" "i < bs"
  then consider "Suc b \<le> c" | "Suc c \<le> b" by linarith
  then show ?thesis
  proof cases
    case 1
    then have "Suc b * bs \<le> c * bs" by (rule mult_le_mono1)
    with \<open>i < bs\<close> show ?thesis by simp
  next
    case 2
    then have "Suc c * bs \<le> b * bs" by (rule mult_le_mono1)
    then show ?thesis by simp
  qed
qed

lemma load_many_other_blocks:
  assumes "load_many iov tx keys buf ids locs iob io sh s = (r, buf', sh', s')"
    and "\<forall>b \<in> set ids. block_in (block_size s) buf b" "b \<notin> set ids"
  shows "view_of (block_size s) b buf' = view_of (block_size s) b buf"
proof -
  have "kept_outside ((\<lambda>c. (c * block_size s, block_size s)) ` set ids) buf buf'"
    using load_many_kept [OF assms(1)] assms(2) by (simp add: destination_in cong: image_cong)
  moreover have "b * block_size s + i < c * block_size s \<or> c * block_size s + block_size s \<le> b * block_size s + i"
    if "c \<in> set ids" "i < block_size s" for c i
    using that assms(3) by (intro blocks_apart) auto
  ultimately show ?thesis unfolding view_of_def
    by (intro nth_equalityI) (auto simp: kept_outside_def)
qed

text \<open>The loop over located blocks, with any outcomes.\<close>

lemma load_located:
  assumes "0 < limit" "0 < bs" and ids: "distinct ids" "\<forall>b \<in> set ids. block_in bs buf b" and len: "length ls = length ids"
    and r: "load_loop limit bs files (load_entries bs buf ls ids) 0 0 0 [] buf io = (r, buf', io')"
  shows "r = Inr () \<Longrightarrow> i < length ls \<Longrightarrow> loadable bs files (ls ! i) \<and>
      view_of bs (ids ! i) buf' = content files (segment_id (ls ! i)) (offset (ls ! i)) bs"
    and "ls \<noteq> [] \<Longrightarrow> io \<noteq> [] \<Longrightarrow> breaks bs (hd io) \<Longrightarrow> isl r"
proof -
  let ?es = "load_entries bs buf ls ids"
  have es: "set ?es = (\<lambda>(l, b). (l, b * bs, bs)) ` set (zip ls ids)" by (simp add: load_entries_in [OF ids(2)])
  then have sizes: "\<forall>e \<in> set ?es. snd (snd e) = bs" by auto
  have fst_es: "fst ` set ?es = set ls" using len by (simp add: es image_image case_prod_beta) (metis list.set_map map_fst_zip)
  show "loadable bs files (ls ! i) \<and> view_of bs (ids ! i) buf' = content files (segment_id (ls ! i)) (offset (ls ! i)) bs"
    if "r = Inr ()" "i < length ls"
  proof -
    from load_loop_success [OF r [unfolded that(1)] assms(2) sizes] have
      ok: "\<forall>e \<in> set ?es. loadable bs files (fst e)" "buf' = fold (load_block_at files) ?es buf"
      by (simp_all add: load_views_def)
    then have ls: "\<forall>l \<in> set ls. loadable bs files l" unfolding fst_es [symmetric] by blast
    obtain r1 b1 io1 where l: "load_loop limit bs files ?es 0 0 0 [] buf [] = (r1, b1, io1)" by (metis prod_cases3)
    have "\<forall>e \<in> set ?es. loadable bs files (fst e) \<and> snd (snd e) = bs" using ok(1) sizes by blast
    from load_loop_full [OF assms(1) this, of "[]" 0 0 0 buf] l ok(2) have "b1 = buf'" by (simp add: load_views_def)
    with load_all [OF assms(1,2) ids len ls l] ls that(2) show ?thesis by simp
  qed
  assume "ls \<noteq> []" "io \<noteq> []" "breaks bs (hd io)"
  moreover have "?es \<noteq> []" using fst_es \<open>ls \<noteq> []\<close> by force
  ultimately show "isl r" using load_loop_breaks [of bs "hd io" ?es "[]" limit files 0 0 0 buf "tl io"] sizes r by simp
qed

text \<open>C37: \<open>load_many\<close> delivers every block or raises and forgets them all, whatever its reads do.
  It writes to the given blocks of the buffer only (distinct blocks within the buffer) and never
  to segment files. If a key is not located it raises \<open>FileNotFoundError\<close> with the number of these
  keys, reads nothing and leaves the index alone. Else, when it returns normally, each block
  was complete in its segment and of the right size, and all its bytes are in its place in the
  buffer; so a missing file, a block of another size, a failing read or a short read makes it
  raise, in particular a first read that fails or delivers less than a block. When it raises,
  exactly its keys are deleted from the index and, where they were indexed, forgotten by this
  process; the index stays as it is if that transaction fails too.\<close>

theorem load_many_failed:
  assumes kd: "keys_distinct sh" and len: "length keys = length ids"
    and ids: "distinct ids" "\<forall>b \<in> set ids. block_in (block_size s) buf b"
    and pos: "0 < batch_limit iov iob" "0 < block_size s"
    and r: "load_many iov tx keys buf ids None iob io sh s = (r, buf', sh', s')"
  shows "seg_files sh' = seg_files sh \<and> db_meta sh' = db_meta sh \<and> length buf' = length buf \<and>
    (\<forall>b. b \<notin> set ids \<longrightarrow> view_of (block_size s) b buf' = view_of (block_size s) b buf) \<and>
    (if \<exists>k \<in> set keys. locate sh s k = None
     then r = Inl (FileNotFoundError (length (filter (\<lambda>k. locate sh s k = None) keys))) \<and> buf' = buf \<and> sh' = sh
     else (keys \<noteq> [] \<and> io \<noteq> [] \<and> breaks (block_size s) (hd io) \<longrightarrow> isl r) \<and>
       (case r of
          Inr _ \<Rightarrow> sh' = sh \<and>
            (\<forall>i < length keys. \<exists>l. locate sh s (keys ! i) = Some l \<and> loadable (block_size s) (seg_files sh) l \<and>
               view_of (block_size s) (ids ! i) buf' = content (seg_files sh) (segment_id l) (offset l) (block_size s))
        | Inl _ \<Rightarrow>
            if tx then
              (\<forall>k. map_of (db_blocks sh') k = (if k \<in> set keys then None else map_of (db_blocks sh) k)) \<and>
              (\<forall>k. locate sh' s' k = (if k \<in> set keys \<and> map_of (db_blocks sh) k \<noteq> None then None else locate sh s k))
            else sh' = sh \<and> (\<forall>k. locate sh' s' k = locate sh s k)))"
proof (cases "\<exists>k \<in> set keys. locate sh s k = None")
  case True
  obtain s1 where g: "get_locations keys sh s = (map (locate sh s) keys, s1)"
    using get_locations_spec(1) [OF kd, of keys s] by (metis prod.collapse)
  have "None \<in> set (map (locate sh s) keys)" using True by force
  then have "load_many iov tx keys buf ids None iob io sh s =
      (Inl (FileNotFoundError (length (filter (\<lambda>k. locate sh s k = None) keys))), buf, sh, s1)"
    using len by (simp add: load_many_def g filter_map comp_def)
  then have "r = Inl (FileNotFoundError (length (filter (\<lambda>k. locate sh s k = None) keys)))" "buf' = buf" "sh' = sh"
    unfolding r by blast+
  with True show ?thesis by simp
next
  case False
  let ?ls = "map (the \<circ> locate sh s) keys"
  have buf: "length buf' = length buf" "\<forall>b. b \<notin> set ids \<longrightarrow> view_of (block_size s) b buf' = view_of (block_size s) b buf"
    using outside_length [OF load_many_kept [OF r]] load_many_other_blocks [OF r ids(2)] by blast+
  have all: "\<forall>k \<in> set keys. locate sh s k \<noteq> None" using False by simp
  obtain s1 where s1: "snd (get_locations keys sh s) = s1" by simp
  have after: "locate sh s1 k = locate sh s k" for k using locate_after_lookup [OF kd, of keys s k] by (simp add: s1)
  obtain r1 b1 io1 where ll: "load_loop (batch_limit iov iob) (block_size s) (seg_files sh)
      (load_entries (block_size s) buf ?ls ids) 0 0 0 [] buf io = (r1, b1, io1)" by (metis prod_cases3)
  note eq = load_many_located [OF kd len all, of iov tx buf iob io, unfolded s1 Let_def ll r]
  have "length ?ls = length ids" using len by simp
  note located = load_located [OF pos ids this ll]
  show ?thesis
  proof (cases r1)
    case (Inr u)
    with eq have e: "r = Inr ()" "buf' = b1" "sh' = sh" by simp_all
    have "\<exists>l. locate sh s (keys ! i) = Some l \<and> loadable (block_size s) (seg_files sh) l \<and>
        view_of (block_size s) (ids ! i) buf' = content (seg_files sh) (segment_id l) (offset l) (block_size s)"
      if i: "i < length keys" for i
    proof -
      obtain l where "locate sh s (keys ! i) = Some l" using all i by (metis not_None_eq nth_mem)
      with located(1) [of i] Inr i e(2) show ?thesis by simp
    qed
    moreover have "\<not> (keys \<noteq> [] \<and> io \<noteq> [] \<and> breaks (block_size s) (hd io))" using located(2) Inr by auto
    ultimately show ?thesis using False buf e by simp
  next
    case (Inl x)
    obtain d sh2 s2 where del: "delete tx keys sh s1 = (d, sh2, s2)" by (metis prod_cases3)
    with eq Inl have e: "isl r" "sh' = sh2" "s' = s2" by (cases d; simp)+
    from e(1) obtain y where r': "r = Inl y" by (cases r) auto
    show ?thesis
      using delete_correct [OF del] buf unfolding if_not_P [OF False] r' e(2,3) after sum.case by (cases tx) (auto simp: after)
  qed
qed

text \<open>A reading process for which a segment file is one byte short.\<close>

definition short_shared :: segment_shared where
  "short_shared = legacy_shared\<lparr>seg_files := [(3, ''abc'')]\<rparr>"

theorem load_many_failed_witness:
  "fst (load_many 8 True [''o1'', ''o2''] ''....'' [0, 1] None None [] short_shared reader_store) = Inl (OSError ''Short read'') \<and>
   map_of (db_blocks (fst (snd (snd (load_many 8 True [''o1'', ''o2''] ''....'' [0, 1] None None [] short_shared reader_store))))) ''o1'' = None"
proof -
  let ?ld = "load_many 8 True [''o1'', ''o2''] ''....'' [0, 1] None None [] short_shared reader_store"
  obtain r buf' sh' s' where ld: "?ld = (r, buf', sh', s')" by (metis prod_cases4)
  have kd: "keys_distinct short_shared" by code_simp
  have e: "fst ?ld = Inl (OSError ''Short read'')" by code_simp
  have all: "(\<exists>k \<in> set [''o1'', ''o2'']. locate short_shared reader_store k = None) = False" by code_simp
  have pos: "length [''o1'', ''o2''] = length [0, 1 :: nat]" "distinct [0, 1 :: nat]"
    "\<forall>b \<in> set [0, 1]. block_in (block_size reader_store) ''....'' b" "0 < batch_limit 8 None" "0 < block_size reader_store"
    by (simp_all add: block_in_def reader_store_def batch_limit_def)
  have "map_of (db_blocks sh') ''o1'' = None"
  proof -
    from e have r: "r = Inl (OSError ''Short read'')" by (simp only: ld fst_conv)
    from load_many_failed [OF kd pos ld, unfolded all r] show ?thesis by simp
  qed
  with e show ?thesis by (simp only: ld fst_conv snd_conv simp_thms)
qed

end
