(* ===== verification/Block_IO_Props.thy ===== *)
theory Block_IO_Props
  imports Block_IO
begin

text \<open>
  A block file is complete whenever it is visible, in every interleaving of stores, loads and
  deletions; a single store is all or nothing, ends after at most six system calls, and
  what it stored is loaded.
\<close>

section \<open>One store\<close>

fun store_rank :: "store_pc \<Rightarrow> nat" where
  "store_rank CheckExists = 6"
| "store_rank EnsureDirs = 5"
| "store_rank OpenTemp = 4"
| "store_rank WriteTemp = 3"
| "store_rank ReplaceDest = 2"
| "store_rank (RemoveTemp _) = 1"
| "store_rank (StoreDone _) = 0"

definition call_of :: "store_call \<Rightarrow> string \<times> string \<times> bytes" where
  "call_of c = (dest_path c, tmp_path c, view_slice c)"

lemma store_step_call: "call_of (snd (store_step out (files, c))) = call_of c"
  by (simp add: store_step_def call_of_def split: store_pc.splits sys_outcome.splits option.splits)

lemma store_step_rank: "store_rank (store_at (snd (store_step out (files, c)))) \<le> store_rank (store_at c) - 1"
  by (cases "store_at c") (simp_all add: store_step_def split: sys_outcome.splits option.splits)

lemma store_steps_rank: "store_rank (store_at (snd (fold store_step outs (files, c)))) \<le> store_rank (store_at c) - length outs"
proof (induction outs arbitrary: files c)
  case (Cons out outs)
  obtain f1 c1 where 1: "store_step out (files, c) = (f1, c1)" by fastforce
  have "store_rank (store_at c1) \<le> store_rank (store_at c) - 1" using store_step_rank [of out files c] by (simp add: 1)
  with Cons.IH [of f1 c1] show ?case by (simp add: 1)
qed simp

text \<open>What holds between the system calls of one store on files that were \<open>d\<close> at first.\<close>

definition temp_left :: "(string \<times> bytes) list \<Rightarrow> (string \<times> bytes) list \<Rightarrow> string \<Rightarrow> bytes \<Rightarrow> bool" where
  "temp_left d files tmp block \<longleftrightarrow>
     map_of files tmp = map_of d tmp \<or> map_of files tmp = None \<or> (\<exists>n. map_of files tmp = Some (take n block))"

lemma temp_leftI [intro]:
  "map_of files tmp = map_of d tmp \<Longrightarrow> temp_left d files tmp block" "map_of files tmp = None \<Longrightarrow> temp_left d files tmp block"
  "map_of files tmp = Some (take n block) \<Longrightarrow> temp_left d files tmp block"
  by (auto simp: temp_left_def)

lemma temp_left_written:
  "temp_left d (AList.update tmp (take n block) files) tmp block" "temp_left d (AList.update tmp block files) tmp block"
  "temp_left d (AList.delete tmp files) tmp block" "map_of files tmp = Some [] \<Longrightarrow> temp_left d files tmp block"
  "map_of files tmp = Some block \<Longrightarrow> temp_left d files tmp block"
proof -
  have b: "\<exists>n. block = take n block" by (rule exI [of _ "length block"]) simp
  have e: "\<exists>n. [] = take n block" by (rule exI [of _ 0]) simp
  show "temp_left d (AList.update tmp (take n block) files) tmp block" "temp_left d (AList.update tmp block files) tmp block"
    "temp_left d (AList.delete tmp files) tmp block" "map_of files tmp = Some [] \<Longrightarrow> temp_left d files tmp block"
    "map_of files tmp = Some block \<Longrightarrow> temp_left d files tmp block"
    unfolding temp_left_def using b e by (simp_all add: dict_simps) blast
qed

definition store_ok :: "(string \<times> bytes) list \<Rightarrow> (string \<times> bytes) list \<times> store_call \<Rightarrow> bool" where
  "store_ok d = (\<lambda>(files, c).
     tmp_path c \<noteq> dest_path c \<and> (\<forall>p. p \<noteq> tmp_path c \<and> p \<noteq> dest_path c \<longrightarrow> map_of files p = map_of d p) \<and>
     (case store_at c of
        CheckExists \<Rightarrow> files = d
      | EnsureDirs \<Rightarrow> files = d \<and> map_of d (dest_path c) = None
      | OpenTemp \<Rightarrow> files = d \<and> map_of d (dest_path c) = None
      | WriteTemp \<Rightarrow> map_of d (dest_path c) = None \<and> map_of files (dest_path c) = None \<and> map_of files (tmp_path c) = Some []
      | ReplaceDest \<Rightarrow> map_of d (dest_path c) = None \<and> map_of files (dest_path c) = None \<and>
          map_of files (tmp_path c) = Some (view_slice c)
      | RemoveTemp _ \<Rightarrow> map_of d (dest_path c) = None \<and> map_of files (dest_path c) = None \<and>
          temp_left d files (tmp_path c) (view_slice c)
      | StoreDone r \<Rightarrow>
          (case r of
             Inl _ \<Rightarrow> map_of d (dest_path c) = None \<and> map_of files (dest_path c) = None \<and>
                 temp_left d files (tmp_path c) (view_slice c)
           | Inr _ \<Rightarrow> if map_of d (dest_path c) = None
                 then map_of files (dest_path c) = Some (view_slice c) \<and> map_of files (tmp_path c) = None
                 else files = d)))"

lemma store_step_ok:
  assumes "store_ok d (files, c)"
  shows "store_ok d (store_step out (files, c))"
proof (cases "store_at c")
  case (StoreDone r)
  with assms show ?thesis by (cases r) (simp_all add: store_step_def)
qed (use assms in \<open>auto simp: store_ok_def store_step_def dict_simps temp_left_written split: sys_outcome.splits option.splits\<close>)

lemma store_steps_ok: "store_ok d (files, c) \<Longrightarrow> store_ok d (fold store_step outs (files, c))"
proof (induction outs arbitrary: files c)
  case (Cons out outs)
  obtain f1 c1 where 1: "store_step out (files, c) = (f1, c1)" by fastforce
  with Cons store_step_ok [OF Cons.prems, of out] show ?case by simp
qed simp

lemma store_steps_call: "call_of (snd (fold store_step outs (files, c))) = call_of c"
proof (induction outs arbitrary: files c)
  case (Cons out outs)
  obtain f1 c1 where 1: "store_step out (files, c) = (f1, c1)" by fastforce
  with Cons [of f1 c1] store_step_call [of out files c] show ?case by simp
qed simp

lemma load_block_all:
  assumes "map_of files p = Some b" "length b = bs" "off + bs \<le> length buf"
  shows "load_block [] files (start_load p buf off bs) =
    (files, \<lparr>source_path = p, read_size = bs, load_view = b, load_at = LoadDone (Inr ())\<rparr>)"
proof -
  have "load_block [] files c = load_step Works (load_step Works (load_step Works (files, c)))" for c
    by (simp add: load_block_def numeral_3_eq_3)
  with assms show ?thesis by (simp add: start_load_def load_step_def)
qed

text \<open>C23: \<open>store_block\<close> is all or nothing and \<open>load_block\<close> reads back what it stored. With any
  outcomes of its system calls, a store has ended after six of them. A block that is
  already there is left alone; else, on success the destination holds the whole block, no
  temporary file is left, and a load returns exactly the block; on an error, there is no
  destination file, and at the temporary path there is what was there before, nothing, or,
  if it could not be removed, a first part of the block. Other files are never touched.\<close>

theorem store_block_correct:
  assumes c: "c = start_store dest suffix buf off bs" "suffix \<noteq> []" "off + bs \<le> length buf"
    and r: "store_block outs files c = (files', c')" and dst: "off2 + bs \<le> length buf2"
  shows "\<exists>res. store_at c' = StoreDone res \<and>
    (\<forall>p. p \<noteq> dest \<and> p \<noteq> dest @ suffix \<longrightarrow> map_of files' p = map_of files p) \<and>
    (if map_of files dest \<noteq> None then res = Inr () \<and> files' = files
     else case res of
         Inl _ \<Rightarrow> map_of files' dest = None \<and>
           (map_of files' (dest @ suffix) = map_of files (dest @ suffix) \<or> map_of files' (dest @ suffix) = None \<or>
            (\<exists>n. map_of files' (dest @ suffix) = Some (take n (take bs (drop off buf)))))
       | Inr _ \<Rightarrow> map_of files' dest = Some (take bs (drop off buf)) \<and> map_of files' (dest @ suffix) = None \<and>
           load_at (snd (load_block [] files' (start_load dest buf2 off2 bs))) = LoadDone (Inr ()) \<and>
           load_view (snd (load_block [] files' (start_load dest buf2 off2 bs))) = take bs (drop off buf))"
proof -
  let ?outs = "take 6 (outs @ replicate 6 Works)"
  have r: "fold store_step ?outs (files, c) = (files', c')" using r by (simp add: store_block_def)
  have "length ?outs = 6" by simp
  then have "store_rank (store_at c') = 0"
    using store_steps_rank [of ?outs files c, unfolded r snd_conv] by (simp only: c(1)) (simp add: start_store_def)
  then obtain res where res: "store_at c' = StoreDone res" by (cases "store_at c'") auto
  have call: "dest_path c' = dest" "tmp_path c' = dest @ suffix" "view_slice c' = take bs (drop off buf)"
    using store_steps_call [of ?outs files c, unfolded r snd_conv] by (simp_all add: call_of_def c start_store_def)
  have "store_ok files (files, c)" using c(2) by (simp add: c(1) start_store_def store_ok_def)
  from store_steps_ok [OF this, of ?outs] have ok: "store_ok files (files', c')" unfolding r .
  show ?thesis
  proof (intro exI [of _ res] conjI)
    show "store_at c' = StoreDone res" by (rule res)
    show "\<forall>p. p \<noteq> dest \<and> p \<noteq> dest @ suffix \<longrightarrow> map_of files' p = map_of files p"
      using ok by (simp add: store_ok_def call)
    show "if map_of files dest \<noteq> None then res = Inr () \<and> files' = files
     else case res of
         Inl _ \<Rightarrow> map_of files' dest = None \<and>
           (map_of files' (dest @ suffix) = map_of files (dest @ suffix) \<or> map_of files' (dest @ suffix) = None \<or>
            (\<exists>n. map_of files' (dest @ suffix) = Some (take n (take bs (drop off buf)))))
       | Inr _ \<Rightarrow> map_of files' dest = Some (take bs (drop off buf)) \<and> map_of files' (dest @ suffix) = None \<and>
           load_at (snd (load_block [] files' (start_load dest buf2 off2 bs))) = LoadDone (Inr ()) \<and>
           load_view (snd (load_block [] files' (start_load dest buf2 off2 bs))) = take bs (drop off buf)"
    proof (cases res)
      case (Inl e)
      with ok res have "map_of files dest = None" "map_of files' dest = None"
        "temp_left files files' (dest @ suffix) (take bs (drop off buf))" by (simp_all add: store_ok_def call)
      with Inl show ?thesis unfolding temp_left_def by simp
    next
      case (Inr u)
      have "length (take bs (drop off buf)) = bs" using c(3) by simp
      with ok res Inr load_block_all [of files' dest "take bs (drop off buf)" bs off2 buf2] dst show ?thesis
        by (simp add: store_ok_def call split: if_splits)
    qed
  qed
qed

theorem store_block_correct_witness:
  "map_of (fst (store_block [Works, Works, Works, Partial 2] [(''d/x'', ''old'')]
      (start_store ''d/k.bin'' ''_7.tmp'' ''ABCDEF'' 2 2))) ''d/k.bin'' = Some ''CD''"
proof -
  let ?c = "start_store ''d/k.bin'' ''_7.tmp'' ''ABCDEF'' 2 2"
  let ?s = "store_block [Works, Works, Works, Partial 2] [(''d/x'', ''old'')] ?c"
  obtain f c' where s: "?s = (f, c')" by fastforce
  have "store_at (snd ?s) = StoreDone (Inr ())" by code_simp
  then have d: "store_at c' = StoreDone (Inr ())" by (simp only: s snd_conv)
  have t: "take 2 (drop 2 ''ABCDEF'') = ''CD''" by simp
  have "''_7.tmp'' \<noteq> []" "2 + 2 \<le> length ''ABCDEF''" "0 + 2 \<le> length ''..''" by simp_all
  from store_block_correct [OF refl this(1,2) s this(3)] d have "map_of f ''d/k.bin'' = Some ''CD''" by (auto simp: t)
  then show ?thesis by (simp only: s fst_conv)
qed

section \<open>Many calls\<close>

text \<open>
  \<open>A\<close>: which content a path may have, as pairs; \<open>T\<close>: the temporary paths of the stores.
\<close>

definition visible_ok :: "(string \<times> bytes) set \<Rightarrow> string set \<Rightarrow> (string \<times> bytes) list \<Rightarrow> bool" where
  "visible_ok A T files \<longleftrightarrow> (\<forall>p b. map_of files p = Some b \<longrightarrow> p \<notin> T \<longrightarrow> (p, b) \<in> A)"

definition store_call_ok :: "(string \<times> bytes) set \<Rightarrow> string set \<Rightarrow> (string \<times> bytes) list \<Rightarrow> store_call \<Rightarrow> bool" where
  "store_call_ok A T files c \<longleftrightarrow> (dest_path c, view_slice c) \<in> A \<and> dest_path c \<notin> T \<and> tmp_path c \<in> T \<and>
     (store_at c = ReplaceDest \<longrightarrow> map_of files (tmp_path c) = Some (view_slice c))"

definition load_call_ok :: "(string \<times> bytes) set \<Rightarrow> string set \<Rightarrow> load_call \<Rightarrow> bool" where
  "load_call_ok A T c \<longleftrightarrow> source_path c \<notin> T \<and> length (load_view c) \<le> read_size c \<and>
     (case load_at c of
        ReadSource b \<Rightarrow> (source_path c, b) \<in> A
      | LoadDone (Inr _) \<Rightarrow> \<exists>b. (source_path c, b) \<in> A \<and> load_view c = take (read_size c) b \<and> length (load_view c) = read_size c
      | _ \<Rightarrow> True)"

definition io_inv :: "(string \<times> bytes) set \<Rightarrow> string set \<Rightarrow> block_io \<Rightarrow> bool" where
  "io_inv A T s \<longleftrightarrow> visible_ok A T (io_files s) \<and> distinct (map tmp_path (io_stores s)) \<and>
     (\<forall>c \<in> set (io_stores s). store_call_ok A T (io_files s) c) \<and> (\<forall>c \<in> set (io_loads s). load_call_ok A T c)"

fun io_allowed :: "string set \<Rightarrow> io_event \<Rightarrow> bool" where
  "io_allowed T (UnlinkEvent p) = (p \<notin> T)"
| "io_allowed T _ = True"

text \<open>A store touches its temporary path and its destination only.\<close>

lemma store_step_frame:
  assumes "store_step out (files, c) = (files', c')" "p \<noteq> tmp_path c" "p \<noteq> dest_path c"
  shows "map_of files' p = map_of files p"
  using assms by (auto simp: store_step_def dict_simps split: store_pc.splits sys_outcome.splits option.splits if_splits)

lemma store_step_inv:
  assumes ok: "store_call_ok A T files c" and vis: "visible_ok A T files"
    and r: "store_step out (files, c) = (files', c')"
  shows "store_call_ok A T files' c' \<and> visible_ok A T files'"
proof -
  have frame: "map_of files' p = map_of files p" if "p \<noteq> tmp_path c" "p \<noteq> dest_path c" for p
    by (rule store_step_frame [OF r that])
  have ids: "dest_path c' = dest_path c" "tmp_path c' = tmp_path c" "view_slice c' = view_slice c"
    using store_step_call [of out files c] by (simp_all add: r call_of_def)
  have ne: "tmp_path c \<noteq> dest_path c" "tmp_path c \<in> T" using ok by (auto simp: store_call_ok_def)
  have dest: "map_of files' (dest_path c) = map_of files (dest_path c) \<or> map_of files' (dest_path c) = None \<or>
      map_of files' (dest_path c) = Some (view_slice c)"
    using r ok ne by (auto simp: store_call_ok_def store_step_def dict_simps split: store_pc.splits sys_outcome.splits option.splits if_splits)
  have tmp: "map_of files' (tmp_path c) = Some (view_slice c)" if "store_at c' = ReplaceDest"
    using that r ok by (auto simp: store_call_ok_def store_step_def dict_simps split: store_pc.splits sys_outcome.splits option.splits if_splits)
  have "(p, b) \<in> A" if p: "map_of files' p = Some b" "p \<notin> T" for p b
  proof (cases "p = dest_path c")
    case True
    with dest p have "map_of files (dest_path c) = Some b \<or> b = view_slice c" by auto
    with True p vis ok show ?thesis by (auto simp: visible_ok_def store_call_ok_def)
  next
    case False
    moreover have "p \<noteq> tmp_path c" using p(2) ne(2) by auto
    ultimately show ?thesis using vis p frame [of p] by (simp add: visible_ok_def)
  qed
  then show ?thesis using ok tmp by (auto simp: visible_ok_def store_call_ok_def ids)
qed

text \<open>A read that is not short leaves the file's bytes in the view.\<close>

lemma read_step:
  assumes at: "load_at c = ReadSource b" and out: "\<forall>e. out \<noteq> Raises e"
    and r: "load_step out (files, c) = (files', c')" and len: "length (load_view c) \<le> read_size c"
  obtains v where "files' = files" "length v \<le> read_size c"
    "c' = c\<lparr>load_view := v, load_at := RemoveSource (OSError ''Short read'')\<rparr> \<or>
     v = take (read_size c) b \<and> length v = read_size c \<and> c' = c\<lparr>load_view := v, load_at := LoadDone (Inr ())\<rparr>"
proof -
  define data where "data = (case out of Partial n \<Rightarrow> take n (take (length (load_view c)) b) | _ \<Rightarrow> take (length (load_view c)) b)"
  let ?v = "data @ drop (length data) (load_view c)"
  have "\<exists>n. data = take n (take (length (load_view c)) b)"
    using out by (cases out) (auto simp: data_def intro: exI [of _ "length (load_view c)"])
  then obtain n where n: "data = take n (take (length (load_view c)) b)" ..
  have c': "files' = files" "c' = c\<lparr>load_view := ?v,
      load_at := (if length data < read_size c then RemoveSource (OSError ''Short read'') else LoadDone (Inr ()))\<rparr>"
    using r at out by (cases out; auto simp: load_step_def data_def min.assoc min.commute min.left_commute)+
  have "?v = take (read_size c) b \<and> length ?v = read_size c" if "\<not> length data < read_size c"
  proof -
    from that n len have "length (load_view c) = read_size c" "length data = read_size c" by auto
    with n show ?thesis by (auto simp: min_def split: if_splits)
  qed
  with c' len show thesis by (intro that [of ?v]) (auto simp: n)
qed

lemma load_step_inv:
  assumes ok: "load_call_ok A T c" and vis: "visible_ok A T files" and r: "load_step out (files, c) = (files', c')"
  shows "load_call_ok A T c' \<and> visible_ok A T files' \<and> (\<forall>p \<in> T. map_of files' p = map_of files p)"
proof -
  have src: "source_path c \<notin> T" using ok by (simp add: load_call_ok_def)
  have del: "visible_ok A T (AList.delete (source_path c) files) \<and> (\<forall>p \<in> T. map_of (AList.delete (source_path c) files) p = map_of files p)"
    using vis src by (auto simp: visible_ok_def dict_simps)
  show ?thesis
  proof (cases "load_at c")
    case OpenSource
    have "(source_path c, b) \<in> A" if "map_of files (source_path c) = Some b" for b
      using vis src that by (simp add: visible_ok_def)
    with OpenSource r ok vis show ?thesis
      by (auto simp: load_step_def load_call_ok_def split: sys_outcome.splits option.splits)
  next
    case (ReadSource b)
    show ?thesis
    proof (cases "\<exists>e. out = Raises e")
      case True
      with ReadSource r ok vis show ?thesis by (auto simp: load_step_def load_call_ok_def)
    next
      case False
      then have "\<forall>e. out \<noteq> Raises e" "length (load_view c) \<le> read_size c" using ok by (simp_all add: load_call_ok_def)
      then obtain v where v: "files' = files" "length v \<le> read_size c"
        "c' = c\<lparr>load_view := v, load_at := RemoveSource (OSError ''Short read'')\<rparr> \<or>
         v = take (read_size c) b \<and> length v = read_size c \<and> c' = c\<lparr>load_view := v, load_at := LoadDone (Inr ())\<rparr>"
        by (metis read_step [OF ReadSource _ r])
      have "(source_path c, b) \<in> A" using ok ReadSource by (simp add: load_call_ok_def)
      with v ok vis show ?thesis by (auto simp: load_call_ok_def intro: exI [of _ b])
    qed
  next
    case (RemoveSource e)
    with r ok vis del show ?thesis by (cases out) (auto simp: load_step_def load_call_ok_def)
  next
    case (LoadDone res)
    with r ok vis show ?thesis by (simp add: load_step_def)
  qed
qed

lemma io_invD:
  assumes "io_inv A T s"
  shows "visible_ok A T (io_files s)" "distinct (map tmp_path (io_stores s))"
    "c \<in> set (io_stores s) \<Longrightarrow> store_call_ok A T (io_files s) c" "l \<in> set (io_loads s) \<Longrightarrow> load_call_ok A T l"
  using assms by (simp_all add: io_inv_def)

text \<open>A step of one call leaves the temporary files of the others alone.\<close>

lemma store_call_ok_frame:
  "store_call_ok A T files c \<Longrightarrow> map_of files' (tmp_path c) = map_of files (tmp_path c) \<Longrightarrow> store_call_ok A T files' c"
  by (simp add: store_call_ok_def)

lemma store_event_inv:
  assumes inv: "io_inv A T s" and i: "i < length (io_stores s)"
    and r: "store_step out (io_files s, io_stores s ! i) = (files', c')"
  shows "io_inv A T (s\<lparr>io_files := files', io_stores := (io_stores s)[i := c']\<rparr>)"
proof -
  let ?c = "io_stores s ! i"
  note st = io_invD(3) [OF inv]
  have c: "store_call_ok A T (io_files s) ?c" using st i by simp
  from store_step_inv [OF c io_invD(1) [OF inv] r] have c': "store_call_ok A T files' c'" "visible_ok A T files'" by simp_all
  have t: "tmp_path c' = tmp_path ?c" using store_step_call [of out "io_files s" ?c] by (simp add: r call_of_def)
  have "map tmp_path ((io_stores s)[i := c']) = map tmp_path (io_stores s)"
    using i by (simp add: map_update t list_update_same_conv)
  moreover have "store_call_ok A T files' ((io_stores s)[i := c'] ! j)" if j: "j < length (io_stores s)" for j
  proof (cases "j = i")
    case False
    then have "tmp_path (io_stores s ! j) \<noteq> tmp_path ?c"
      using io_invD(2) [OF inv] j i nth_eq_iff_index_eq [of "map tmp_path (io_stores s)" j i] by simp
    moreover have "tmp_path (io_stores s ! j) \<noteq> dest_path ?c"
      using st [of "io_stores s ! j"] c j by (auto simp: store_call_ok_def)
    ultimately show ?thesis using store_call_ok_frame [OF st [of "io_stores s ! j"]] store_step_frame [OF r] j False by simp
  qed (use c' j in simp)
  then have "store_call_ok A T files' x" if "x \<in> set ((io_stores s)[i := c'])" for x
    using that by (auto simp: in_set_conv_nth)
  ultimately show ?thesis using inv c' by (simp add: io_inv_def)
qed

lemma load_event_inv:
  assumes inv: "io_inv A T s" and i: "i < length (io_loads s)"
    and r: "load_step out (io_files s, io_loads s ! i) = (files', c')"
  shows "io_inv A T (s\<lparr>io_files := files', io_loads := (io_loads s)[i := c']\<rparr>)"
proof -
  have "load_call_ok A T (io_loads s ! i)" using io_invD(4) [OF inv] i by simp
  from load_step_inv [OF this io_invD(1) [OF inv] r] have c': "load_call_ok A T c'" "visible_ok A T files'"
    "\<And>p. p \<in> T \<Longrightarrow> map_of files' p = map_of (io_files s) p" by blast+
  have "store_call_ok A T files' x" if "x \<in> set (io_stores s)" for x
    using io_invD(3) [OF inv that] c'(3) by (simp add: store_call_ok_def)
  moreover have "load_call_ok A T x" if "x \<in> set ((io_loads s)[i := c'])" for x
    using that io_invD(4) [OF inv] c'(1) set_update_subset_insert by fastforce
  ultimately show ?thesis using c'(2) io_invD(2) [OF inv] by (simp add: io_inv_def)
qed

lemma unlink_event_inv:
  assumes inv: "io_inv A T s" and p: "p \<notin> T"
  shows "io_inv A T (s\<lparr>io_files := AList.delete p (io_files s)\<rparr>)"
proof -
  have "store_call_ok A T (AList.delete p (io_files s)) x" if "x \<in> set (io_stores s)" for x
    using io_invD(3) [OF inv that] p by (auto simp: store_call_ok_def dict_simps)
  moreover have "visible_ok A T (AList.delete p (io_files s))" using io_invD(1) [OF inv] by (simp add: visible_ok_def dict_simps)
  ultimately show ?thesis using inv by (simp add: io_inv_def)
qed

lemma io_step_inv:
  assumes "io_allowed T ev" "io_inv A T s"
  shows "io_inv A T (io_step ev s)"
  using assms store_event_inv [OF assms(2)] load_event_inv [OF assms(2)] unlink_event_inv [OF assms(2)]
  by (cases ev) (simp_all split: prod.split)

interpretation io_run: guarded_component io_step "io_inv A T" "io_allowed T" for A T
  by unfold_locales (rule io_step_inv)

text \<open>C11: A block file is complete whenever it can be seen. Any number of threads and processes
  store and load blocks and delete files, their system calls interleaved in any order and
  with any outcomes. As long as temporary paths are different from each other and from
  block paths, every block file holds at every moment what it held at first or the whole
  block of one of its stores; and a load that returns normally has filled its view with
  such a block. (A block shorter than asked for is reported as an error.)\<close>

theorem block_files_complete:
  assumes stores: "\<forall>c \<in> set (io_stores s). store_at c = CheckExists \<and> dest_path c \<notin> T"
    and loads: "\<forall>c \<in> set (io_loads s). load_at c = OpenSource \<and> length (load_view c) \<le> read_size c \<and> source_path c \<notin> T"
    and tmps: "distinct (map tmp_path (io_stores s))" "T = tmp_path ` set (io_stores s)"
    and events: "list_all (io_allowed T) evs" and run: "fold io_step evs s = s'"
    and content: "content = (\<lambda>p b. map_of (io_files s) p = Some b \<or> (\<exists>c \<in> set (io_stores s). dest_path c = p \<and> view_slice c = b))"
  shows "(\<forall>p b. map_of (io_files s') p = Some b \<and> p \<notin> T \<longrightarrow> content p b) \<and>
    (\<forall>c \<in> set (io_loads s'). load_at c = LoadDone (Inr ()) \<longrightarrow>
       (\<exists>b. content (source_path c) b \<and> load_view c = take (read_size c) b \<and> length (load_view c) = read_size c))"
proof -
  define A where "A = {(p, b). content p b}"
  have "io_inv A T s"
    using stores loads tmps by (auto simp: io_inv_def A_def content visible_ok_def store_call_ok_def load_call_ok_def)
  from io_run.run_inv [OF this events] have "io_inv A T s'" by (simp only: run)
  then show ?thesis by (auto simp: io_inv_def visible_ok_def load_call_ok_def A_def)
qed

text \<open>Two threads store different bytes under one name, a third loads it meanwhile.\<close>

definition race_start :: block_io where
  "race_start = \<lparr>io_files = [], io_stores = [start_store ''k'' ''_1.tmp'' ''ABCD'' 0 2, start_store ''k'' ''_2.tmp'' ''WXYZ'' 2 2],
     io_loads = [start_load ''k'' ''....'' 0 2]\<rparr>"

definition race_events :: "io_event list" where
  "race_events = map (\<lambda>i. StoreEvent i Works) [0, 0, 1, 1, 0, 0, 1, 1, 0] @ [LoadEvent 0 Works, StoreEvent 1 Works, LoadEvent 0 Works]"

theorem block_files_complete_witness:
  "load_view (io_loads (fold io_step race_events race_start) ! 0) \<in> {''AB'', ''YZ''} \<and>
   map_of (io_files (fold io_step race_events race_start)) ''k'' = Some ''YZ''"
proof -
  let ?s = "fold io_step race_events race_start" and ?T = "tmp_path ` set (io_stores race_start)"
  let ?c = "\<lambda>p b. map_of (io_files race_start) p = Some b \<or> (\<exists>c \<in> set (io_stores race_start). dest_path c = p \<and> view_slice c = b)"
  have st: "\<forall>c \<in> set (io_stores race_start). store_at c = CheckExists \<and> dest_path c \<notin> ?T" by code_simp
  have ld: "\<forall>c \<in> set (io_loads race_start). load_at c = OpenSource \<and> length (load_view c) \<le> read_size c \<and> source_path c \<notin> ?T"
    by code_simp
  have d: "distinct (map tmp_path (io_stores race_start))" by code_simp
  have ev: "list_all (io_allowed ?T) race_events" by (simp add: race_events_def)
  note t = block_files_complete [OF st ld d refl ev refl refl]
  have l: "load_at (io_loads ?s ! 0) = LoadDone (Inr ())" "source_path (io_loads ?s ! 0) = ''k''" "read_size (io_loads ?s ! 0) = 2"
    "io_loads ?s ! 0 \<in> set (io_loads ?s)" by code_simp+
  from t l obtain b where "?c ''k'' b" "load_view (io_loads ?s ! 0) = take 2 b" by metis
  then have "load_view (io_loads ?s ! 0) \<in> {''AB'', ''YZ''}" by (auto simp: race_start_def start_store_def)
  moreover have "map_of (io_files ?s) ''k'' = Some ''YZ''" by code_simp
  ultimately show ?thesis by blast
qed

section \<open>Temporary names\<close>

lemma digit_inj: "inj_on (\<lambda>d. char_of (48 + d)) {..<10 :: nat}"
proof (rule inj_onI)
  fix a b :: nat assume "a \<in> {..<10}" "b \<in> {..<10}" "char_of (48 + a) = (char_of (48 + b) :: char)"
  then have "of_char (char_of (48 + a) :: char) = (of_char (char_of (48 + b) :: char) :: nat)" by simp
  with \<open>a \<in> _\<close> \<open>b \<in> _\<close> show "a = b" by simp
qed

lemma decimal_nonempty: "decimal n \<noteq> []"
  by (simp add: decimal.simps [of n])

lemma decimal_eq_small: "m < 10 \<Longrightarrow> decimal m = decimal n \<Longrightarrow> n < 10"
  using decimal_nonempty [of "n div 10"] by (auto simp: decimal.simps [of m] decimal.simps [of n] split: if_splits)

lemma decimal_inj: "decimal m = decimal n \<Longrightarrow> m = n"
proof (induction m arbitrary: n rule: decimal.induct)
  case (1 m)
  have eq: "a = b" if "char_of (48 + a) = (char_of (48 + b) :: char)" "a < 10" "b < 10" for a b :: nat
    using inj_onD [OF digit_inj that(1)] that by simp
  show ?case
  proof (cases "m < 10")
    case True
    with decimal_eq_small [OF True "1.prems"] "1.prems" eq show ?thesis by (simp add: decimal.simps [of m] decimal.simps [of n])
  next
    case False
    then have "\<not> n < 10" using decimal_eq_small [of n m] "1.prems" by auto
    with False "1.prems" have "decimal (m div 10) = decimal (n div 10)" "m mod 10 = n mod 10"
      using eq [of "m mod 10" "n mod 10"] by (simp_all add: decimal.simps [of m] decimal.simps [of n])
    with "1.IH" [OF False this(1)] show ?thesis by (metis div_mult_mod_eq)
  qed
qed

text \<open>Different draws give different suffixes, and a thread keeps the suffix it has.\<close>

lemma tmp_suffix_unique:
  "fst (get_tmp_suffix n None) = fst (get_tmp_suffix m None) \<longleftrightarrow> n = m"
  "get_tmp_suffix m (snd (get_tmp_suffix n local)) = get_tmp_suffix n local"
  by (auto simp: get_tmp_suffix_def Let_def split: option.splits dest: decimal_inj)

end
