(* ===== verification/Fs_Manager_Props.thy ===== *)
theory Fs_Manager_Props
  imports Fs_Manager Segment_Failures Block_IO_Props
begin

text \<open>
  The file system tier as a map from keys to blocks: store jobs extend it, load jobs read it,
  look-ups test it and deletions restrict it, whatever order the pool runs a job's tasks in.
\<close>

section \<open>Grouping\<close>

text \<open>The loop that both \<open>group_writes\<close> and \<open>submit_load\<close> run over a dictionary of lists.\<close>

definition group_fold :: "('e \<Rightarrow> 'k) \<Rightarrow> 'e list \<Rightarrow> ('k \<times> 'e list) list \<Rightarrow> ('k \<times> 'e list) list" where
  "group_fold f es d = fold (\<lambda>e d. AList.update (f e) (dict_get d (f e) [] @ [e]) d) es d"

lemma group_fold_simps [simp]:
  "group_fold f [] d = d"
  "group_fold f (e # es) d = group_fold f es (AList.update (f e) (dict_get d (f e) [] @ [e]) d)"
  by (simp_all add: group_fold_def)

lemma distinct_group_fold: "distinct (map fst d) \<Longrightarrow> distinct (map fst (group_fold f es d))"
  by (induction es arbitrary: d) (auto simp: distinct_update)

lemma mset_update_snoc:
  "distinct (map fst d) \<Longrightarrow>
     mset (concat (map snd (AList.update k (dict_get d k [] @ [x]) d))) = add_mset x (mset (concat (map snd d)))"
proof (induction d)
  case (Cons p d)
  obtain k0 v where p: "p = (k0, v)" by (cases p)
  with Cons show ?case by (cases "k0 = k") (simp_all add: dict_get_def)
qed (simp add: dict_get_def)

lemma mset_group_fold:
  "distinct (map fst d) \<Longrightarrow> mset (concat (map snd (group_fold f es d))) = mset (concat (map snd d)) + mset es"
  by (induction es arbitrary: d) (simp_all add: mset_update_snoc distinct_update)

lemma group_fold_same:
  assumes "\<forall>(k, g) \<in> set d. g \<noteq> [] \<and> (\<forall>e \<in> set g. f e = k)" "distinct (map fst d)"
  shows "\<forall>(k, g) \<in> set (group_fold f es d). g \<noteq> [] \<and> (\<forall>e \<in> set g. f e = k)"
  using assms
proof (induction es arbitrary: d)
  case (Cons e es)
  let ?d = "AList.update (f e) (dict_get d (f e) [] @ [e]) d"
  have get: "\<forall>x \<in> set (dict_get d (f e) []). f x = f e"
    using Cons.prems by (cases "map_of d (f e)") (auto dest: map_of_SomeD)
  have "g \<noteq> [] \<and> (\<forall>x \<in> set g. f x = k)" if "(k, g) \<in> set ?d" for k g
  proof -
    have "map_of ?d k = Some g" using that Cons.prems(2) by (simp add: map_of_eq_Some_iff distinct_update)
    show ?thesis
    proof (cases "k = f e")
      case True
      with \<open>map_of ?d k = Some g\<close> have g: "g = dict_get d (f e) [] @ [e]" by (simp add: dict_simps)
      have "x \<in> set (dict_get d (f e) []) \<or> x = e" if "x \<in> set g" for x using that by (simp add: g disj_commute)
      with get have "\<forall>x \<in> set g. f x = k" unfolding True by blast
      then show ?thesis by (simp only: g) simp
    next
      case False
      with \<open>map_of ?d k = Some g\<close> have "(k, g) \<in> set d" by (auto simp: dict_simps dest: map_of_SomeD)
      with Cons.prems(1) show ?thesis by blast
    qed
  qed
  then have "\<forall>(k, g) \<in> set ?d. g \<noteq> [] \<and> (\<forall>x \<in> set g. f x = k)" by blast
  from Cons.IH [OF this] Cons.prems(2) show ?case by (simp add: distinct_update)
qed simp

lemma group_writes_eq: "group_writes es = map snd (group_fold sw_segment_id es [])"
  by (simp add: group_writes_def group_fold_def)

text \<open>The tasks of a plan partition its entries, one segment each.\<close>

lemma group_writes_partition:
  "mset (concat (group_writes es)) = mset es"
  "g \<in> set (group_writes es) \<Longrightarrow> g \<noteq> [] \<and> (\<exists>sid. \<forall>e \<in> set g. sw_segment_id e = sid)"
proof -
  show "mset (concat (group_writes es)) = mset es"
    using mset_group_fold [of "[]" sw_segment_id es] by (simp add: group_writes_eq)
  show "g \<noteq> [] \<and> (\<exists>sid. \<forall>e \<in> set g. sw_segment_id e = sid)" if "g \<in> set (group_writes es)"
  proof -
    from that obtain k where "(k, g) \<in> set (group_fold sw_segment_id es [])" by (auto simp: group_writes_eq)
    with group_fold_same [of "[]" sw_segment_id es] show ?thesis by auto
  qed
qed

definition task_entries :: "fs_task \<Rightarrow> segment_write list" where
  "task_entries t = (case t of WriteEntries es \<Rightarrow> es | _ \<Rightarrow> [])"

definition is_store_task :: "fs_task \<Rightarrow> bool" where
  "is_store_task t \<longleftrightarrow> (case t of WriteEntries _ \<Rightarrow> True | NoTask \<Rightarrow> True | _ \<Rightarrow> False)"

lemma store_tasks_facts:
  "store_tasks plan \<noteq> []" "\<forall>t \<in> set (store_tasks plan). is_store_task t"
  "mset (concat (map task_entries (store_tasks plan))) = mset plan"
proof -
  show "store_tasks plan \<noteq> []" by (simp add: store_tasks_def Let_def)
  show "\<forall>t \<in> set (store_tasks plan). is_store_task t" by (auto simp: store_tasks_def Let_def is_store_task_def)
  have "map task_entries (map WriteEntries gs) = gs" for gs by (simp add: task_entries_def comp_def)
  then show "mset (concat (map task_entries (store_tasks plan))) = mset plan"
    using group_writes_partition(1) [of plan] by (auto simp: store_tasks_def Let_def task_entries_def)
qed

section \<open>Running the tasks of a job\<close>

text \<open>The tasks in the order given, each in its environment, with the conjunction of their outcomes.\<close>

fun run_tasks :: "(task_env \<times> fs_task) list \<Rightarrow> fs_manager \<times> fs_world \<Rightarrow> bool \<times> fs_manager \<times> fs_world" where
  "run_tasks [] mw = (True, mw)"
| "run_tasks ((env, t) # ts) mw =
     (let (r, mw) = run_task env t mw; (ok, mw) = run_tasks ts mw in (\<not> isl r \<and> ok, mw))"

text \<open>Store tasks: if all succeed, every entry is written; else, other ranges are kept.\<close>

lemma run_store_tasks:
  assumes seg: "fm_segment m = Some s" and iov: "\<forall>(env, t) \<in> set ts. 0 < te_iov env \<and> is_store_task t" "0 < fm_io_batch m"
    and bs: "0 < block_size s" and blocks: "\<forall>(env, t) \<in> set ts. \<forall>e \<in> set (task_entries t). block_in (block_size s) (w_view w) (sw_block_id e)"
    and r: "run_tasks ts (m, w) = (ok, m', w')"
  shows "m' = m \<and> w_view w' = w_view w \<and> w_files w' = w_files w \<and>
    db_blocks (w_shared w') = db_blocks (w_shared w) \<and> db_meta (w_shared w') = db_meta (w_shared w) \<and>
    (ok \<longrightarrow> seg_files (w_shared w') =
       fold (write_block (block_size s) (w_view w)) (concat (map (task_entries \<circ> snd) ts)) (seg_files (w_shared w))) \<and>
    (\<forall>sid off len. present (seg_files (w_shared w)) sid off len \<longrightarrow> 0 < len \<longrightarrow>
       (\<forall>(env, t) \<in> set ts. \<forall>e \<in> set (task_entries t).
          \<not> overlap \<lparr>ex_seg = sid, ex_start = off, ex_end = off + len\<rparr> (extent_of (block_size s) e)) \<longrightarrow>
       kept sid off len (seg_files (w_shared w)) (seg_files (w_shared w')))"
  using iov(1) blocks r
proof (induction ts arbitrary: w ok)
  case Nil
  then show ?case by (simp add: kept_def)
next
  case (Cons et ts)
  obtain env t where et: "et = (env, t)" by (cases et)
  obtain r1 m1 w1 where 1: "run_task env t (m, w) = (r1, m1, w1)" by (metis prod_cases3)
  obtain ok2 where 2: "run_tasks ts (m1, w1) = (ok2, m', w')" and ok: "ok = (\<not> isl r1 \<and> ok2)"
    using Cons.prems(3) by (auto simp: et 1 split: prod.splits)
  have t: "0 < te_iov env" "is_store_task t" "\<forall>e \<in> set (task_entries t). block_in (block_size s) (w_view w) (sw_block_id e)"
    using Cons.prems(1,2) by (simp_all add: et)
  obtain sh where sh: "m1 = m" "w1 = w\<lparr>w_shared := sh\<rparr>" "write_entries (te_iov env) (Some (fm_io_batch m)) (task_entries t) (w_view w) (te_io env) (w_shared w) s = (r1, sh)"
    using 1 t(2) seg by (cases t) (auto simp: is_store_task_def task_entries_def write_entries_def split: prod.splits)
  note ix = write_entries_index [OF sh(3)]
  have full: "seg_files sh = fold (write_block (block_size s) (w_view w)) (task_entries t) (seg_files (w_shared w))" if "\<not> isl r1"
  proof -
    from that obtain u where "r1 = Inr u" by (cases r1) auto
    from write_entries_success [OF sh(3) [unfolded this] _ t(3)] t(1) iov(2) show ?thesis by (simp add: batch_limit_def)
  qed
  have view: "w_view w1 = w_view w" "w_files w1 = w_files w" "w_shared w1 = sh" by (simp_all add: sh(2))
  have IH: "m' = m \<and> w_view w' = w_view w \<and> w_files w' = w_files w \<and>
    db_blocks (w_shared w') = db_blocks sh \<and> db_meta (w_shared w') = db_meta sh \<and>
    (ok2 \<longrightarrow> seg_files (w_shared w') =
       fold (write_block (block_size s) (w_view w)) (concat (map (task_entries \<circ> snd) ts)) (seg_files sh)) \<and>
    (\<forall>sid off len. present (seg_files sh) sid off len \<longrightarrow> 0 < len \<longrightarrow>
       (\<forall>(env, t) \<in> set ts. \<forall>e \<in> set (task_entries t).
          \<not> overlap \<lparr>ex_seg = sid, ex_start = off, ex_end = off + len\<rparr> (extent_of (block_size s) e)) \<longrightarrow>
       kept sid off len (seg_files sh) (seg_files (w_shared w')))"
    using Cons.IH [of w1 ok2, unfolded view] Cons.prems(1,2) 2 by (simp add: sh(1) comp_def)
  have "kept sid off len (seg_files (w_shared w)) (seg_files (w_shared w'))"
    if k: "present (seg_files (w_shared w)) sid off len" "0 < len"
      "\<forall>(env, t) \<in> set (et # ts). \<forall>e \<in> set (task_entries t).
          \<not> overlap \<lparr>ex_seg = sid, ex_start = off, ex_end = off + len\<rparr> (extent_of (block_size s) e)" for sid off len
  proof -
    have "kept sid off len (seg_files (w_shared w)) (seg_files sh)"
      using write_entries_kept [OF sh(3) k(1,2) bs] k(3) by (simp add: et)
    moreover from this IH k have "kept sid off len (seg_files sh) (seg_files (w_shared w'))" by (simp add: kept_def)
    ultimately show ?thesis by (rule kept_trans)
  qed
  with IH ix full ok show ?case by (simp add: et comp_def)
qed

section \<open>The tier as a map\<close>

text \<open>The block that the tier has for a key: in a segment, or else in a block file.\<close>

definition tier_block :: "(offload_key \<Rightarrow> string) \<Rightarrow> fs_manager \<times> fs_world \<Rightarrow> offload_key \<Rightarrow> bytes option" where
  "tier_block mapper = (\<lambda>(m, w) k.
     (case fm_segment m of
        None \<Rightarrow> map_of (w_files w) (mapper k)
      | Some s \<Rightarrow>
          (case locate (w_shared w) s k of
             None \<Rightarrow> map_of (w_files w) (mapper k)
           | Some l \<Rightarrow> Some (content (seg_files (w_shared w)) (segment_id l) (offset l) (loc_length l)))))"

lemma complete_store_locate:
  assumes kd: "keys_distinct sh" and d: "distinct (map sw_key es)" and r: "complete_store tx es success sh s = (r, sh', s')"
  shows "locate sh' s' k =
      (if success \<and> \<not> isl r \<and> locate sh s k = None
       then map_option (\<lambda>e. entry_location (block_size s, e)) (map_of (map (\<lambda>e. (sw_key e, e)) es) k)
       else locate sh s k)"
    and "seg_files sh' = seg_files sh" and "\<not> success \<Longrightarrow> r = Inr ()"
proof -
  let ?f = "\<lambda>e. entry_location (block_size s, e)"
  let ?sh = "sh\<lparr>db_blocks := fold (\<lambda>e d. setdefault (sw_key e) (?f e) d) es (db_blocks sh)\<rparr>"
  have loc: "locate ?sh s k = (if locate sh s k = None then map_option ?f (map_of (map (\<lambda>e. (sw_key e, e)) es) k) else locate sh s k)"
  proof (cases "locate sh s k")
    case None
    then have n: "map_of (location_cache s) k = None" "map_of (db_blocks sh) k = None"
      by (auto simp: locate_def split: option.splits)
    show ?thesis
    proof (cases "map_of (map (\<lambda>e. (sw_key e, e)) es) k")
      case None
      then have "\<forall>e \<in> set es. sw_key e \<noteq> k" by (force simp: map_of_eq_None_iff)
      with map_of_insert_entries [of ?f es "db_blocks sh" k] n show ?thesis
        by (cases "map_of (db_blocks ?sh) k") (auto simp: locate_def None)
    next
      case (Some e)
      then have "e \<in> set es" "sw_key e = k" by (auto dest: map_of_SomeD)
      with insert_entries_new [OF d this(1), of "db_blocks sh" ?f] n show ?thesis by (simp add: locate_def Some)
    qed
  next
    case (Some l)
    with insert_entries_old [of "db_blocks sh" k l ?f es] show ?thesis by (auto simp: locate_def split: option.splits)
  qed
  have kd': "keys_distinct ?sh" using kd by (simp add: keys_distinct_def distinct_insert_entries)
  have cs: "complete_store tx es success sh s =
      (if \<not> success \<or> es = [] then (Inr (), sh, s) else if \<not> tx then (Inl (OSError ''transaction failed''), sh, s)
       else (Inr (), ?sh, snd (get_locations (map sw_key es) ?sh s)))"
    by (simp add: complete_store_def Let_def case_prod_beta entry_location_def)
  show "locate sh' s' k =
      (if success \<and> \<not> isl r \<and> locate sh s k = None
       then map_option (\<lambda>e. entry_location (block_size s, e)) (map_of (map (\<lambda>e. (sw_key e, e)) es) k)
       else locate sh s k)"
  proof (cases "success \<and> es \<noteq> [] \<and> tx")
    case True
    then have "(Inr (), ?sh, snd (get_locations (map sw_key es) ?sh s)) = (r, sh', s')"
      unfolding r [symmetric] cs by simp
    then have e: "r = Inr ()" "locate sh' s' k = locate ?sh (snd (get_locations (map sw_key es) ?sh s)) k" by auto
    show ?thesis unfolding e(2) locate_after_lookup [OF kd'] loc using True by (simp add: e(1))
  next
    case False
    then have "sh' = sh" "s' = s" "success \<Longrightarrow> es \<noteq> [] \<Longrightarrow> isl r" using r unfolding cs by (auto split: if_splits)
    with False show ?thesis by (cases "es = []"; cases "locate sh s k") auto
  qed
  show "seg_files sh' = seg_files sh"
    using complete_store_shared [of tx es success sh s] by (simp add: r split: if_splits)
  show "r = Inr ()" if "\<not> success" using r that by (simp add: complete_store_def)
qed

text \<open>What is expected of the tier before a job: a sound index, whose blocks are on disk.\<close>

definition healthy :: "segment_shared \<Rightarrow> segment_store \<Rightarrow> extent list \<Rightarrow> bool" where
  "healthy sh s xs \<longleftrightarrow> keys_distinct sh \<and> db_alloc_ok sh xs \<and> indexed_extents sh xs \<and> cache_current sh s \<and>
     0 < segment_shards s \<and> 0 < block_size s \<and> block_size s \<le> segment_size_bytes s \<and>
     (\<forall>k l. map_of (db_blocks sh) k = Some l \<longrightarrow> loadable (block_size s) (seg_files sh) l)"

lemma healthyD:
  assumes "healthy sh s xs"
  shows "keys_distinct sh" "db_alloc_ok sh xs" "indexed_extents sh xs" "cache_current sh s"
    "0 < segment_shards s" "0 < block_size s" "block_size s \<le> segment_size_bytes s"
    "\<And>k l. locate sh s k = Some l \<Longrightarrow> map_of (db_blocks sh) k = Some l \<and> loadable (block_size s) (seg_files sh) l"
  using assms locate_current [of sh s] unfolding healthy_def by auto

lemma mset_concat_map: "mset (concat (map f xs)) = (\<Sum>x \<in># mset xs. mset (f x))"
  by (induction xs) simp_all

lemma no_block_size_change: "s' = s\<lparr>location_cache := c\<rparr> \<Longrightarrow> block_size s' = block_size s"
  by simp

text \<open>The parts of a store job: its plan, its tasks in any order, and the callback.\<close>

lemma submit_store_plan:
  assumes seg: "fm_segment m = Some s" and submit: "fs_submit_store tx mapper job_id keys block_ids (m, w) = (Inr (), m1, w1)"
    and tasks: "store_q (fm_pool m1) = store_q (fm_pool m) @ map (\<lambda>t. (t, length (jobs (fm_pool m)))) tasks"
    and plan: "on_complete (jobs (fm_pool m1) ! length (jobs (fm_pool m))) = Some plan"
  obtains sh1 s1 where "prepare_store tx keys block_ids (w_shared w) s = (Inr plan, sh1, s1)" "store_tasks plan = tasks"
    "fm_segment m1 = Some s1" "fm_io_batch m1 = fm_io_batch m" "w1 = w\<lparr>w_shared := sh1\<rparr>"
proof -
  obtain p sh1 s1 where p: "prepare_store tx keys block_ids (w_shared w) s = (Inr p, sh1, s1)"
    and m1: "m1 = m\<lparr>fm_segment := Some s1, fm_pool := enqueue_store job_id (length (store_tasks p)) (store_tasks p) (Some p) (fm_pool m)\<rparr>"
    and w1: "w1 = w\<lparr>w_shared := sh1\<rparr>"
    using submit seg that by (auto simp: fs_submit_store_def Let_def split: sum.splits prod.splits)
  have "p = plan" "store_tasks p = tasks"
    using plan tasks by (auto simp: m1 enqueue_store_def new_job_state_def inj_map_eq_map inj_on_def)
  with p m1 w1 that show thesis by simp
qed

lemma tasks_any_order:
  assumes "mset (map snd ts) = mset (store_tasks plan)"
  shows "mset (concat (map (task_entries \<circ> snd) ts)) = mset plan"
    and "(env, t) \<in> set ts \<Longrightarrow> is_store_task t \<and> set (task_entries t) \<subseteq> set plan"
proof -
  have "mset (concat (map task_entries (map snd ts))) = mset (concat (map task_entries (store_tasks plan)))"
    unfolding mset_concat_map by (simp only: assms)
  then show es: "mset (concat (map (task_entries \<circ> snd) ts)) = mset plan" using store_tasks_facts(3) [of plan] by simp
  assume t: "(env, t) \<in> set ts"
  then have "t \<in> set (map snd ts)" by (force simp: image_iff)
  then have "t \<in> set (store_tasks plan)" unfolding mset_eq_setD [OF assms] .
  moreover have "set (task_entries t) \<subseteq> set (concat (map (task_entries \<circ> snd) ts))" using t by force
  ultimately show "is_store_task t \<and> set (task_entries t) \<subseteq> set plan"
    using store_tasks_facts(2) [of plan] mset_eq_setD [OF es] by blast
qed

text \<open>The tasks of a plan: if all succeed, every block is written; what was indexed is kept.\<close>

lemma store_job_run:
  assumes m: "fm_segment m = Some s" "0 < fm_io_batch m" "0 < block_size s" and order: "mset (map snd ts) = mset (store_tasks plan)"
    and env: "\<forall>(env, t) \<in> set ts. 0 < te_iov env" and blocks: "\<forall>e \<in> set plan. block_in (block_size s) (w_view w) (sw_block_id e)"
    and no: "no_overlap (xs @ map (extent_of (block_size s)) plan)" and run: "run_tasks ts (m, w) = (success, m', w')"
  shows "m' = m \<and> w_view w' = w_view w \<and> w_files w' = w_files w \<and> db_blocks (w_shared w') = db_blocks (w_shared w) \<and>
    (success \<longrightarrow> (\<forall>e \<in> set plan. content (seg_files (w_shared w')) (sw_segment_id e) (sw_offset e) (block_size s) =
       view_of (block_size s) (sw_block_id e) (w_view w))) \<and>
    (\<forall>l. loc_extent l \<in> set xs \<longrightarrow> loadable (block_size s) (seg_files (w_shared w)) l \<longrightarrow>
       kept (segment_id l) (offset l) (loc_length l) (seg_files (w_shared w)) (seg_files (w_shared w')))"
proof -
  let ?es = "concat (map (task_entries \<circ> snd) ts)"
  note order = tasks_any_order [OF order]
  have envs: "\<forall>(env, t) \<in> set ts. 0 < te_iov env \<and> is_store_task t" using env order(2) by blast
  have inb: "\<forall>(env, t) \<in> set ts. \<forall>e \<in> set (task_entries t). block_in (block_size s) (w_view w) (sw_block_id e)"
    using order(2) blocks by blast
  note rst = run_store_tasks [OF m(1) envs m(2,3) inb run]
  have written: "content (seg_files (w_shared w')) (sw_segment_id e) (sw_offset e) (block_size s) = view_of (block_size s) (sw_block_id e) (w_view w)"
    if "success" "e \<in> set plan" for e
  proof -
    have "no_overlap (map (extent_of (block_size s)) ?es)"
      by (rule no_overlap_perm [of "map (extent_of (block_size s)) plan"]) (use no order(1) in \<open>simp_all add: sorted_wrt_append\<close>)
    moreover have "\<forall>e \<in> set ?es. block_in (block_size s) (w_view w) (sw_block_id e)" using blocks mset_eq_setD [OF order(1)] by simp
    ultimately have "content (fold (write_block (block_size s) (w_view w)) ?es (seg_files (w_shared w))) (sw_segment_id e) (sw_offset e) (block_size s) =
        view_of (block_size s) (sw_block_id e) (w_view w)"
      using write_blocks_all [OF _ _ m(3)] that(2) mset_eq_setD [OF order(1)] by blast
    with rst that(1) show ?thesis by simp
  qed
  have keep: "kept (segment_id l) (offset l) (loc_length l) (seg_files (w_shared w)) (seg_files (w_shared w'))"
    if l: "loc_extent l \<in> set xs" "loadable (block_size s) (seg_files (w_shared w)) l" for l
  proof -
    have "\<forall>(env, t) \<in> set ts. \<forall>e \<in> set (task_entries t).
        \<not> overlap \<lparr>ex_seg = segment_id l, ex_start = offset l, ex_end = offset l + loc_length l\<rparr> (extent_of (block_size s) e)"
      using no_overlap_appendD [OF no l(1)] order(2) by (fastforce simp: loc_extent_def)
    moreover have "present (seg_files (w_shared w)) (segment_id l) (offset l) (loc_length l)" "0 < loc_length l"
      using l(2) m(3) by (simp_all add: loadable_def)
    ultimately show ?thesis using rst by blast
  qed
  show ?thesis using rst written keep by blast
qed

text \<open>C7: A store job makes the tier the old one overridden with the new blocks, or leaves it as it
  was. Whatever order the pool runs the job's tasks in and whatever the outcomes of their
  writes: if all of them succeed and the callback commits, each key that the index did not
  have has the block of its first occurrence; otherwise no key's block changes. The blocks
  of all other keys stay the same.\<close>

theorem fs_store_job:
  assumes seg: "fm_segment m = Some s" "0 < fm_io_batch m" and ok: "healthy (w_shared w) s xs"
    and ids: "\<forall>b \<in> set block_ids. block_in (block_size s) (w_view w) b"
    and submit: "fs_submit_store tx mapper job_id keys block_ids (m, w) = (Inr (), m1, w1)"
    and tasks: "store_q (fm_pool m1) = store_q (fm_pool m) @ map (\<lambda>t. (t, length (jobs (fm_pool m)))) tasks"
    and plan: "on_complete (jobs (fm_pool m1) ! length (jobs (fm_pool m))) = Some plan"
    and order: "mset (map snd ts) = mset tasks" "\<forall>(env, t) \<in> set ts. 0 < te_iov env"
    and run: "run_tasks ts (m1, w1) = (success, m2, w2)"
    and callback: "run_callback tx2 plan success (m2, w2) = (r, m3, w3)"
  shows "tier_block mapper (m3, w3) k =
    (if success \<and> \<not> isl r \<and> locate (w_shared w) s k = None \<and> k \<in> set keys
     then Some (view_of (block_size s) (the (map_of (zip keys block_ids) k)) (w_view w))
     else tier_block mapper (m, w) k)"
proof -
  note h = healthyD [OF ok]
  obtain sh1 s1 where p: "prepare_store tx keys block_ids (w_shared w) s = (Inr plan, sh1, s1)" and t: "store_tasks plan = tasks"
    and m1: "fm_segment m1 = Some s1" "fm_io_batch m1 = fm_io_batch m" "w1 = w\<lparr>w_shared := sh1\<rparr>"
    by (rule submit_store_plan [OF seg(1) submit tasks plan])
  note pc = prepare_store_plan [OF h(1,2,5,7) p] and cs = prepare_store_cases [OF h(1,2,5) p]
  have s1: "block_size s1 = block_size s" using conjunct1 [OF cs] by (rule no_block_size_change)
  have planned: "(\<exists>e \<in> set plan. sw_key e = k \<and> sw_block_id e = b) \<longleftrightarrow>
      locate (w_shared w) s k = None \<and> map_of (zip keys block_ids) k = Some b" for k b
    by (rule pc [THEN conjunct2, THEN conjunct2, THEN conjunct1, rule_format])
  have blocks: "\<forall>e \<in> set plan. block_in (block_size s1) (w_view w1) (sw_block_id e)"
    using planned ids by (auto simp: s1 m1(3)) (metis map_of_SomeD set_zip_rightD)
  have dist: "distinct (map sw_key plan)" and files1: "seg_files sh1 = seg_files (w_shared w)" using pc by simp_all
  note rs = store_job_run [OF m1(1) _ _ order(1) [folded t] order(2) blocks _ run, of xs, unfolded s1 m1(2)]
  have rs: "m2 = m1" "w_files w2 = w_files w" "db_blocks (w_shared w2) = db_blocks sh1"
    "success \<Longrightarrow> e \<in> set plan \<Longrightarrow> content (seg_files (w_shared w2)) (sw_segment_id e) (sw_offset e) (block_size s) =
       view_of (block_size s) (sw_block_id e) (w_view w)"
    "loc_extent l \<in> set xs \<Longrightarrow> loadable (block_size s) (seg_files (w_shared w)) l \<Longrightarrow>
       kept (segment_id l) (offset l) (loc_length l) (seg_files (w_shared w)) (seg_files (w_shared w2))" for e l
    using rs seg(2) h(6) pc by (simp_all add: m1(3) files1)
  obtain sh3 s3 where cb: "complete_store tx2 plan success (w_shared w2) s1 = (r, sh3, s3)" "fm_segment m3 = Some s3" "w3 = w2\<lparr>w_shared := sh3\<rparr>"
    using callback by (auto simp: run_callback_def rs(1) m1 split: prod.splits)
  have "keys_distinct (w_shared w2)" using h(1) cs by (simp add: keys_distinct_def rs(3))
  note cl = complete_store_locate [OF this dist cb(1)]
  have loc2: "locate (w_shared w2) s1 k = locate (w_shared w) s k" using locate_cong [of "w_shared w2" sh1 s1] rs(3) cs by simp
  have after: "tier_block mapper (m3, w3) k = (case locate sh3 s3 k of None \<Rightarrow> map_of (w_files w) (mapper k)
      | Some l \<Rightarrow> Some (content (seg_files (w_shared w2)) (segment_id l) (offset l) (loc_length l)))"
    by (simp add: tier_block_def cb rs(2) cl(2) cong: option.case_cong)
  have before: "tier_block mapper (m, w) k = (case locate (w_shared w) s k of None \<Rightarrow> map_of (w_files w) (mapper k)
      | Some l \<Rightarrow> Some (content (seg_files (w_shared w)) (segment_id l) (offset l) (loc_length l)))"
    by (simp add: tier_block_def seg(1))
  show ?thesis
  proof (cases "locate (w_shared w) s k")
    case (Some l)
    then have "loc_extent l \<in> set xs" "loadable (block_size s) (seg_files (w_shared w)) l"
      using h(3) h(8) [OF Some] unfolding indexed_extents_def by blast+
    from rs(5) [OF this] show ?thesis unfolding after before using Some by (simp add: cl(1) loc2 kept_def)
  next
    case None
    show ?thesis
    proof (cases "map_of (zip keys block_ids) k")
      case Nil: None
      then have "k \<notin> set keys" using pc by (metis map_of_zip_is_None)
      moreover have "\<forall>e \<in> set plan. sw_key e \<noteq> k" using planned [of k] Nil by (metis option.distinct(1))
      then have "map_of (map (\<lambda>e. (sw_key e, e)) plan) k = None" by (auto simp: map_of_eq_None_iff)
      ultimately show ?thesis unfolding after before by (simp add: cl(1) loc2 None)
    next
      case (Some b)
      with None planned [of k b] obtain e where e: "e \<in> set plan" "sw_key e = k" "sw_block_id e = b" by blast
      have k: "k \<in> set keys" using Some by (metis map_of_SomeD set_zip_leftD)
      have "map_of (map (\<lambda>e. (sw_key e, e)) plan) k = Some e" using dist e by (auto simp: map_of_eq_Some_iff comp_def)
      with k rs(4) [OF _ e(1)] Some show ?thesis
        unfolding after before by (simp add: cl(1) loc2 None s1 entry_location_def e(3))
    qed
  qed
qed

end
