(* ===== verification/Fs_Tier.thy ===== *)
theory Fs_Tier
  imports Fs_Manager_Props
begin

text \<open>
  Load jobs, look-ups and deletions of the file system tier over its map of blocks, and what
  its configuration guarantees.
\<close>

section \<open>Load tasks\<close>

text \<open>The primary blocks that a task fills, with what it fills them with.\<close>

definition load_targets :: "segment_shared \<Rightarrow> (string \<times> bytes) list \<Rightarrow> fs_task \<Rightarrow> (nat \<times> bytes) list" where
  "load_targets sh files t =
     (case t of
        LoadBlock path b \<Rightarrow> [(b, the (map_of files path))]
      | LoadMany chunk \<Rightarrow> map (\<lambda>(k, b, l). (b, content (seg_files sh) (segment_id l) (offset l) (loc_length l))) chunk
      | _ \<Rightarrow> [])"

text \<open>What a task needs to succeed.\<close>

definition load_ready :: "fs_manager \<Rightarrow> segment_shared \<Rightarrow> (string \<times> bytes) list \<Rightarrow> fs_task \<Rightarrow> bool" where
  "load_ready m sh files t =
     (case t of
        LoadBlock path b \<Rightarrow> (\<exists>x. map_of files path = Some x \<and> length x = fm_block_size m)
      | LoadMany chunk \<Rightarrow> (\<exists>s. fm_segment m = Some s \<and> block_size s = fm_block_size m) \<and>
          (\<forall>(k, b, l) \<in> set chunk. loadable (fm_block_size m) (seg_files sh) l)
      | _ \<Rightarrow> False)"

definition filled_blocks :: "nat \<Rightarrow> (nat \<times> bytes) list \<Rightarrow> bytes \<Rightarrow> bytes \<Rightarrow> bool" where
  "filled_blocks bs targets view view' \<longleftrightarrow> length view' = length view \<and>
     (\<forall>(b, x) \<in> set targets. view_of bs b view' = x) \<and>
     (\<forall>b. b \<notin> fst ` set targets \<longrightarrow> view_of bs b view' = view_of bs b view)"

lemma filled_append:
  assumes "filled_blocks bs t1 v0 v1" "filled_blocks bs t2 v1 v2" "distinct (map fst (t1 @ t2))"
  shows "filled_blocks bs (t1 @ t2) v0 v2"
proof -
  have "view_of bs b v2 = x" if "(b, x) \<in> set t1" for b x
  proof -
    have "b \<notin> fst ` set t2" using that assms(3) by force
    with assms(1,2) that show ?thesis by (force simp: filled_blocks_def)
  qed
  with assms(1,2) show ?thesis by (auto simp: filled_blocks_def image_Un)
qed

lemma load_many_given:
  assumes "length keys = length block_ids" "length ls = length block_ids"
  shows "load_many iov tx keys buf block_ids (Some (map Some ls)) iob io sh s =
    (case load_loop (batch_limit iov iob) (block_size s) (seg_files sh) (load_entries (block_size s) buf ls block_ids) 0 0 0 [] buf io of
       (Inr _, buf, _) \<Rightarrow> (Inr (), buf, sh, s)
     | (Inl e, buf, _) \<Rightarrow> (case delete tx keys sh s of (Inl e', sh, s) \<Rightarrow> (Inl e', buf, sh, s) | (Inr _, sh, s) \<Rightarrow> (Inl e, buf, sh, s)))"
proof -
  have "map (\<lambda>(l, b). (the l, destination (block_size s) b buf)) (zip (map Some ls) block_ids) =
      map (\<lambda>(l, b). (l, destination (block_size s) b buf)) (zip ls block_ids)"
    by (simp add: zip_map1 comp_def case_prod_beta)
  then have "sort_key (\<lambda>e. (segment_id (fst e), offset (fst e)))
        (map (\<lambda>(l, b). (the l, destination (block_size s) b buf)) (zip (map Some ls) block_ids)) =
      load_entries (block_size s) buf ls block_ids"
    by (simp only: load_entries_def)
  moreover have "None \<notin> set (map Some ls)" by auto
  ultimately show ?thesis
    using assms unfolding load_many_def by (simp add: Let_def cong: sum.case_cong prod.case_cong)
qed

lemma filled_blocksD:
  assumes "filled_blocks bs targets view view'"
  shows "length view' = length view" "(b, x) \<in> set targets \<Longrightarrow> view_of bs b view' = x"
    "b \<notin> fst ` set targets \<Longrightarrow> view_of bs b view' = view_of bs b view"
  using assms by (auto simp: filled_blocks_def)

lemma filled_one:
  assumes b: "b * bs + length x \<le> length view" and x: "length x = bs"
  shows "filled_blocks bs [(b, x)] view (splice (b * bs) x view)"
proof -
  have "view_of bs b' (splice (b * bs) x view) = view_of bs b' view" if "b' \<noteq> b" for b'
  proof -
    from that have "b' * bs + bs \<le> b * bs \<or> b * bs + bs \<le> b' * bs"
      by (metis add.commute mult_Suc mult_le_mono1 not_less_eq_eq nat_le_linear le_antisym Suc_leI le_neq_implies_less)
    then show ?thesis unfolding view_slice by (intro slice_splice_other [OF b]) (simp add: x)
  qed
  moreover have "view_of bs b (splice (b * bs) x view) = x" using slice_splice_same [OF b] by (simp add: view_slice x)
  ultimately show ?thesis using length_splice [OF b] by (simp add: filled_blocks_def)
qed

lemma run_load_chunk:
  assumes env: "te_io env = []" "0 < te_iov env" and m: "0 < fm_io_batch m" "0 < fm_block_size m"
    and ready: "load_ready m (w_shared w) (w_files w) (LoadMany chunk)"
    and ids: "distinct (map (fst \<circ> snd) chunk)" "\<forall>b \<in> set (map (fst \<circ> snd) chunk). block_in (fm_block_size m) (w_view w) b"
  obtains v where "run_task env (LoadMany chunk) (m, w) = (Inr (), m, w\<lparr>w_view := v\<rparr>)"
    "filled_blocks (fm_block_size m) (load_targets (w_shared w) (w_files w) (LoadMany chunk)) (w_view w) v"
proof -
  let ?bs = "fm_block_size m" and ?ids = "map (fst \<circ> snd) chunk" and ?ls = "map (snd \<circ> snd) chunk"
  obtain s where s: "fm_segment m = Some s" "block_size s = ?bs" using ready by (auto simp: load_ready_def)
  have ls: "\<forall>l \<in> set ?ls. loadable ?bs (seg_files (w_shared w)) l" using ready by (auto simp: load_ready_def)
  have lim: "0 < batch_limit (te_iov env) (Some (fm_io_batch m))" using env m by (simp add: batch_limit_def)
  obtain r v io where ll: "load_loop (batch_limit (te_iov env) (Some (fm_io_batch m))) ?bs (seg_files (w_shared w))
      (load_entries ?bs (w_view w) ?ls ?ids) 0 0 0 [] (w_view w) [] = (r, v, io)" by (metis prod_cases3)
  have "length ?ls = length ?ids" by simp
  note la = load_all [OF lim m(2) ids this ls ll]
  have "load_many (te_iov env) (te_tx env) (map fst chunk) (w_view w) ?ids (Some (map Some ?ls)) (Some (fm_io_batch m)) (te_io env) (w_shared w) s =
      (Inr (), v, w_shared w, s)"
    using load_many_given [of "map fst chunk" ?ids ?ls] la ll by (simp add: s env)
  moreover have "w\<lparr>w_shared := w_shared w, w_view := v\<rparr> = w\<lparr>w_view := v\<rparr>" "m\<lparr>fm_segment := Some s\<rparr> = m"
    using s by (cases w, simp, cases m, simp)
  ultimately have run: "run_task env (LoadMany chunk) (m, w) = (Inr (), m, w\<lparr>w_view := v\<rparr>)" using s by (simp add: comp_def)
  have "view_of ?bs b v = content (seg_files (w_shared w)) (segment_id l) (offset l) (loc_length l)" if kbl: "(k, b, l) \<in> set chunk" for k b l
  proof -
    obtain i where i: "i < length chunk" "chunk ! i = (k, b, l)" using kbl by (auto simp: in_set_conv_nth)
    with la ls kbl show ?thesis by (force simp: loadable_def)
  qed
  with la have "filled_blocks ?bs (load_targets (w_shared w) (w_files w) (LoadMany chunk)) (w_view w) v"
    by (auto simp: filled_blocks_def load_targets_def image_image case_prod_beta)
  with run show thesis by (rule that)
qed

lemma run_load_task:
  assumes env: "te_io env = []" "te_sys env = []" "0 < te_iov env" and m: "0 < fm_io_batch m" "0 < fm_block_size m"
    and ready: "load_ready m (w_shared w) (w_files w) t"
    and ids: "distinct (map fst (load_targets (w_shared w) (w_files w) t))"
      "\<forall>b \<in> fst ` set (load_targets (w_shared w) (w_files w) t). block_in (fm_block_size m) (w_view w) b"
  shows "\<exists>v. run_task env t (m, w) = (Inr (), m, w\<lparr>w_view := v\<rparr>) \<and>
    filled_blocks (fm_block_size m) (load_targets (w_shared w) (w_files w) t) (w_view w) v"
proof (cases t)
  case (LoadBlock path b)
  let ?bs = "fm_block_size m"
  obtain x where x: "map_of (w_files w) path = Some x" "length x = ?bs" using ready by (auto simp: LoadBlock load_ready_def)
  have b: "b * ?bs + length x \<le> length (w_view w)" using ids(2) x(2) by (simp add: LoadBlock load_targets_def block_in_def)
  have "run_task env t (m, w) = (Inr (), m, w\<lparr>w_files := w_files w, w_view := splice (b * ?bs) x (w_view w)\<rparr>)"
    using load_block_all [OF x, of "b * ?bs" "w_view w"] b x(2) by (simp add: LoadBlock env)
  moreover have "w\<lparr>w_files := w_files w, w_view := v\<rparr> = w\<lparr>w_view := v\<rparr>" for v by (cases w) simp
  moreover have "load_targets (w_shared w) (w_files w) t = [(b, x)]" using x(1) by (simp add: LoadBlock load_targets_def)
  ultimately show ?thesis using filled_one [OF b x(2)] by metis
next
  case (LoadMany chunk)
  have d: "distinct (map (fst \<circ> snd) chunk)" "\<forall>b \<in> set (map (fst \<circ> snd) chunk). block_in (fm_block_size m) (w_view w) b"
    using ids by (simp_all add: LoadMany load_targets_def comp_def case_prod_beta image_image)
  show ?thesis unfolding LoadMany by (rule run_load_chunk [OF env(1,3) m ready [unfolded LoadMany] d]) blast
qed (use ready in \<open>simp_all add: load_ready_def\<close>)

lemma run_load_tasks:
  assumes envs: "\<forall>(env, t) \<in> set ts. te_io env = [] \<and> te_sys env = [] \<and> 0 < te_iov env"
    and m: "0 < fm_io_batch m" "0 < fm_block_size m"
    and ready: "\<forall>(env, t) \<in> set ts. load_ready m (w_shared w) (w_files w) t"
    and ids: "distinct (map fst (concat (map (load_targets (w_shared w) (w_files w) \<circ> snd) ts)))"
      "\<forall>b \<in> fst ` set (concat (map (load_targets (w_shared w) (w_files w) \<circ> snd) ts)). block_in (fm_block_size m) (w_view w) b"
  shows "\<exists>v. run_tasks ts (m, w) = (True, m, w\<lparr>w_view := v\<rparr>) \<and>
    filled_blocks (fm_block_size m) (concat (map (load_targets (w_shared w) (w_files w) \<circ> snd) ts)) (w_view w) v"
  using envs ready ids
proof (induction ts arbitrary: w)
  case Nil
  then show ?case by (auto simp: filled_blocks_def intro!: exI [of _ "w_view w"])
next
  case (Cons et ts)
  obtain env t where et: "et = (env, t)" by (cases et)
  let ?ts = "concat (map (load_targets (w_shared w) (w_files w) \<circ> snd) ts)"
  have "distinct (map fst (load_targets (w_shared w) (w_files w) t))"
    "\<forall>b \<in> fst ` set (load_targets (w_shared w) (w_files w) t). block_in (fm_block_size m) (w_view w) b"
    using Cons.prems(3,4) by (simp_all add: et)
  from run_load_task [OF _ _ _ m _ this, of env] Cons.prems(1,2) obtain v1 where
    1: "run_task env t (m, w) = (Inr (), m, w\<lparr>w_view := v1\<rparr>)"
    "filled_blocks (fm_block_size m) (load_targets (w_shared w) (w_files w) t) (w_view w) v1"
    by (auto simp: et)
  let ?w1 = "w\<lparr>w_view := v1\<rparr>"
  have len: "block_in bs v1 b = block_in bs (w_view w) b" for bs b using 1(2) by (simp add: filled_blocks_def block_in_def)
  have "\<exists>v. run_tasks ts (m, ?w1) = (True, m, ?w1\<lparr>w_view := v\<rparr>) \<and> filled_blocks (fm_block_size m) ?ts v1 v"
    using Cons.IH [of ?w1] Cons.prems by (simp add: et len comp_def)
  then obtain v where 2: "run_tasks ts (m, ?w1) = (True, m, w\<lparr>w_view := v\<rparr>)" "filled_blocks (fm_block_size m) ?ts v1 v" by auto
  from filled_append [OF 1(2) 2(2)] Cons.prems(3)
  have "filled_blocks (fm_block_size m) (load_targets (w_shared w) (w_files w) t @ ?ts) (w_view w) v" by (simp add: et comp_def)
  moreover have "run_tasks (et # ts) (m, w) = (True, m, w\<lparr>w_view := v\<rparr>)" using 1(1) 2(1) by (simp add: et)
  moreover have "concat (map (load_targets (w_shared w) (w_files w) \<circ> snd) (et # ts)) = load_targets (w_shared w) (w_files w) t @ ?ts"
    by (simp add: et)
  ultimately show ?case by metis
qed

section \<open>Load jobs\<close>

definition located_entries :: "(offload_key \<times> nat \<times> segment_location option) list \<Rightarrow> (offload_key \<times> nat \<times> segment_location) list" where
  "located_entries es = concat (map (\<lambda>(k, b, l). case l of None \<Rightarrow> [] | Some l \<Rightarrow> [(k, b, l)]) es)"

lemma segment_chunks_eq: "segment_chunks es = map snd (group_fold (\<lambda>(k, b, l). segment_id l) (located_entries es) [])"
proof -
  have "fold (\<lambda>(k, b, l) d. case l of None \<Rightarrow> d
        | Some l \<Rightarrow> AList.update (segment_id l) (dict_get d (segment_id l) [] @ [(k, b, l)]) d) es d =
      group_fold (\<lambda>(k, b, l). segment_id l) (located_entries es) d" for d
    by (induction es arbitrary: d) (auto simp: located_entries_def split: option.splits)
  then show ?thesis by (simp add: segment_chunks_def)
qed

lemma mset_segment_chunks: "mset (concat (segment_chunks es)) = mset (located_entries es)"
  using mset_group_fold [of "[]" "\<lambda>(k, b, l). segment_id l" "located_entries es"] by (simp add: segment_chunks_eq)

text \<open>The tasks of a load fill each block once, with what the tier has for its key.\<close>

lemma load_tasks_targets:
  "mset (concat (map (load_targets sh files) (load_tasks mapper es))) =
   mset (map (\<lambda>(k, b, l). (b, case l of None \<Rightarrow> the (map_of files (mapper k))
                               | Some l \<Rightarrow> content (seg_files sh) (segment_id l) (offset l) (loc_length l))) es)"
proof -
  let ?g = "\<lambda>(k, b, l). (b, content (seg_files sh) (segment_id l) (offset l) (loc_length l))"
  have "concat (map (load_targets sh files) (map LoadMany cs)) = map ?g (concat cs)" for cs
    by (induction cs) (simp_all add: load_targets_def)
  then have "mset (concat (map (load_targets sh files) (map LoadMany (segment_chunks es)))) = image_mset ?g (mset (located_entries es))"
    by (simp only: mset_map mset_segment_chunks)
  moreover have "concat (map (load_targets sh files) (map (\<lambda>(k, b, _). LoadBlock (mapper k) b) fs)) =
      map (\<lambda>(k, b, _). (b, the (map_of files (mapper k)))) fs" for fs :: "(offload_key \<times> nat \<times> segment_location option) list"
    by (induction fs) (auto simp: load_targets_def)
  moreover have "image_mset (\<lambda>(k, b, _). (b, the (map_of files (mapper k)))) (mset (filter (\<lambda>(_, _, l). l = None) es)) +
      image_mset ?g (mset (located_entries es)) =
      mset (map (\<lambda>(k, b, l). (b, case l of None \<Rightarrow> the (map_of files (mapper k))
                               | Some l \<Rightarrow> content (seg_files sh) (segment_id l) (offset l) (loc_length l))) es)"
    by (induction es) (auto simp: located_entries_def split: option.splits)
  ultimately show ?thesis by (simp add: load_tasks_def)
qed

lemma load_tasks_ready:
  assumes "fm_segment m = Some s" "block_size s = fm_block_size m"
    and "\<forall>(k, b, l) \<in> set es. case l of None \<Rightarrow> \<exists>x. map_of files (mapper k) = Some x \<and> length x = fm_block_size m
        | Some l \<Rightarrow> loadable (fm_block_size m) (seg_files sh) l"
  shows "\<forall>t \<in> set (load_tasks mapper es). load_ready m sh files t"
proof -
  have "loadable (fm_block_size m) (seg_files sh) l" if "c \<in> set (segment_chunks es)" "(k, b, l) \<in> set c" for c k b l
  proof -
    from that have "(k, b, l) \<in> set (located_entries es)" using mset_eq_setD [OF mset_segment_chunks [of es]] by auto
    then have "(k, b, Some l) \<in> set es" by (auto simp: located_entries_def split: option.splits)
    with assms(3) show ?thesis by fastforce
  qed
  with assms show ?thesis by (fastforce simp: load_tasks_def load_ready_def)
qed

text \<open>The tier has a complete block for a key.\<close>

definition tier_ready :: "(offload_key \<Rightarrow> string) \<Rightarrow> fs_manager \<times> fs_world \<Rightarrow> offload_key \<Rightarrow> bool" where
  "tier_ready mapper = (\<lambda>(m, w) k.
     (case (case fm_segment m of None \<Rightarrow> None | Some s \<Rightarrow> locate (w_shared w) s k) of
        Some l \<Rightarrow> loadable (fm_block_size m) (seg_files (w_shared w)) l
      | None \<Rightarrow> \<exists>x. map_of (w_files w) (mapper k) = Some x \<and> length x = fm_block_size m))"

lemma tagged_inj: "map (\<lambda>t. (t, n)) xs = map (\<lambda>t. (t, n)) ys \<Longrightarrow> xs = ys"
  by (drule arg_cong [of _ _ "map fst"]) (simp add: comp_def)

text \<open>Submitting a load: its tasks fill the blocks with what the tier has, and can succeed.\<close>

lemma submit_load_files:
  assumes seg: "fm_segment m = None" and ready: "\<forall>k \<in> set keys. tier_ready mapper (m, w) k" and len: "length keys = length ids"
    and submit: "fs_submit_load mapper job_id keys ids (m, w) = (m1, w1)"
  defines "tasks \<equiv> map (\<lambda>(k, b). LoadBlock (mapper k) b) (zip keys ids)"
  shows "w1 = w \<and> m1 = m\<lparr>fm_pool := enqueue_load job_id (length tasks) tasks (fm_pool m)\<rparr> \<and>
    concat (map (load_targets (w_shared w) (w_files w)) tasks) =
      map (\<lambda>(k, b). (b, the (tier_block mapper (m, w) k))) (zip keys ids) \<and>
    (\<forall>t \<in> set tasks. load_ready m1 (w_shared w) (w_files w) t)"
proof -
  from submit seg len have m1: "w1 = w" "m1 = m\<lparr>fm_pool := enqueue_load job_id (length tasks) tasks (fm_pool m)\<rparr>"
    by (simp_all add: fs_submit_load_def tasks_def)
  have "concat (map (load_targets sh files) (map (\<lambda>(k, b). LoadBlock (mapper k) b) zs)) =
      map (\<lambda>(k, b). (b, the (map_of files (mapper k)))) zs" for sh files and zs :: "(offload_key \<times> nat) list"
    by (induction zs) (auto simp: load_targets_def)
  moreover have "load_ready m1 (w_shared w) (w_files w) x" if "x \<in> set tasks" for x
  proof -
    from that obtain k b where "(k, b) \<in> set (zip keys ids)" "x = LoadBlock (mapper k) b" by (auto simp: tasks_def)
    with ready seg show ?thesis by (auto simp: load_ready_def tier_ready_def m1(2) dest: set_zip_leftD)
  qed
  ultimately show ?thesis using m1 by (simp add: tasks_def tier_block_def seg)
qed

lemma submit_load_segments:
  assumes seg: "fm_segment m = Some s" "keys_distinct (w_shared w)" "block_size s = fm_block_size m"
    and ready: "\<forall>k \<in> set keys. tier_ready mapper (m, w) k" and len: "length keys = length ids"
    and submit: "fs_submit_load mapper job_id keys ids (m, w) = (m1, w1)"
  defines "tasks \<equiv> load_tasks mapper (zip keys (zip ids (map (locate (w_shared w) s) keys)))"
  shows "w1 = w \<and> (\<exists>s1. m1 = m\<lparr>fm_segment := Some s1, fm_pool := enqueue_load job_id (length tasks) tasks (fm_pool m)\<rparr>) \<and>
    mset (concat (map (load_targets (w_shared w) (w_files w)) tasks)) =
      mset (map (\<lambda>(k, b). (b, the (tier_block mapper (m, w) k))) (zip keys ids)) \<and>
    (\<forall>t \<in> set tasks. load_ready m1 (w_shared w) (w_files w) t)"
proof -
  let ?es = "zip keys (zip ids (map (locate (w_shared w) s) keys))"
  define s1 where "s1 = snd (get_locations keys (w_shared w) s)"
  then have g: "get_locations keys (w_shared w) s = (map (locate (w_shared w) s) keys, s1)"
    using get_locations_spec(1) [OF seg(2), of keys s] by (metis prod.collapse)
  have s1: "block_size s1 = fm_block_size m" using lookup_store(4) [OF seg(2) s1_def] seg(3) by simp
  from submit seg(1) g have m1: "w1 = w" "m1 = m\<lparr>fm_segment := Some s1, fm_pool := enqueue_load job_id (length tasks) tasks (fm_pool m)\<rparr>"
    by (auto simp: fs_submit_load_def Let_def tasks_def)
  have "map (\<lambda>(k, b, l). (b, case l of None \<Rightarrow> the (map_of (w_files w) (mapper k))
        | Some l \<Rightarrow> content (seg_files (w_shared w)) (segment_id l) (offset l) (loc_length l))) ?es =
      map (\<lambda>(k, b). (b, the (tier_block mapper (m, w) k))) (zip keys ids)"
    using len by (intro nth_equalityI) (simp_all add: tier_block_def seg(1) split: option.splits)
  then have "mset (concat (map (load_targets (w_shared w) (w_files w)) tasks)) =
      mset (map (\<lambda>(k, b). (b, the (tier_block mapper (m, w) k))) (zip keys ids))"
    unfolding tasks_def load_tasks_targets by (rule arg_cong)
  moreover have "\<forall>t \<in> set tasks. load_ready m1 (w_shared w) (w_files w) t"
    unfolding tasks_def
  proof (rule load_tasks_ready [where s = s1], goal_cases)
    case 3
    show ?case
    proof clarify
      fix k b l assume "(k, b, l) \<in> set ?es"
      then have "k \<in> set keys" "l = locate (w_shared w) s k" using len by (auto simp: in_set_zip)
      with ready show "case l of None \<Rightarrow> \<exists>x. map_of (w_files w) (mapper k) = Some x \<and> length x = fm_block_size m1
        | Some l \<Rightarrow> loadable (fm_block_size m1) (seg_files (w_shared w)) l"
        by (auto simp: tier_ready_def seg(1) m1(2) split: option.splits)
    qed
  qed (simp_all add: m1(2) s1)
  ultimately show ?thesis using m1 by blast
qed

lemma submit_load_tasks:
  assumes seg: "\<forall>s. fm_segment m = Some s \<longrightarrow> keys_distinct (w_shared w) \<and> block_size s = fm_block_size m"
    and ready: "\<forall>k \<in> set keys. tier_ready mapper (m, w) k" and len: "length keys = length ids"
    and submit: "fs_submit_load mapper job_id keys ids (m, w) = (m1, w1)"
    and tasks: "load_q (fm_pool m1) = load_q (fm_pool m) @ map (\<lambda>t. (t, length (jobs (fm_pool m)))) tasks"
  shows "w1 = w \<and> fm_block_size m1 = fm_block_size m \<and> fm_io_batch m1 = fm_io_batch m \<and>
    mset (concat (map (load_targets (w_shared w) (w_files w)) tasks)) =
      mset (map (\<lambda>(k, b). (b, the (tier_block mapper (m, w) k))) (zip keys ids)) \<and>
    (\<forall>t \<in> set tasks. load_ready m1 (w_shared w) (w_files w) t) \<and>
    n_tasks (jobs (fm_pool m1) ! length (jobs (fm_pool m))) = length tasks"
proof -
  have *: "?thesis" if "w1 = w" "fm_block_size m1 = fm_block_size m" "fm_io_batch m1 = fm_io_batch m"
    "fm_pool m1 = enqueue_load job_id (length ts) ts (fm_pool m)"
    "mset (concat (map (load_targets (w_shared w) (w_files w)) ts)) =
       mset (map (\<lambda>(k, b). (b, the (tier_block mapper (m, w) k))) (zip keys ids))"
    "\<forall>t \<in> set ts. load_ready m1 (w_shared w) (w_files w) t" for ts
  proof -
    have "map (\<lambda>t. (t, length (jobs (fm_pool m)))) tasks = map (\<lambda>t. (t, length (jobs (fm_pool m)))) ts"
      using tasks by (simp add: that(4) enqueue_load_def del: map_map)
    then have "tasks = ts" by (rule tagged_inj)
    with that show ?thesis by (simp add: enqueue_load_def new_job_state_def)
  qed
  show ?thesis
  proof (cases "fm_segment m")
    case None
    note f = submit_load_files [OF None ready len submit]
    show ?thesis by (rule * [of "map (\<lambda>(k, b). LoadBlock (mapper k) b) (zip keys ids)"]) (use f in \<open>auto simp del: map_map\<close>)
  next
    case (Some s)
    with seg have kd: "keys_distinct (w_shared w)" "block_size s = fm_block_size m" by simp_all
    from submit_load_segments [OF Some kd ready len submit] show ?thesis
      by (intro * [of "load_tasks mapper (zip keys (zip ids (map (locate (w_shared w) s) keys)))"]) auto
  qed
qed

text \<open>C8: A load job reads the tier. When the tier has a complete block for every key - in a
  segment or in a block file - and the reads do not fail, then whatever order the pool
  runs the job's tasks in, all of them succeed, each key's block is copied to the primary
  block that was given for it, no other primary block changes, and neither does the tier.
  The job has been announced with as many tasks as it has.\<close>

theorem fs_load_job:
  assumes m: "0 < fm_io_batch m" "0 < fm_block_size m"
    and seg: "\<forall>s. fm_segment m = Some s \<longrightarrow> keys_distinct (w_shared w) \<and> block_size s = fm_block_size m"
    and ready: "\<forall>k \<in> set keys. tier_ready mapper (m, w) k"
    and dst: "length keys = length ids" "distinct ids" "\<forall>b \<in> set ids. block_in (fm_block_size m) (w_view w) b"
    and submit: "fs_submit_load mapper job_id keys ids (m, w) = (m1, w1)"
    and tasks: "load_q (fm_pool m1) = load_q (fm_pool m) @ map (\<lambda>t. (t, length (jobs (fm_pool m)))) tasks"
    and order: "mset (map snd ts) = mset tasks" "\<forall>(env, t) \<in> set ts. te_io env = [] \<and> te_sys env = [] \<and> 0 < te_iov env"
    and run: "run_tasks ts (m1, w1) = (success, m2, w2)"
  shows "success \<and> w_shared w2 = w_shared w \<and> w_files w2 = w_files w \<and>
    (\<forall>i < length keys. view_of (fm_block_size m) (ids ! i) (w_view w2) = the (tier_block mapper (m, w) (keys ! i))) \<and>
    (\<forall>b. b \<notin> set ids \<longrightarrow> view_of (fm_block_size m) b (w_view w2) = view_of (fm_block_size m) b (w_view w)) \<and>
    n_tasks (jobs (fm_pool m1) ! length (jobs (fm_pool m))) = length tasks"
proof -
  note st = submit_load_tasks [OF seg ready dst(1) submit tasks]
  then have w1: "w1 = w" and bs: "fm_block_size m1 = fm_block_size m" by simp_all
  let ?T = "load_targets (w_shared w) (w_files w)"
  let ?zs = "map (\<lambda>(k, b). (b, the (tier_block mapper (m, w) k))) (zip keys ids)"
  have tg: "mset (concat (map (?T \<circ> snd) ts)) = mset ?zs"
  proof -
    have "mset (concat (map ?T (map snd ts))) = mset (concat (map ?T tasks))"
      unfolding mset_concat_map by (simp only: order(1))
    with st show ?thesis by simp
  qed
  have fst_zs: "map fst ?zs = ids" using dst(1) by (simp add: comp_def case_prod_beta map_snd_zip)
  have perm: "mset (map fst (concat (map (?T \<circ> snd) ts))) = mset ids"
    using arg_cong [OF tg, of "image_mset fst"] by (simp only: mset_map [symmetric] fst_zs)
  have d: "distinct (map fst (concat (map (?T \<circ> snd) ts)))" "set (map fst (concat (map (?T \<circ> snd) ts))) = set ids"
    unfolding mset_eq_imp_distinct_iff [OF perm] mset_eq_setD [OF perm] using dst(2) by simp_all
  have ready1: "\<forall>(env, t) \<in> set ts. load_ready m1 (w_shared w) (w_files w) t"
  proof clarify
    fix env t assume "(env, t) \<in> set ts"
    then have "t \<in> set (map snd ts)" by (force simp: image_iff)
    then have "t \<in> set tasks" unfolding mset_eq_setD [OF order(1)] .
    with st show "load_ready m1 (w_shared w) (w_files w) t" by blast
  qed
  have m1: "0 < fm_io_batch m1" "0 < fm_block_size m1" using st m by simp_all
  have inb: "\<forall>b \<in> fst ` set (concat (map (?T \<circ> snd) ts)). block_in (fm_block_size m1) (w_view w) b"
    using dst(3) d(2) unfolding bs set_map by blast
  obtain v where v: "run_tasks ts (m1, w) = (True, m1, w\<lparr>w_view := v\<rparr>)"
    "filled_blocks (fm_block_size m1) (concat (map (?T \<circ> snd) ts)) (w_view w) v"
    using run_load_tasks [OF order(2) m1 ready1 d(1) inb] by blast
  from v(1) run have w2: "success" "w2 = w\<lparr>w_view := v\<rparr>" by (simp_all add: w1)
  note fb = filled_blocksD [OF v(2) [unfolded bs]]
  have filled: "view_of (fm_block_size m) (ids ! i) v = the (tier_block mapper (m, w) (keys ! i))" if i: "i < length keys" for i
  proof -
    have "(ids ! i, the (tier_block mapper (m, w) (keys ! i))) \<in> set ?zs"
      using i dst(1) by (force simp: in_set_zip)
    then have "(ids ! i, the (tier_block mapper (m, w) (keys ! i))) \<in> set (concat (map (?T \<circ> snd) ts))"
      unfolding mset_eq_setD [OF tg] .
    then show ?thesis by (rule fb(2))
  qed
  have others: "view_of (fm_block_size m) b v = view_of (fm_block_size m) b (w_view w)" if "b \<notin> set ids" for b
    by (rule fb(3)) (use that d(2) in simp)
  have "w_shared w2 = w_shared w" "w_files w2 = w_files w" "w_view w2 = v" by (simp_all add: w2)
  moreover have "n_tasks (jobs (fm_pool m1) ! length (jobs (fm_pool m))) = length tasks" using st by blast
  ultimately show ?thesis using w2(1) filled others by metis
qed

section \<open>Look-ups\<close>

lemma length_fold_updates: "length (fold (\<lambda>(i, h) hs. hs[i := h]) ihs hs) = length hs"
  by (induction ihs arbitrary: hs) auto

lemma fold_updates:
  "j < length hs \<Longrightarrow> fold (\<lambda>(i, h) hs. hs[i := h]) (zip is (map g is)) hs ! j = (if j \<in> set is then g j else hs ! j)"
  by (induction "is" arbitrary: hs) auto

lemma set_missing_indices: "j < length hits \<Longrightarrow> j \<in> set (missing_indices hits) \<longleftrightarrow> \<not> hits ! j"
  by (simp add: missing_indices_def)

text \<open>C26: A look-up asks whether the tier has a block. \<open>batch_lookup\<close> answers for each key, in
  order, exactly whether it is in a segment or in a block file - with the C extension (whose
  answers are those of \<open>os.path.exists\<close>) and without it - and changes no block of the tier.\<close>

theorem fs_batch_lookup_correct:
  assumes seg: "\<forall>s. fm_segment m = Some s \<longrightarrow> keys_distinct (w_shared w)"
    and ext: "\<forall>f paths. c_lookup = Some f \<longrightarrow> f paths = map (\<lambda>p. map_of (w_files w) p \<noteq> None) paths"
    and r: "fs_batch_lookup c_lookup mapper keys m w = (hits, m')"
  shows "hits = map (\<lambda>k. tier_block mapper (m, w) k \<noteq> None) keys \<and>
    (\<forall>k. tier_block mapper (m', w) k = tier_block mapper (m, w) k)"
proof -
  have bf: "batch_file_lookup c_lookup (w_files w) paths = map (\<lambda>p. map_of (w_files w) p \<noteq> None) paths" for paths
    using ext by (simp add: batch_file_lookup_def split: option.splits)
  show ?thesis
  proof (cases "fm_segment m")
    case None
    with r have "hits = map (\<lambda>k. map_of (w_files w) (mapper k) \<noteq> None) keys" "m' = m"
      by (auto simp: fs_batch_lookup_def bf)
    with None show ?thesis by (simp add: tier_block_def)
  next
    case (Some s)
    with seg have kd: "keys_distinct (w_shared w)" by simp
    let ?h = "map (\<lambda>k. locate (w_shared w) s k \<noteq> None) keys" and ?s = "snd (get_locations keys (w_shared w) s)"
    let ?exists = "\<lambda>i. map_of (w_files w) (mapper (keys ! i)) \<noteq> None"
    have legacy: "batch_file_lookup c_lookup (w_files w) (map (\<lambda>i. mapper (keys ! i)) is) = map ?exists is" for "is"
      by (simp add: bf comp_def)
    have m': "m' = m\<lparr>fm_segment := Some ?s\<rparr>" and
      hits: "hits = (if missing_indices ?h = [] then ?h
        else fold (\<lambda>(i, hit) hs. hs[i := hit]) (zip (missing_indices ?h) (map ?exists (missing_indices ?h))) ?h)"
      using r by (auto simp: fs_batch_lookup_def Some contains_many_spec [OF kd] legacy Let_def split: if_splits)
    have "tier_block mapper (m', w) k = tier_block mapper (m, w) k" for k
      by (simp add: tier_block_def m' Some locate_after_lookup [OF kd])
    moreover have "hits = map (\<lambda>k. tier_block mapper (m, w) k \<noteq> None) keys"
    proof (rule nth_equalityI)
      show l: "length hits = length (map (\<lambda>k. tier_block mapper (m, w) k \<noteq> None) keys)" by (simp add: hits length_fold_updates)
      fix j assume "j < length hits"
      then have j: "j < length keys" by (simp add: l)
      have "hits ! j = (if j \<in> set (missing_indices ?h) then ?exists j else ?h ! j)"
        using fold_updates [of j ?h "missing_indices ?h" ?exists] j by (simp add: hits)
      with j show "hits ! j = map (\<lambda>k. tier_block mapper (m, w) k \<noteq> None) keys ! j"
        by (simp add: set_missing_indices tier_block_def Some split: option.splits)
    qed
    ultimately show ?thesis by blast
  qed
qed

section \<open>Deletions\<close>

lemma unlink_steps:
  assumes "inj mapper" and r: "fold (unlink_step denied mapper) keys (files, D, R) = (files', D', R')"
  shows "(\<forall>k. map_of files' (mapper k) = (if k \<in> set keys \<and> \<not> denied (mapper k) then None else map_of files (mapper k))) \<and>
    D' = D \<union> {k \<in> set keys. \<not> denied (mapper k) \<and> map_of files (mapper k) \<noteq> None} \<and>
    R' = R \<union> {k \<in> set keys. \<not> denied (mapper k)}"
  using r
proof (induction keys arbitrary: files D R)
  case (Cons a keys)
  obtain f1 D1 R1 where 1: "unlink_step denied mapper a (files, D, R) = (f1, D1, R1)" by (metis prod_cases3)
  with Cons.prems have "fold (unlink_step denied mapper) keys (f1, D1, R1) = (files', D', R')" by simp
  note IH = Cons.IH [OF this]
  have a: "map_of f1 (mapper k) = (if k = a \<and> \<not> denied (mapper a) then None else map_of files (mapper k))" for k
    using 1 assms(1) by (auto simp: unlink_step_def dict_simps inj_eq split: if_splits)
  have s: "D1 = D \<union> {k. k = a \<and> \<not> denied (mapper k) \<and> map_of files (mapper k) \<noteq> None}" "R1 = R \<union> {k. k = a \<and> \<not> denied (mapper k)}"
    using 1 by (auto simp: unlink_step_def split: if_splits)
  from IH show ?case by (auto simp: a s)
qed auto

text \<open>What a committed deletion leaves in the index.\<close>

lemma delete_locates:
  assumes cur: "cache_current sh s" and d: "delete True keys sh s = (r, sh1, s1)"
  shows "r = Inr (set keys \<inter> dom (map_of (db_blocks sh)))" "seg_files sh1 = seg_files sh"
    "locate sh1 s1 k = (if k \<in> set keys then None else locate sh s k)"
proof -
  note dc = delete_correct [OF d]
  from dc show "r = Inr (set keys \<inter> dom (map_of (db_blocks sh)))" "seg_files sh1 = seg_files sh" by blast+
  from dc have "locate sh1 s1 k = (if k \<in> set keys \<and> map_of (db_blocks sh) k \<noteq> None then None else locate sh s k)" by blast
  then show "locate sh1 s1 k = (if k \<in> set keys then None else locate sh s k)"
    using locate_current [OF cur, of k] by auto
qed

lemma fs_delete_outcome:
  assumes seg: "\<forall>s. fm_segment m = Some s \<longrightarrow> keys_distinct (w_shared w) \<and> cache_current (w_shared w) s"
    and names: "inj mapper" and r: "fs_delete tx denied mapper keys (m, w) = (r, m', w')"
  shows "case r of
      Inl _ \<Rightarrow> \<forall>k. tier_block mapper (m', w') k = tier_block mapper (m, w) k
    | Inr (removed, n) \<Rightarrow>
        removed = {k \<in> set keys. \<not> denied (mapper k)} \<and>
        (\<forall>k. tier_block mapper (m', w') k =
           (if k \<in> removed then None
            else if k \<in> set keys then map_of (w_files w) (mapper k) else tier_block mapper (m, w) k)) \<and>
        n = card {k \<in> set keys. (fm_segment m \<noteq> None \<and> map_of (db_blocks (w_shared w)) k \<noteq> None) \<or>
                        (\<not> denied (mapper k) \<and> map_of (w_files w) (mapper k) \<noteq> None)}"
proof (cases "fm_segment m")
  case None
  obtain files' D' R' where f: "fold (unlink_step denied mapper) keys (w_files w, {}, {}) = (files', D', R')" by (metis prod_cases3)
  with r None have "r = Inr (R', card D')" "m' = m" "w' = w\<lparr>w_files := files'\<rparr>" by (simp_all add: fs_delete_def)
  with unlink_steps [OF names f] None show ?thesis by (auto simp: tier_block_def)
next
  case (Some s)
  with seg have kd: "keys_distinct (w_shared w)" and cur: "cache_current (w_shared w) s" by simp_all
  show ?thesis
  proof (cases "isl (fst (delete tx keys (w_shared w) s))")
    case True
    then have "delete tx keys (w_shared w) s = (Inl (OSError ''transaction failed''), w_shared w, s)"
      by (auto simp: delete_def Let_def split: if_splits)
    with r Some show ?thesis by (auto simp: fs_delete_def tier_block_def)
  next
    case False
    obtain r1 sh1 s1 where d: "delete True keys (w_shared w) s = (r1, sh1, s1)" by (metis prod_cases3)
    have tx: "delete tx keys (w_shared w) s = (r1, sh1, s1)"
      using False d by (cases tx) (auto simp: delete_def Let_def split: if_splits)
    note l = delete_locates [OF cur d]
    let ?D = "set keys \<inter> dom (map_of (db_blocks (w_shared w)))"
    obtain files' D' R' where f: "fold (unlink_step denied mapper) keys (w_files w, ?D, {}) = (files', D', R')" by (metis prod_cases3)
    with r Some tx l(1) have e: "r = Inr (R', card D')" "m' = m\<lparr>fm_segment := Some s1\<rparr>" "w' = w\<lparr>w_shared := sh1, w_files := files'\<rparr>"
      by (simp_all add: fs_delete_def)
    note u = unlink_steps [OF names f]
    have "D' = {k \<in> set keys. (fm_segment m \<noteq> None \<and> map_of (db_blocks (w_shared w)) k \<noteq> None) \<or>
                        (\<not> denied (mapper k) \<and> map_of (w_files w) (mapper k) \<noteq> None)}"
      using u Some by auto
    moreover have "tier_block mapper (m', w') k =
           (if k \<in> R' then None
            else if k \<in> set keys then map_of (w_files w) (mapper k) else tier_block mapper (m, w) k)" for k
      using u by (simp add: tier_block_def e Some l(2,3) cong: option.case_cong)
    ultimately show ?thesis using u by (simp add: e(1))
  qed
qed

text \<open>C25: A deletion restricts the tier. Either the index transaction fails, \<open>delete\<close> raises and no
  block changes; or it reports as removed exactly the given keys whose file could be
  unlinked or was not there. Of these the tier has no block any more; of the other given
  keys only an undeletable block file is left; all other keys keep their blocks; and
  the count is the number of given keys of which a copy was deleted.\<close>

theorem fs_delete_correct:
  assumes seg: "\<forall>s. fm_segment m = Some s \<longrightarrow> keys_distinct (w_shared w) \<and> cache_current (w_shared w) s"
    and names: "inj mapper" and r: "fs_delete tx denied mapper keys (m, w) = (r, m', w')"
  shows "case r of
      Inl _ \<Rightarrow> \<forall>k. tier_block mapper (m', w') k = tier_block mapper (m, w) k
    | Inr (removed, n) \<Rightarrow>
        removed = {k \<in> set keys. \<not> denied (mapper k)} \<and>
        (\<forall>k. tier_block mapper (m', w') k =
           (if k \<in> removed then None
            else if k \<in> set keys then map_of (w_files w) (mapper k) else tier_block mapper (m, w) k)) \<and>
        n = card {k \<in> set keys. (fm_segment m \<noteq> None \<and> map_of (db_blocks (w_shared w)) k \<noteq> None) \<or>
                        (\<not> denied (mapper k) \<and> map_of (w_files w) (mapper k) \<noteq> None)}"
  using fs_delete_outcome [OF assms] .

section \<open>Configuration\<close>

lemma make_segment_store_rejects:
  "isl (make_segment_store bs sz shards) \<longleftrightarrow> \<not> (0 < bs \<and> bs \<le> sz \<and> 0 < shards)"
  by (simp add: make_segment_store_def)

text \<open>A new segment store has segments of a whole number of blocks, and at least one.\<close>

lemma make_segment_store_built:
  assumes "make_segment_store (int bs) sz shards = Inr s"
  shows "block_size s = bs \<and> 0 < bs \<and> int bs \<le> sz \<and> bs \<le> segment_size_bytes s \<and> bs dvd segment_size_bytes s \<and>
    1 \<le> segment_shards s \<and> int (segment_shards s) = shards \<and> location_cache s = [] \<and> \<not> closed s"
proof -
  have ok: "0 < int bs" "int bs \<le> sz" "0 < shards"
    using make_segment_store_rejects [of "int bs" sz shards] assms by simp_all
  with assms have s: "s = \<lparr>block_size = bs, segment_size_bytes = nat ((sz div int bs) * int bs), segment_shards = nat shards,
      location_cache = [], closed = False\<rparr>"
    by (simp add: make_segment_store_def)
  have "0 < sz div int bs" using ok by (simp add: pos_imp_zdiv_pos_iff)
  then have "segment_size_bytes s = nat (sz div int bs) * bs" "1 \<le> nat (sz div int bs)" by (simp_all add: s nat_mult_distrib)
  then have "bs \<le> segment_size_bytes s" "bs dvd segment_size_bytes s" by simp_all
  moreover have "1 \<le> nat shards" "int (nat shards) = shards" using ok(3) by linarith+
  ultimately show ?thesis using ok(1,2) by (simp add: s)
qed

lemma thread_counts_pos: "1 \<le> fst (thread_counts c r w)" "1 \<le> snd (thread_counts c r w)"
  by (auto simp: thread_counts_def Let_def split: option.splits)

text \<open>How many threads of each kind: \<open>True\<close> for those that prefer loads.\<close>

definition threads_of :: "bool \<Rightarrow> ('a, 'c) pool \<Rightarrow> nat" where
  "threads_of kind p = length (filter (\<lambda>(k, _). k = kind) (threads p))"

definition processors :: "int option \<Rightarrow> int" where
  "processors cpu_count = (case cpu_count of None \<Rightarrow> 2 | Some n \<Rightarrow> max 2 n)"

lemma threads_of_make_pool: "threads_of True (make_pool a b) = a" "threads_of False (make_pool a b) = b"
  by (simp_all add: threads_of_def make_pool_def)

lemma thread_counts_cases:
  assumes "thread_counts cpu_count reads writes = (nr, nw)"
  shows "case (reads, writes) of
      (None, None) \<Rightarrow> nr + nw = processors cpu_count \<and> (nr = nw \<or> nr = nw + 1)
    | (None, Some w) \<Rightarrow> nr = max 1 (processors cpu_count - w) \<and> nw = max 1 w
    | (Some r, None) \<Rightarrow> nr = max 1 r \<and> nw = max 1 (processors cpu_count - r)
    | (Some r, Some w) \<Rightarrow> nr = max 1 r \<and> nw = max 1 w"
proof -
  have "(max 2 (case cpu_count of None \<Rightarrow> 2 | Some c \<Rightarrow> if c = 0 then 2 else c)) = processors cpu_count"
    by (simp add: processors_def split: option.splits)
  moreover have "2 \<le> processors cpu_count" by (simp add: processors_def split: option.splits)
  then have "1 \<le> processors cpu_count div 2" by presburger
  ultimately show ?thesis using assms by (auto simp: thread_counts_def Let_def split: option.splits)
qed

text \<open>The shards asked for, or the default.\<close>

definition chosen_shards :: "int option \<Rightarrow> fs_config \<Rightarrow> int" where
  "chosen_shards cpu_count cfg =
     (if cfg_shards cfg \<noteq> 0 then cfg_shards cfg
      else min 16 (max 1 (fst (thread_counts cpu_count (cfg_read_threads cfg) (cfg_write_threads cfg)) +
        snd (thread_counts cpu_count (cfg_read_threads cfg) (cfg_write_threads cfg)))))"

lemma make_fs_manager_built:
  assumes "make_fs_manager cpu_count cfg = Inr m" "thread_counts cpu_count (cfg_read_threads cfg) (cfg_write_threads cfg) = (nr, nw)"
  shows "cfg_strides cfg = Some (fm_block_size m)" "1 \<le> fm_io_batch m"
    "fm_pool m = make_pool (nat nr) (nat nw)" "fm_lookups m = make_async_lookup"
    "case fm_segment m of
       None \<Rightarrow> cfg_storage_layout cfg = ''file''
     | Some s \<Rightarrow> cfg_storage_layout cfg = ''segment'' \<and>
         make_segment_store (int (fm_block_size m)) (cfg_segment_size cfg) (chosen_shards cpu_count cfg) = Inr s"
proof -
  obtain bs where bs: "cfg_strides cfg = Some bs" using assms by (cases "cfg_strides cfg") (auto simp: make_fs_manager_def)
  define io where "io = (if cfg_io_batch cfg \<noteq> 0 then cfg_io_batch cfg else max 1 (1024 ^ 2 div int bs))"
  have "0 < io" using assms by (auto simp: make_fs_manager_def bs io_def split: if_splits)
  then have "1 \<le> nat io" by simp
  moreover have "fm_block_size m = bs \<and> fm_io_batch m = nat io \<and> fm_pool m = make_pool (nat nr) (nat nw) \<and>
    fm_lookups m = make_async_lookup \<and>
    (case fm_segment m of None \<Rightarrow> cfg_storage_layout cfg = ''file''
     | Some s \<Rightarrow> cfg_storage_layout cfg = ''segment'' \<and>
         make_segment_store (int bs) (cfg_segment_size cfg) (chosen_shards cpu_count cfg) = Inr s)"
    using assms(1) unfolding make_fs_manager_def assms(2) prod.case bs option.case Let_def bind_result_def io_def
    by (auto simp: chosen_shards_def assms(2) split: if_splits sum.splits)
  ultimately show "cfg_strides cfg = Some (fm_block_size m)" "1 \<le> fm_io_batch m"
    "fm_pool m = make_pool (nat nr) (nat nw)" "fm_lookups m = make_async_lookup"
    "case fm_segment m of None \<Rightarrow> cfg_storage_layout cfg = ''file''
     | Some s \<Rightarrow> cfg_storage_layout cfg = ''segment'' \<and>
         make_segment_store (int (fm_block_size m)) (cfg_segment_size cfg) (chosen_shards cpu_count cfg) = Inr s"
    using bs by auto
qed

lemma make_fs_manager_rejects:
  assumes "make_fs_manager cpu_count cfg = Inl e"
  shows "\<not> (\<exists>bs. cfg_strides cfg = Some bs \<and> cfg_storage_layout cfg \<in> {''file'', ''segment''} \<and>
    0 \<le> cfg_io_batch cfg \<and> 0 \<le> cfg_shards cfg \<and> (cfg_io_batch cfg = 0 \<longrightarrow> 0 < bs) \<and>
    (cfg_storage_layout cfg = ''segment'' \<longrightarrow> 0 < bs \<and> int bs \<le> cfg_segment_size cfg))"
proof clarify
  fix bs assume v: "cfg_strides cfg = Some bs" "cfg_storage_layout cfg \<in> {''file'', ''segment''}" "0 \<le> cfg_io_batch cfg"
    "0 \<le> cfg_shards cfg" "cfg_io_batch cfg = 0 \<longrightarrow> 0 < bs" "cfg_storage_layout cfg = ''segment'' \<longrightarrow> 0 < bs \<and> int bs \<le> cfg_segment_size cfg"
  obtain nr nw where t: "thread_counts cpu_count (cfg_read_threads cfg) (cfg_write_threads cfg) = (nr, nw)" by fastforce
  have "cfg_storage_layout cfg = ''segment'' \<and> make_segment_store (int bs) (cfg_segment_size cfg) (chosen_shards cpu_count cfg) = Inl e"
    using assms v(1-5) unfolding make_fs_manager_def t prod.case v(1) option.case Let_def bind_result_def
    by (auto simp: chosen_shards_def t split: if_splits sum.splits)
  moreover have "0 < chosen_shards cpu_count cfg" using v(4) by (auto simp: chosen_shards_def)
  ultimately show False using make_segment_store_rejects [of "int bs" "cfg_segment_size cfg" "chosen_shards cpu_count cfg"] v(6) by simp
qed


text \<open>The default thread counts of a machine with eight processors, segments of four blocks.\<close>

definition sample_fs_config :: fs_config where
  "sample_fs_config = \<lparr>cfg_strides = Some 4, cfg_read_threads = None, cfg_write_threads = None, cfg_storage_layout = ''segment'',
     cfg_segment_size = 17, cfg_io_batch = 2, cfg_shards = 0\<rparr>"


section \<open>Examples\<close>

text \<open>A tier of the segment layout, on an old database and with one block file.\<close>

definition sample_manager :: fs_manager where
  "sample_manager = \<lparr>fm_block_size = 2, fm_io_batch = 1, fm_segment = Some sample_store,
     fm_pool = make_pool 1 1, fm_lookups = make_async_lookup\<rparr>"

definition sample_world :: fs_world where
  "sample_world = \<lparr>w_shared = legacy_shared, w_files = [(''f/x'', ''xy'')], w_view = ''ABCDEFGH''\<rparr>"

definition sample_mapper :: "offload_key \<Rightarrow> string" where
  "sample_mapper k = ''f/'' @ k"

definition sample_env :: task_env where
  "sample_env = \<lparr>te_iov = 8, te_io = [], te_sys = [], te_suffix = ''_1.tmp'', te_tx = True\<rparr>"

lemma sample_healthy: "healthy legacy_shared sample_store legacy_extents"
proof -
  have "indexed_extents legacy_shared legacy_extents"
    by (auto simp: indexed_extents_def legacy_extents_def legacy_shared_def split: if_splits)
  moreover have "loadable (block_size sample_store) (seg_files legacy_shared) l" if "map_of (db_blocks legacy_shared) k = Some l" for k l
    using that by (auto simp: legacy_shared_def loadable_def present_def dict_get_def sample_store_def split: if_splits)
  ultimately show ?thesis
    using legacy_shared_ok by (simp add: healthy_def cache_current_def) (simp add: sample_store_def)
qed

text \<open>Three blocks are stored, the tasks run in reverse order.\<close>

definition sample_submit :: "unit result \<times> fs_manager \<times> fs_world" where
  "sample_submit = fs_submit_store True sample_mapper 7 [''k1'', ''k2'', ''k3''] [3, 0, 1] (sample_manager, sample_world)"

definition sample_store_tasks :: "(task_env \<times> fs_task) list" where
  "sample_store_tasks = map (Pair sample_env) (rev (map fst (store_q (fm_pool (fst (snd sample_submit))))))"

definition sample_stored :: "bool \<times> fs_manager \<times> fs_world" where
  "sample_stored = run_tasks sample_store_tasks (snd sample_submit)"

definition sample_plan :: "segment_write list" where
  "sample_plan = the (on_complete (jobs (fm_pool (fst (snd sample_submit))) ! 0))"

theorem fs_store_job_witness:
  "tier_block sample_mapper (snd (run_callback True sample_plan (fst sample_stored) (snd sample_stored))) ''k2'' = Some ''AB'' \<and>
   tier_block sample_mapper (snd (run_callback True sample_plan (fst sample_stored) (snd sample_stored))) ''o1'' = Some ''ab''"
proof -
  obtain r0 m1 w1 where s: "sample_submit = (r0, m1, w1)" by (metis prod_cases3)
  obtain ok m2 w2 where st: "sample_stored = (ok, m2, w2)" by (metis prod_cases3)
  obtain r m3 w3 where cb: "run_callback True sample_plan ok (m2, w2) = (r, m3, w3)" by (metis prod_cases3)
  have "fst sample_submit = Inr ()" by code_simp
  then have submit: "fs_submit_store True sample_mapper 7 [''k1'', ''k2'', ''k3''] [3, 0, 1] (sample_manager, sample_world) = (Inr (), m1, w1)"
    using s unfolding sample_submit_def by simp
  have "store_q (fm_pool (fst (snd sample_submit))) = store_q (fm_pool sample_manager) @
      map (\<lambda>t. (t, length (jobs (fm_pool sample_manager)))) (map fst (store_q (fm_pool (fst (snd sample_submit)))))" by code_simp
  then have q: "store_q (fm_pool m1) = store_q (fm_pool sample_manager) @
      map (\<lambda>t. (t, length (jobs (fm_pool sample_manager)))) (map fst (store_q (fm_pool m1)))" unfolding s fst_conv snd_conv .
  have "on_complete (jobs (fm_pool (fst (snd sample_submit))) ! length (jobs (fm_pool sample_manager))) = Some sample_plan" by code_simp
  then have p: "on_complete (jobs (fm_pool m1) ! length (jobs (fm_pool sample_manager))) = Some sample_plan" unfolding s fst_conv snd_conv .
  have o: "mset (map snd sample_store_tasks) = mset (map fst (store_q (fm_pool m1)))"
    by (simp add: sample_store_tasks_def s comp_def flip: rev_map)
  have e: "\<forall>(env, t) \<in> set sample_store_tasks. 0 < te_iov env" by (auto simp: sample_store_tasks_def sample_env_def)
  have run: "run_tasks sample_store_tasks (m1, w1) = (ok, m2, w2)" using st by (simp add: sample_stored_def s)
  have seg: "fm_segment sample_manager = Some sample_store" "0 < fm_io_batch sample_manager" by (simp_all add: sample_manager_def)
  have h: "healthy (w_shared sample_world) sample_store legacy_extents" using sample_healthy by (simp add: sample_world_def)
  have b: "\<forall>b \<in> set [3, 0, 1]. block_in (block_size sample_store) (w_view sample_world) b"
    by (simp add: sample_world_def sample_store_def block_in_def)
  note t = fs_store_job [OF seg h b submit q p o e run cb]
  have "fst sample_stored \<and> \<not> isl (fst (run_callback True sample_plan (fst sample_stored) (snd sample_stored)))" by code_simp
  then have ok: "ok" "\<not> isl r" unfolding st fst_conv snd_conv cb by simp_all
  have l: "locate (w_shared sample_world) sample_store ''k2'' = None" "locate (w_shared sample_world) sample_store ''o1'' \<noteq> None"
    "tier_block sample_mapper (sample_manager, sample_world) ''o1'' = Some ''ab''"
    "view_of (block_size sample_store) (the (map_of (zip [''k1'', ''k2'', ''k3''] [3, 0, 1]) ''k2'')) (w_view sample_world) = ''AB''" by code_simp+
  have "tier_block sample_mapper (m3, w3) ''k2'' = Some ''AB''" "tier_block sample_mapper (m3, w3) ''o1'' = Some ''ab''"
    using t [of "''k2''"] t [of "''o1''"] ok l by simp_all
  then show ?thesis unfolding st fst_conv snd_conv cb by blast
qed

text \<open>A load of a block in a segment and of a block file, in the other order.\<close>

definition sample_load :: "fs_manager \<times> fs_world" where
  "sample_load = fs_submit_load sample_mapper 8 [''o2'', ''x''] [3, 1] (sample_manager, sample_world)"

definition sample_load_tasks :: "(task_env \<times> fs_task) list" where
  "sample_load_tasks = map (Pair sample_env) (rev (map fst (load_q (fm_pool (fst sample_load)))))"

theorem fs_load_job_witness:
  "view_of 2 3 (w_view (snd (snd (run_tasks sample_load_tasks sample_load)))) = ''cd'' \<and>
   view_of 2 1 (w_view (snd (snd (run_tasks sample_load_tasks sample_load)))) = ''xy''"
proof -
  obtain m1 w1 where s: "sample_load = (m1, w1)" by fastforce
  obtain ok m2 w2 where run: "run_tasks sample_load_tasks (m1, w1) = (ok, m2, w2)" by (metis prod_cases3)
  have submit: "fs_submit_load sample_mapper 8 [''o2'', ''x''] [3, 1] (sample_manager, sample_world) = (m1, w1)"
    using s unfolding sample_load_def .
  have "load_q (fm_pool (fst sample_load)) = load_q (fm_pool sample_manager) @
      map (\<lambda>t. (t, length (jobs (fm_pool sample_manager)))) (map fst (load_q (fm_pool (fst sample_load))))" by code_simp
  then have q: "load_q (fm_pool m1) = load_q (fm_pool sample_manager) @
      map (\<lambda>t. (t, length (jobs (fm_pool sample_manager)))) (map fst (load_q (fm_pool m1)))" unfolding s fst_conv .
  have o: "mset (map snd sample_load_tasks) = mset (map fst (load_q (fm_pool m1)))"
    by (simp add: sample_load_tasks_def s comp_def flip: rev_map)
  have e: "\<forall>(env, t) \<in> set sample_load_tasks. te_io env = [] \<and> te_sys env = [] \<and> 0 < te_iov env"
    by (auto simp: sample_load_tasks_def sample_env_def)
  have m: "0 < fm_io_batch sample_manager" "0 < fm_block_size sample_manager" by (simp_all add: sample_manager_def)
  have seg: "\<forall>s. fm_segment sample_manager = Some s \<longrightarrow> keys_distinct (w_shared sample_world) \<and> block_size s = fm_block_size sample_manager"
    using legacy_shared_ok(1) by (simp add: sample_manager_def sample_world_def) (simp add: sample_store_def)
  have ready: "\<forall>k \<in> set [''o2'', ''x'']. tier_ready sample_mapper (sample_manager, sample_world) k"
    by (simp add: tier_ready_def sample_manager_def sample_world_def sample_mapper_def sample_store_def legacy_shared_def
        locate_def loadable_def present_def dict_get_def)
  have d: "length [''o2'', ''x''] = length [3, 1 :: nat]" "distinct [3, 1 :: nat]"
    "\<forall>b \<in> set [3, 1]. block_in (fm_block_size sample_manager) (w_view sample_world) b"
    by (simp_all add: sample_manager_def sample_world_def block_in_def)
  note t = fs_load_job [OF m seg ready d submit q o e run]
  have n: "fm_block_size sample_manager = 2" by (simp add: sample_manager_def)
  have l: "the (tier_block sample_mapper (sample_manager, sample_world) ([''o2'', ''x''] ! 0)) = ''cd''"
    "the (tier_block sample_mapper (sample_manager, sample_world) ([''o2'', ''x''] ! 1)) = ''xy''" by code_simp+
  have f: "\<forall>i < length [''o2'', ''x'']. view_of 2 ([3, 1] ! i) (w_view w2) =
      the (tier_block sample_mapper (sample_manager, sample_world) ([''o2'', ''x''] ! i))" using t n by simp
  from f [rule_format, of 0] f [rule_format, of 1] have "view_of 2 3 (w_view w2) = ''cd''" "view_of 2 1 (w_view w2) = ''xy''"
    unfolding l by simp_all
  then show ?thesis by (simp only: s run snd_conv)
qed

theorem fs_batch_lookup_correct_witness:
  "fst (fs_batch_lookup None sample_mapper [''x'', ''o1'', ''z'', ''o1''] sample_manager sample_world) = [True, True, False, True]"
proof -
  have seg: "\<forall>s. fm_segment sample_manager = Some s \<longrightarrow> keys_distinct (w_shared sample_world)"
    using legacy_shared_ok(1) by (simp add: sample_world_def)
  obtain h m' where h: "fs_batch_lookup None sample_mapper [''x'', ''o1'', ''z'', ''o1''] sample_manager sample_world = (h, m')" by fastforce
  have "map (\<lambda>k. tier_block sample_mapper (sample_manager, sample_world) k \<noteq> None) [''x'', ''o1'', ''z'', ''o1''] =
      [True, True, False, True]" by code_simp
  with fs_batch_lookup_correct [OF seg _ h] show ?thesis by (simp only: h fst_conv) simp
qed

theorem fs_delete_correct_witness:
  "fst (fs_delete True (\<lambda>p. p = ''f/x'') sample_mapper [''o1'', ''x'', ''z''] (sample_manager, sample_world)) = Inr ({''o1'', ''z''}, 1)"
proof -
  let ?d = "fs_delete True (\<lambda>p. p = ''f/x'') sample_mapper [''o1'', ''x'', ''z''] (sample_manager, sample_world)"
  obtain r m' w' where d: "?d = (r, m', w')" by (metis prod_cases3)
  have seg: "\<forall>s. fm_segment sample_manager = Some s \<longrightarrow> keys_distinct (w_shared sample_world) \<and> cache_current (w_shared sample_world) s"
    using legacy_shared_ok(1) by (simp add: sample_manager_def sample_world_def) (simp add: sample_store_def cache_current_def)
  have names: "inj sample_mapper" by (simp add: inj_def sample_mapper_def)
  note t = fs_delete_correct [OF seg names d]
  have "\<not> isl (fst ?d)" by code_simp
  then obtain R n where r: "r = Inr (R, n)" unfolding d fst_conv by (cases r) auto
  have R: "{k \<in> set [''o1'', ''x'', ''z'']. \<not> sample_mapper k = ''f/x''} = {''o1'', ''z''}" by (auto simp: sample_mapper_def)
  have n: "{k \<in> set [''o1'', ''x'', ''z'']. (fm_segment sample_manager \<noteq> None \<and> map_of (db_blocks (w_shared sample_world)) k \<noteq> None) \<or>
      (\<not> sample_mapper k = ''f/x'' \<and> map_of (w_files sample_world) (sample_mapper k) \<noteq> None)} = {''o1''}"
    by (auto simp: sample_manager_def sample_world_def sample_mapper_def legacy_shared_def)
  from t have "R = {''o1'', ''z''}" "n = card {''o1''}" unfolding r sum.case prod.case R n by blast+
  then show ?thesis by (simp add: d r)
qed

end
