(* ===== verification/Fs_Execution.thy ===== *)
theory Fs_Execution
  imports Fs_Tier Async_Lookup_Policy Thread_Pool_Props
begin

text \<open>
  The file system tier as a whole: the scheduler's calls, the moves of the pool threads and of
  the lookup thread and the host's writes to the primary memory, in any order. A task with
  its completion callback is one step. The state carries the labels of what the pool did.
\<close>

section \<open>Steps\<close>

type_synonym fs_run = "pool_label list \<times> fs_manager \<times> fs_world"

text \<open>A submission announces a number of tasks and queues some.\<close>

definition submit_label :: "(fs_task, segment_write list) pool \<Rightarrow> (fs_task, segment_write list) pool \<Rightarrow> pool_label" where
  "submit_label p p' =
     Submitted (n_tasks (last (jobs p'))) (length (load_q p') + length (store_q p') - (length (load_q p) + length (store_q p)))"

inductive fs_step :: "(string list \<Rightarrow> bool list) option \<Rightarrow> (offload_key \<Rightarrow> string) \<Rightarrow> fs_run \<Rightarrow> fs_run \<Rightarrow> bool"
  for c_lookup mapper where
  Store: "\<forall>b \<in> set block_ids. block_in (fm_block_size m) (w_view w) b \<Longrightarrow>
     fs_submit_store tx mapper job_id keys block_ids (m, w) = (Inr (), m', w') \<Longrightarrow>
     fs_step c_lookup mapper (ls, m, w) (submit_label (fm_pool m) (fm_pool m') # ls, m', w')"
| Store_Raises: "fs_submit_store tx mapper job_id keys block_ids (m, w) = (Inl e, m', w') \<Longrightarrow>
     fs_step c_lookup mapper (ls, m, w) (ls, m', w')"
| Load: "fs_submit_load mapper job_id keys block_ids (m, w) = (m', w') \<Longrightarrow>
     fs_step c_lookup mapper (ls, m, w) (submit_label (fm_pool m) (fm_pool m') # ls, m', w')"
| Take: "worker_take i (fm_pool m) = Some p \<Longrightarrow> fs_step c_lookup mapper (ls, m, w) (ls, m\<lparr>fm_pool := p\<rparr>, w)"
| Done: "0 < te_iov env \<Longrightarrow> fs_worker_done i env (m, w) = Some (ls', m', w') \<Longrightarrow>
     fs_step c_lookup mapper (ls, m, w) (ls' @ ls, m', w')"
| Report: "worker_report i (fm_pool m) = Some (j, success, p) \<Longrightarrow>
     fs_step c_lookup mapper (ls, m, w) (Reported j success # ls, m\<lparr>fm_pool := p\<rparr>, w)"
| Collect: "fs_get_finished_jobs m = (results, m') \<Longrightarrow> fs_step c_lookup mapper (ls, m, w) (Collected results # ls, m', w)"
| Lookup: "fs_lookup key ctx m = (result, m') \<Longrightarrow> fs_step c_lookup mapper (ls, m, w) (ls, m', w)"
| Lookup_Move: "fs_step c_lookup mapper (ls, m, w) (ls, fs_lookup_move c_lookup mapper w m, w)"
| Schedule_End: "fs_step c_lookup mapper (ls, m, w) (ls, fs_on_schedule_end m, w)"
| Request_Finished: "fs_on_request_finished ctx m = Inr m' \<Longrightarrow> fs_step c_lookup mapper (ls, m, w) (ls, m', w)"
| Delete: "fs_delete tx denied mapper keys (m, w) = (r, m', w') \<Longrightarrow> fs_step c_lookup mapper (ls, m, w) (ls, m', w')"
| Primary: "length view = length (w_view w) \<Longrightarrow> fs_step c_lookup mapper (ls, m, w) (ls, m, w\<lparr>w_view := view\<rparr>)"
| Shutdown_Lookups: "fs_step c_lookup mapper (ls, m, w) (ls, fs_shutdown_lookups m, w)"
| Shutdown_Pool: "fs_step c_lookup mapper (ls, m, w) (ShutDown # ls, fs_shutdown_pool m, w)"
| Shutdown_Segment: "fs_step c_lookup mapper (ls, m, w) (ls, fs_shutdown_segment m, w)"

text \<open>A new tier on an empty index, after any number of steps.\<close>

definition fs_reaches :: "int option \<Rightarrow> fs_config \<Rightarrow> (string list \<Rightarrow> bool list) option \<Rightarrow> (offload_key \<Rightarrow> string) \<Rightarrow> fs_run \<Rightarrow> bool" where
  "fs_reaches cpu_count cfg c_lookup mapper r \<longleftrightarrow>
     (\<exists>m w. make_fs_manager cpu_count cfg = Inr m \<and> w_shared w = empty_shared \<and> (fs_step c_lookup mapper)\<^sup>*\<^sup>* ([], m, w) r)"

section \<open>What the parts do not touch\<close>

lemma run_task_frame:
  "run_task env t (m, w) = (r, m', w') \<Longrightarrow> fm_pool m' = fm_pool m \<and> fm_lookups m' = fm_lookups m \<and>
     fm_block_size m' = fm_block_size m \<and> fm_io_batch m' = fm_io_batch m"
  by (cases t) (auto simp: Let_def split: option.splits prod.splits)

lemma run_callback_frame:
  "run_callback tx plan success (m, w) = (r, m', w') \<Longrightarrow> fm_pool m' = fm_pool m \<and> fm_lookups m' = fm_lookups m \<and>
     fm_block_size m' = fm_block_size m \<and> fm_io_batch m' = fm_io_batch m \<and> w_view w' = w_view w"
  by (auto simp: run_callback_def Let_def split: option.splits prod.splits)

lemma batch_lookup_frame:
  "fm_pool (snd (fs_batch_lookup c mapper ks m w)) = fm_pool m \<and> fm_lookups (snd (fs_batch_lookup c mapper ks m w)) = fm_lookups m \<and>
     fm_block_size (snd (fs_batch_lookup c mapper ks m w)) = fm_block_size m \<and> fm_io_batch (snd (fs_batch_lookup c mapper ks m w)) = fm_io_batch m"
  by (auto simp: fs_batch_lookup_def Let_def split: option.splits prod.splits)

lemma batch_lookups_frame:
  "fm_pool (fold (\<lambda>(_, _, keys) m. snd (fs_batch_lookup c mapper keys m w)) xs m) = fm_pool m \<and>
     fm_block_size (fold (\<lambda>(_, _, keys) m. snd (fs_batch_lookup c mapper keys m w)) xs m) = fm_block_size m \<and>
     fm_io_batch (fold (\<lambda>(_, _, keys) m. snd (fs_batch_lookup c mapper keys m w)) xs m) = fm_io_batch m"
  by (induction xs arbitrary: m) (auto simp: batch_lookup_frame)

lemma lookup_move_frame:
  "fm_pool (fs_lookup_move c mapper w m) = fm_pool m \<and> fm_block_size (fs_lookup_move c mapper w m) = fm_block_size m \<and>
     fm_io_batch (fs_lookup_move c mapper w m) = fm_io_batch m"
  by (auto simp: fs_lookup_move_def Let_def batch_lookups_frame split: worker_state.splits)

text \<open>The last task and the callback of a job.\<close>

lemma fs_worker_doneE:
  assumes "fs_worker_done i env (m, w) = Some (ls', m', w')"
  obtains task j r m1 w1 raises call p m2 where
    "i < length (threads (fm_pool m))" "snd (threads (fm_pool m) ! i) = Running task j"
    "run_task env task (m, w) = (r, m1, w1)"
    "worker_done i (\<not> isl r) raises (fm_pool m) = Some (j, call, p)"
    "call = snd (snd (snd (task_done (\<not> isl r) False (jobs (fm_pool m) ! j))))"
    "ls' = done_labels j (\<not> isl r) raises call" "m' = m2\<lparr>fm_pool := p\<rparr>"
    "(\<exists>arg plan cr. call = Some arg \<and> on_complete (jobs (fm_pool m) ! j) = Some plan \<and>
        run_callback (te_tx env) plan arg (m1, w1) = (cr, m2, w') \<and> raises = isl cr) \<or>
     (call = None \<or> on_complete (jobs (fm_pool m) ! j) = None) \<and> m2 = m1 \<and> w' = w1 \<and> \<not> raises"
proof -
  obtain task j where t: "i < length (threads (fm_pool m))" "snd (threads (fm_pool m) ! i) = Running task j"
    using assms by (auto simp: fs_worker_done_def split: if_splits thread_state.splits)
  obtain r m1 w1 where r: "run_task env task (m, w) = (r, m1, w1)" by (metis prod_cases3)
  have p1: "fm_pool m1 = fm_pool m" using run_task_frame [OF r] by simp
  define call where "call = snd (snd (snd (task_done (\<not> isl r) False (jobs (fm_pool m) ! j))))"
  define cb where "cb = (case (call, on_complete (jobs (fm_pool m) ! j)) of
      (Some arg, Some plan) \<Rightarrow> let (cr, m, w) = run_callback (te_tx env) plan arg (m1, w1) in (isl cr, m, w)
    | _ \<Rightarrow> (False, m1, w1))"
  obtain raises m2 w2 where c: "cb = (raises, m2, w2)" by (metis prod_cases3)
  have cases: "(\<exists>arg plan cr. call = Some arg \<and> on_complete (jobs (fm_pool m) ! j) = Some plan \<and>
        run_callback (te_tx env) plan arg (m1, w1) = (cr, m2, w2) \<and> raises = isl cr) \<or>
     (call = None \<or> on_complete (jobs (fm_pool m) ! j) = None) \<and> m2 = m1 \<and> w2 = w1 \<and> \<not> raises"
    using c by (auto simp: cb_def Let_def split: option.splits prod.splits)
  then have p2: "fm_pool m2 = fm_pool m" using p1 run_callback_frame by auto
  obtain j' call' p where d: "worker_done i (\<not> isl r) raises (fm_pool m) = Some (j', call', p)"
    "(ls', m', w') = (done_labels j' (\<not> isl r) raises call', m2\<lparr>fm_pool := p\<rparr>, w2)"
  proof -
    have "fs_worker_done i env (m, w) =
        (let (raises, m, w) = cb in (case worker_done i (\<not> isl r) raises (fm_pool m) of
            None \<Rightarrow> None | Some (j, call, p) \<Rightarrow> Some (done_labels j (\<not> isl r) raises call, m\<lparr>fm_pool := p\<rparr>, w)))"
      unfolding fs_worker_done_def cb_def call_def by (simp add: t r p1 Let_def cong: option.case_cong)
    then show thesis using assms that by (simp add: c p2 split: option.splits prod.splits)
  qed
  have "j' = j" "call' = call"
    using d(1) t by (auto simp: worker_done_def call_def task_done_def Let_def split: if_splits)
  with that [OF t r] d cases call_def show thesis by blast
qed

section \<open>Every run of the tier is a run of its parts\<close>

lemma submit_label_enqueue:
  "submit_label p (enqueue_store job_id n tasks cb p) = Submitted n (length tasks)"
  "submit_label p (enqueue_load job_id n tasks p) = Submitted n (length tasks)"
  by (simp_all add: submit_label_def enqueue_store_def enqueue_load_def new_job_state_def)

lemma submit_store_pool:
  assumes "fs_submit_store tx mapper job_id keys ids (m, w) = (r, m', w')"
  shows "case r of Inl _ \<Rightarrow> fm_pool m' = fm_pool m | Inr _ \<Rightarrow> \<exists>n tasks cb. fm_pool m' = enqueue_store job_id n tasks cb (fm_pool m)"
  using assms by (auto simp: fs_submit_store_def Let_def split: option.splits prod.splits sum.splits) blast+

lemma submit_load_pool:
  assumes "fs_submit_load mapper job_id keys ids (m, w) = (m', w')"
  shows "\<exists>n tasks. fm_pool m' = enqueue_load job_id n tasks (fm_pool m)"
  using assms by (auto simp: fs_submit_load_def Let_def split: option.splits prod.splits) blast+

lemma delete_frame:
  assumes "fs_delete tx denied mapper keys (m, w) = (r, m', w')"
  shows "fm_pool m' = fm_pool m \<and> fm_lookups m' = fm_lookups m \<and> fm_block_size m' = fm_block_size m \<and>
    fm_io_batch m' = fm_io_batch m \<and> w_view w' = w_view w"
  using assms by (auto simp: fs_delete_def Let_def split: option.splits prod.splits sum.splits)

lemma step_pool_trace:
  assumes "fs_step c_lookup mapper (ls, m, w) (ls', m', w')" "pool_trace a b ls (fm_pool m)"
  shows "pool_trace a b ls' (fm_pool m')"
  using assms(1)
proof cases
  case (Store block_ids tx job_id keys)
  with submit_store_pool [OF Store(3)] assms(2) show ?thesis by (auto simp: submit_label_enqueue intro: pool_trace.Store)
next
  case (Store_Raises tx job_id keys block_ids e)
  with submit_store_pool [OF Store_Raises(2)] assms(2) show ?thesis by simp
next
  case (Load job_id keys block_ids)
  with submit_load_pool [OF Load(2)] assms(2) show ?thesis by (auto simp: submit_label_enqueue intro: pool_trace.Load)
next
  case (Done env i ls1)
  obtain j raises call p and m2 :: fs_manager and r :: "unit result" where
    "worker_done i (\<not> isl r) raises (fm_pool m) = Some (j, call, p)" "ls1 = done_labels j (\<not> isl r) raises call" "m' = m2\<lparr>fm_pool := p\<rparr>"
    by (rule fs_worker_doneE [OF Done(3)], rule that, assumption+)
  with Done(1) assms(2) show ?thesis by (auto intro: pool_trace.Done)
next
  case (Collect results)
  then show ?thesis using pool_trace.Collect [OF assms(2)] by (auto simp: fs_get_finished_jobs_def split: prod.splits)
next
  case (Delete tx denied keys r)
  then show ?thesis using delete_frame assms(2) by simp
next
  case (Request_Finished ctx)
  then show ?thesis using assms(2) by (auto simp: fs_on_request_finished_def bind_result_def split: sum.splits)
qed (use assms(2) in \<open>auto simp: fs_lookup_def Let_def lookup_move_frame fs_on_schedule_end_def fs_shutdown_lookups_def fs_shutdown_pool_def
       fs_shutdown_segment_def split: prod.splits option.splits intro: pool_trace.intros\<close>)

lemma batch_lookup_parallel:
  assumes "\<forall>f paths. c_lookup = Some f \<longrightarrow> length (f paths) = length paths"
  shows "parallel_fn (\<lambda>keys _. Inr (fst (fs_batch_lookup c_lookup mapper keys m w)))"
proof -
  have "length (fold (\<lambda>(i, hit) hs. hs[i := hit]) xs hs) = length hs" for xs and hs :: "bool list"
    by (induction xs arbitrary: hs) auto
  moreover have "length (fst (contains_many keys sh s)) = length keys" for keys sh s
    by (auto simp: contains_many_def get_locations_def Let_def split: prod.splits)
  ultimately show ?thesis using assms
    by (auto simp: parallel_fn_def fs_batch_lookup_def batch_file_lookup_def Let_def case_prod_beta split: option.splits)
qed

lemma step_lookup_inv:
  assumes "fs_step c_lookup mapper (ls, m, w) (ls', m', w')" "lookup_inv (fm_lookups m)"
    "\<forall>f paths. c_lookup = Some f \<longrightarrow> length (f paths) = length paths"
  shows "lookup_inv (fm_lookups m')"
  using assms(1)
proof cases
  case (Store block_ids tx job_id keys)
  then show ?thesis using assms(2) by (auto simp: fs_submit_store_def Let_def split: option.splits prod.splits sum.splits)
next
  case (Store_Raises tx job_id keys block_ids e)
  then show ?thesis using assms(2) by (auto simp: fs_submit_store_def Let_def split: option.splits prod.splits sum.splits)
next
  case (Load job_id keys block_ids)
  then show ?thesis using assms(2) by (auto simp: fs_submit_load_def Let_def split: option.splits prod.splits)
next
  case (Done env i ls1)
  obtain task r m1 w1 p m2 where d: "run_task env task (m, w) = (r, m1, w1)" "m' = m2\<lparr>fm_pool := p\<rparr>"
    "(\<exists>arg plan cr. run_callback (te_tx env) plan arg (m1, w1) = (cr, m2, w')) \<or> m2 = m1"
    by (rule fs_worker_doneE [OF Done(3)], rule that) auto
  then show ?thesis using run_task_frame [OF d(1)] run_callback_frame assms(2) by auto
next
  case (Lookup key ctx result)
  then show ?thesis using lookup_inv_lookup [OF assms(2), of key ctx] by (auto simp: fs_lookup_def Let_def split: prod.splits option.splits)
next
  case Lookup_Move
  then show ?thesis using worker_move_inv [OF assms(2) batch_lookup_parallel [OF assms(3)]]
    by (auto simp: fs_lookup_move_def Let_def)
next
  case (Request_Finished ctx)
  then show ?thesis using lookup_step_inv [of "Cleanup (req_id ctx)", OF _ assms(2)]
    by (auto simp: fs_on_request_finished_def bind_result_def split: sum.splits)
next
  case (Delete tx denied keys r)
  then show ?thesis using delete_frame assms(2) by simp
qed (use assms(2) flush_inv post_sentinel_inv in \<open>auto simp: fs_get_finished_jobs_def fs_on_schedule_end_def fs_shutdown_lookups_def fs_shutdown_pool_def
       fs_shutdown_segment_def Let_def split: prod.splits\<close>)


lemma steps_pool_trace:
  assumes "(fs_step c_lookup mapper)\<^sup>*\<^sup>* (ls, m, w) (ls', m', w')" "pool_trace a b ls (fm_pool m)"
  shows "pool_trace a b ls' (fm_pool m')"
  using assms(1)
proof (induction "(ls', m', w')" arbitrary: ls' m' w' rule: rtranclp_induct)
  case (step r)
  then show ?case using step_pool_trace by (metis prod_cases3)
qed (use assms(2) in simp)

lemma steps_lookup_inv:
  assumes "(fs_step c_lookup mapper)\<^sup>*\<^sup>* (ls, m, w) (ls', m', w')" "lookup_inv (fm_lookups m)"
    "\<forall>f paths. c_lookup = Some f \<longrightarrow> length (f paths) = length paths"
  shows "lookup_inv (fm_lookups m')"
  using assms(1)
proof (induction "(ls', m', w')" arbitrary: ls' m' w' rule: rtranclp_induct)
  case (step r)
  then show ?case using step_lookup_inv [OF _ _ assms(3)] by (metis prod_cases3)
qed (use assms(2) in simp)

lemma reaches_pool_trace:
  assumes "fs_reaches cpu_count cfg c_lookup mapper (ls, m, w)"
    "thread_counts cpu_count (cfg_read_threads cfg) (cfg_write_threads cfg) = (nr, nw)"
  shows "pool_trace (nat nr) (nat nw) ls (fm_pool m)"
proof -
  from assms(1) obtain m0 w0 where m0: "make_fs_manager cpu_count cfg = Inr m0"
    and s: "(fs_step c_lookup mapper)\<^sup>*\<^sup>* ([], m0, w0) (ls, m, w)"
    by (auto simp: fs_reaches_def)
  show ?thesis by (rule steps_pool_trace [OF s]) (simp add: make_fs_manager_built(3) [OF m0 assms(2)] pool_trace.Init)
qed

text \<open>C18: The file system tier runs its parts as they are meant to be run. Whatever calls, thread
  moves, I/O outcomes and shutdowns a new tier sees, in any order, its pool has gone through
  steps of the pool alone, with the thread counts of the configuration, and its look-up
  manager is consistent; and if every job has a task, a job is reported at most once, with
  success exactly if none of its tasks failed and its callback did not raise.\<close>

theorem fs_tier_simulates:
  assumes reach: "fs_reaches cpu_count cfg c_lookup mapper (ls, m, w)"
    and ext: "\<forall>f paths. c_lookup = Some f \<longrightarrow> length (f paths) = length paths"
    and n: "thread_counts cpu_count (cfg_read_threads cfg) (cfg_write_threads cfg) = (n_read, n_write)"
  shows "pool_trace (nat n_read) (nat n_write) ls (fm_pool m) \<and> lookup_inv (fm_lookups m) \<and>
    (\<forall>j success. sane ls \<longrightarrow> Reported j success \<in> set ls \<longrightarrow> occurrences (is_report j) ls = 1 \<and>
       (success \<longleftrightarrow> TaskRan j False \<notin> set ls \<and> (\<forall>arg. CallbackRan j arg True \<notin> set ls)))"
proof -
  from reach obtain m0 w0 where m0: "make_fs_manager cpu_count cfg = Inr m0" and s: "(fs_step c_lookup mapper)\<^sup>*\<^sup>* ([], m0, w0) (ls, m, w)"
    by (auto simp: fs_reaches_def)
  have t: "pool_trace (nat n_read) (nat n_write) ls (fm_pool m)" by (rule reaches_pool_trace [OF reach n])
  have l: "lookup_inv (fm_lookups m)"
    by (rule steps_lookup_inv [OF s _ ext]) (simp add: make_fs_manager_built(4) [OF m0 n] make_async_lookup_inv)
  have "occurrences (is_report j) ls = 1 \<and> (success \<longleftrightarrow> outcome ls j)" if r: "sane ls" "Reported j success \<in> set ls" for j success
  proof -
    have inv: "pool_inv ls (fm_pool m)" by (rule pool_trace_inv [OF t r(1)])
    have "j < length (jobs (fm_pool m))"
      using pool_invD(1) [OF inv] r(2) unfolding known_jobs_def by (metis label_job.simps(3))
    note ok = job_okD [OF pool_invD(2) [OF inv this]]
    have "occurrences (is_report j) ls \<noteq> 0" using r(2) no_report by blast
    with ok(6,9) r(2) show ?thesis by (auto split: if_splits)
  qed
  with t l show ?thesis by (simp add: outcome_def)
qed

end
