(* ===== verification/Fs_Effects.thy ===== *)
theory Fs_Effects
  imports Fs_Execution
begin

text \<open>
  What the moves of the pool do to the tasks that are still to run, and what a task and a
  callback do to the world: the primary memory keeps its size, index rows only go away or
  are those of the callback's plan, and bytes outside a task's extents are kept.
\<close>

section \<open>Pending tasks\<close>

definition pending :: "('a, 'c) pool \<Rightarrow> ('a \<times> nat) set" where
  "pending p = set (load_q p) \<union> set (store_q p) \<union> {(t, j). Running t j \<in> snd ` set (threads p)}"

definition unfinished :: "('a, 'c) pool \<Rightarrow> nat \<Rightarrow> nat" where
  "unfinished p j = queued p j + running p j"

lemma running_mem: "Running t j \<in> snd ` set (threads p) \<Longrightarrow> 0 < running p j"
  by (force simp: running_def count_pos_iff)

lemma pending_unfinished: "(t, j) \<in> pending p \<Longrightarrow> 0 < unfinished p j"
proof -
  assume "(t, j) \<in> pending p"
  then consider "j \<in> set (map snd (load_q p))" | "j \<in> set (map snd (store_q p))" | "Running t j \<in> snd ` set (threads p)"
    by (force simp: pending_def)
  then show ?thesis
    by cases (simp_all only: count_pos_iff [symmetric] unfinished_def queued_def, simp_all add: running_mem)
qed

lemma pending_set_thread:
  assumes "i < length (threads p)"
  shows "pending (set_thread i t p) \<subseteq> pending p \<union> {(a, j). t = Running a j}"
    and "pending p \<subseteq> pending (set_thread i t p) \<union> {(a, j). snd (threads p ! i) = Running a j}"
    and "{(a, j). t = Running a j} \<subseteq> pending (set_thread i t p)"
proof -
  show "pending (set_thread i t p) \<subseteq> pending p \<union> {(a, j). t = Running a j}"
    by (auto simp: pending_def set_thread_def dest!: set_update_subset_insert [THEN subsetD])
  show "pending p \<subseteq> pending (set_thread i t p) \<union> {(a, j). snd (threads p ! i) = Running a j}"
  proof -
    have "Running a j \<in> snd ` set (threads (set_thread i t p))"
      if r: "Running a j \<in> snd ` set (threads p)" "snd (threads p ! i) \<noteq> Running a j" for a j
    proof -
      from r(1) obtain n where n: "n < length (threads p)" "snd (threads p ! n) = Running a j" by (force simp: in_set_conv_nth)
      with r(2) have "threads (set_thread i t p) ! n = threads p ! n" by (cases "n = i") (auto simp: set_thread_def)
      with n show ?thesis by (metis imageI nth_mem set_thread_fields(4))
    qed
    then show ?thesis by (auto simp: pending_def)
  qed
  have "t \<in> snd ` set (threads (set_thread i t p))"
    using thread_mem [of i "set_thread i t p"] assms by (simp add: set_thread_def)
  then show "{(a, j). t = Running a j} \<subseteq> pending (set_thread i t p)" unfolding pending_def by blast
qed

lemma pop_task_pending:
  assumes "pop_task prio p = Some ((t, j), p')"
  shows "pending p' \<subseteq> pending p" "pending p \<subseteq> insert (t, j) (pending p')" "(t, j) \<in> pending p"
  using assms by (auto simp: pop_task_def pending_def split: list.splits if_splits)

lemma take_pending:
  assumes "worker_take i p = Some p'"
  shows "pending p' = pending p"
proof -
  have i: "i < length (threads p)" "snd (threads p ! i) = Idle" using assms by (auto simp: worker_take_def split: if_splits)
  show ?thesis
  proof (cases "stop p")
    case True
    with assms i have "p' = set_thread i Exited p" by (simp add: worker_take_def)
    with pending_set_thread [OF i(1), of Exited] i(2) show ?thesis by auto
  next
    case False
    with assms i obtain t j q where q: "pop_task (fst (threads p ! i)) p = Some ((t, j), q)" "p' = set_thread i (Running t j) q"
      by (auto simp: worker_take_def split: option.splits)
    have th: "threads q = threads p" by (rule pop_task_Some(3) [OF q(1)])
    note s = pending_set_thread [of i q "Running t j"] and pt = pop_task_pending [OF q(1)]
    show ?thesis using s pt i unfolding q(2) th by auto
  qed
qed


lemma take_unfinished:
  assumes "worker_take i p = Some p'"
  shows "unfinished p' j = unfinished p j" "jobs p' = jobs p"
proof -
  have i: "i < length (threads p)" "snd (threads p ! i) = Idle" using assms by (auto simp: worker_take_def split: if_splits)
  have "unfinished p' j = unfinished p j \<and> jobs p' = jobs p"
  proof (cases "stop p")
    case True
    with assms i have "p' = set_thread i Exited p" by (simp add: worker_take_def)
    with count_set_thread(1) [OF i(1), of Exited j] i(2) show ?thesis by (simp add: unfinished_def)
  next
    case False
    with assms i obtain t k q where q: "pop_task (fst (threads p ! i)) p = Some ((t, k), q)" "p' = set_thread i (Running t k) q"
      by (auto simp: worker_take_def split: option.splits)
    note pt = pop_task_Some [OF q(1)]
    have r: "running q = running p" by (simp add: fun_eq_iff running_def pt(3))
    show ?thesis
      using count_set_thread(1) [of i q "Running t k" j] pt(1) [of j] pt(2,3) i by (auto simp: unfinished_def q(2) r split: if_splits)
  qed
  then show "unfinished p' j = unfinished p j" "jobs p' = jobs p" by simp_all
qed

lemma done_pending:
  assumes "worker_done i ok raises p = Some (j, call, p')" "snd (threads p ! i) = Running t j"
  shows "pending p' \<subseteq> pending p" "pending p \<subseteq> insert (t, j) (pending p')" "(t, j) \<in> pending p"
    and "unfinished p' k + (if k = j then 1 else 0) = unfinished p k"
    and "\<exists>js. jobs p' = (jobs p)[j := js] \<and> js = fst (task_done ok raises (jobs p ! j))"
proof -
  obtain js is_completed success call' where td: "task_done ok raises (jobs p ! j) = (js, is_completed, success, call')"
    by (metis prod_cases4)
  let ?t = "if is_completed then Reporting j success else Idle" and ?p = "p\<lparr>jobs := (jobs p)[j := js]\<rparr>"
  have i: "i < length (threads p)" and p': "p' = set_thread i ?t ?p"
    using assms td by (auto simp: worker_done_def split: if_splits)
  have f: "pending ?p = pending p" "running ?p = running p" by (simp_all add: pending_def fun_eq_iff running_def)
  have t: "{(a, k). ?t = Running a k} = {}" by auto
  note s = pending_set_thread [of i ?p ?t, unfolded t f]
  show "pending p' \<subseteq> pending p" "pending p \<subseteq> insert (t, j) (pending p')"
    using s(1,2) i assms(2) unfolding p' by auto
  show "(t, j) \<in> pending p" using thread_mem [OF i] assms(2) by (simp add: pending_def)
  show "unfinished p' k + (if k = j then 1 else 0) = unfinished p k"
    using count_set_thread(1) [of i ?p ?t k] i assms(2) unfolding p' unfinished_def f by (simp split: if_splits)
  show "\<exists>js. jobs p' = (jobs p)[j := js] \<and> js = fst (task_done ok raises (jobs p ! j))" by (simp add: p' td)
qed

lemma report_pending:
  assumes "worker_report i p = Some (j, success, p')"
  shows "pending p' = pending p" "unfinished p' k = unfinished p k" "jobs p' = jobs p"
proof -
  let ?p = "p\<lparr>finished_q := finished_q p @ [(js_job_id (jobs p ! j), success)], inflight_jobs := inflight_jobs p - 1\<rparr>"
  have i: "i < length (threads p)" "snd (threads p ! i) = Reporting j success" and p': "p' = set_thread i Idle ?p"
    using assms by (auto simp: worker_report_def split: if_splits thread_state.splits)
  have f: "pending ?p = pending p" "running ?p = running p" "queued ?p = queued p"
    by (simp_all add: pending_def fun_eq_iff running_def queued_def)
  show "pending p' = pending p" using pending_set_thread [of i ?p Idle] i unfolding p' f by auto
  show "unfinished p' k = unfinished p k"
    using count_set_thread(1) [of i ?p Idle k] i unfolding p' unfinished_def f by (simp add: f)
  show "jobs p' = jobs p" by (simp add: p')
qed

lemma collect_pending:
  "pending (snd (get_finished p)) = pending p" "unfinished (snd (get_finished p)) k = unfinished p k"
  "jobs (snd (get_finished p)) = jobs p"
  by (simp_all add: get_finished_def pending_def unfinished_def queued_def running_def)

lemma shutdown_pending:
  "pending (pool_shutdown p) \<subseteq> pending p" "unfinished (pool_shutdown p) k \<le> unfinished p k"
  "jobs (pool_shutdown p) = jobs p"
  "unfinished (pool_shutdown p) k = unfinished p k \<Longrightarrow> (t, k) \<in> pending p \<Longrightarrow> (t, k) \<in> pending (pool_shutdown p)"
proof -
  show "pending (pool_shutdown p) \<subseteq> pending p" "unfinished (pool_shutdown p) k \<le> unfinished p k"
    "jobs (pool_shutdown p) = jobs p"
    by (auto simp: pool_shutdown_def pending_def unfinished_def queued_def running_def)
  assume k: "unfinished (pool_shutdown p) k = unfinished p k" "(t, k) \<in> pending p"
  then have "queued p k = 0" by (simp add: pool_shutdown_def unfinished_def queued_def running_def)
  then have "k \<notin> set (map snd (load_q p))" "k \<notin> set (map snd (store_q p))"
    by (simp_all add: queued_def count_list_0_iff del: set_map)
  with k(2) show "(t, k) \<in> pending (pool_shutdown p)" by (force simp: pending_def pool_shutdown_def)
qed

lemma enqueue_pending:
  "pending (enqueue_store job_id n tasks cb p) = pending p \<union> set (map (\<lambda>t. (t, length (jobs p))) tasks)"
  "pending (enqueue_load job_id n tasks p) = pending p \<union> set (map (\<lambda>t. (t, length (jobs p))) tasks)"
  "unfinished (enqueue_store job_id n tasks cb p) k = unfinished p k + (if k = length (jobs p) then length tasks else 0)"
  "unfinished (enqueue_load job_id n tasks p) k = unfinished p k + (if k = length (jobs p) then length tasks else 0)"
  "jobs (enqueue_store job_id n tasks cb p) = jobs p @ [new_job_state job_id n cb]"
  "jobs (enqueue_load job_id n tasks p) = jobs p @ [new_job_state job_id n None]"
  by (auto simp: enqueue_store_def enqueue_load_def pending_def unfinished_def queued_def running_def comp_def count_list_map_const)


section \<open>The primary memory keeps its size\<close>

lemma length_load_many:
  "load_many iov tx keys buf ids locs iob io sh s = (r, buf', sh', s') \<Longrightarrow> length buf' = length buf"
  using load_many_kept by (auto simp: kept_outside_def)

lemma length_load_step: "length (load_view (snd (load_step out fc))) = length (load_view (snd fc))"
  by (cases fc) (auto simp: load_step_def Let_def split: load_pc.splits sys_outcome.splits option.splits)

lemma length_load_steps: "length (load_view (snd (fold load_step outs fc))) = length (load_view (snd fc))"
  by (induction outs arbitrary: fc) (simp_all add: length_load_step)

lemma length_load_block:
  assumes "load_block outs files (start_load path buf off bs) = (files', c)"
  shows "length (splice off (load_view c) buf) = length buf"
proof (rule length_splice_clipped)
  have "length (load_view c) = min (length buf - off) bs"
    using length_load_steps [of "take 3 (outs @ replicate 3 Works)" "(files, start_load path buf off bs)"] assms
    unfolding load_block_def by (simp add: start_load_def)
  then show "off + length (load_view c) \<le> length buf \<or> load_view c = []"
    by (cases "off \<le> length buf") auto
qed

section \<open>The effect of a task\<close>

definition tier_static :: "fs_manager \<Rightarrow> bool" where
  "tier_static m \<longleftrightarrow> 0 < fm_io_batch m \<and> 0 < fm_block_size m \<and>
     (\<exists>s. fm_segment m = Some s \<and> block_size s = fm_block_size m \<and> fm_block_size m \<le> segment_size_bytes s \<and> 0 < segment_shards s)"

lemma tier_static_cache:
  assumes "tier_static m" "fm_segment m = Some s" "fm_segment m' = Some s'" "fm_io_batch m' = fm_io_batch m" "fm_block_size m' = fm_block_size m"
    "block_size s' = block_size s" "segment_size_bytes s' = segment_size_bytes s" "segment_shards s' = segment_shards s"
  shows "tier_static m'"
  using assms by (simp add: tier_static_def)

lemma tier_static_upd [simp]:
  "tier_static (m\<lparr>fm_pool := p\<rparr>) = tier_static m" "tier_static (m\<lparr>fm_lookups := a\<rparr>) = tier_static m"
  by (simp_all add: tier_static_def)

text \<open>The index only loses blocks, and the allocator does not notice.\<close>

definition index_shrinks :: "segment_shared \<Rightarrow> segment_shared \<Rightarrow> bool" where
  "index_shrinks sh sh' \<longleftrightarrow> (\<forall>plans. index_inv (sh, plans) \<longrightarrow> index_inv (sh', plans)) \<and>
     (\<forall>k l. map_of (db_blocks sh') k = Some l \<longrightarrow> map_of (db_blocks sh) k = Some l)"

lemma index_shrinks_refl [simp]: "index_shrinks sh sh"
  by (simp add: index_shrinks_def)

lemma index_inv_cong:
  assumes "db_blocks sh' = db_blocks sh" "db_meta sh' = db_meta sh"
  shows "index_inv (sh', plans) = index_inv (sh, plans)"
proof -
  have h: "has_shard_state sh' = has_shard_state sh" "meta_shards 0 sh' = meta_shards 0 sh" "latest_segment sh' = latest_segment sh"
    "keys_distinct sh' = keys_distinct sh"
    unfolding has_shard_state_def meta_shards_def latest_segment_def keys_distinct_def assms by (rule refl)+
  then have "shards_ok sh' = shards_ok sh" by (simp add: shards_ok_def assms)
  with h have "db_alloc_ok sh' xs = db_alloc_ok sh xs" for xs by (simp only: db_alloc_ok_def assms)
  with h show ?thesis by (simp only: index_inv_def assms prod.case)
qed

lemma index_shrinks_cong: "db_blocks sh' = db_blocks sh \<Longrightarrow> db_meta sh' = db_meta sh \<Longrightarrow> index_shrinks sh sh'"
  using index_inv_cong [of sh' sh] by (auto simp: index_shrinks_def)

lemma delete_shrinks:
  assumes "delete tx keys sh s = (r, sh', s')"
  shows "index_shrinks sh sh'" "seg_files sh' = seg_files sh" "block_size s' = block_size s"
    "segment_size_bytes s' = segment_size_bytes s" "segment_shards s' = segment_shards s"
proof -
  have "index_inv (sh', plans)" if "index_inv (sh, plans)" for plans
    using index_step_inv [of "DeleteOp s tx keys", OF _ that] by (simp add: assms)
  then show "index_shrinks sh sh'" using delete_correct [OF assms] unfolding index_shrinks_def
    by (cases tx) (auto split: if_splits)
  show "seg_files sh' = seg_files sh" using delete_correct [OF assms] by simp
  show "block_size s' = block_size s" "segment_size_bytes s' = segment_size_bytes s" "segment_shards s' = segment_shards s"
    using assms by (auto simp: delete_def Let_def split: if_splits)
qed

lemma load_many_shrinks:
  assumes "load_many iov tx keys buf ids (Some locs) iob io sh s = (r, buf', sh', s')"
  shows "index_shrinks sh sh'" "seg_files sh' = seg_files sh" "block_size s' = block_size s"
    "segment_size_bytes s' = segment_size_bytes s" "segment_shards s' = segment_shards s"
proof -
  have "sh' = sh \<and> s' = s \<or> (\<exists>r. delete tx keys sh s = (r, sh', s'))"
    using assms by (auto simp: load_many_def Let_def split: if_splits prod.splits sum.splits)
  then show "index_shrinks sh sh'" "seg_files sh' = seg_files sh" "block_size s' = block_size s"
    "segment_size_bytes s' = segment_size_bytes s" "segment_shards s' = segment_shards s"
    using delete_shrinks by (metis index_shrinks_refl)+
qed


text \<open>An entry's block is on disk, with the bytes of its source in \<open>view\<close>.\<close>

definition holds :: "nat \<Rightarrow> (nat \<times> bytes) list \<Rightarrow> bytes \<Rightarrow> segment_write \<Rightarrow> bool" where
  "holds bs files view e \<longleftrightarrow> present files (sw_segment_id e) (sw_offset e) bs \<and>
     content files (sw_segment_id e) (sw_offset e) bs = view_of bs (sw_block_id e) view"

lemma write_task_effect:
  assumes r: "run_task env (WriteEntries es) (m, w) = (r, m1, w1)" and m: "tier_static m" and env: "0 < te_iov env"
  shows "m1 = m" "w_view w1 = w_view w" "index_shrinks (w_shared w) (w_shared w1)"
    and "present (seg_files (w_shared w)) sid off len \<Longrightarrow> 0 < len \<Longrightarrow>
      \<forall>e \<in> set es. \<not> overlap \<lparr>ex_seg = sid, ex_start = off, ex_end = off + len\<rparr> (extent_of (fm_block_size m) e) \<Longrightarrow>
      kept sid off len (seg_files (w_shared w)) (seg_files (w_shared w1))"
    and "\<not> isl r \<Longrightarrow> \<forall>e \<in> set es. block_in (fm_block_size m) (w_view w) (sw_block_id e) \<Longrightarrow>
      no_overlap (map (extent_of (fm_block_size m)) es) \<Longrightarrow> e \<in> set es \<Longrightarrow>
      holds (fm_block_size m) (seg_files (w_shared w1)) (w_view w) e"
proof -
  from m obtain s where s: "fm_segment m = Some s" "block_size s = fm_block_size m" "0 < fm_block_size m" "0 < fm_io_batch m"
    by (auto simp: tier_static_def)
  obtain sh where w: "write_entries (te_iov env) (Some (fm_io_batch m)) es (w_view w) (te_io env) (w_shared w) s = (r, sh)"
    and e: "m1 = m" "w1 = w\<lparr>w_shared := sh\<rparr>"
    using r s(1) by (auto split: prod.splits)
  show "m1 = m" "w_view w1 = w_view w" by (simp_all add: e)
  show "index_shrinks (w_shared w) (w_shared w1)"
    using write_entries_index [OF w] by (simp add: e index_shrinks_cong)
  show "kept sid off len (seg_files (w_shared w)) (seg_files (w_shared w1))"
    if "present (seg_files (w_shared w)) sid off len" "0 < len"
      "\<forall>e \<in> set es. \<not> overlap \<lparr>ex_seg = sid, ex_start = off, ex_end = off + len\<rparr> (extent_of (fm_block_size m) e)"
    using write_entries_kept [OF w that(1,2)] that(3) s by (simp add: e)
  show "holds (fm_block_size m) (seg_files (w_shared w1)) (w_view w) e"
    if ok: "\<not> isl r" "\<forall>e \<in> set es. block_in (fm_block_size m) (w_view w) (sw_block_id e)"
      "no_overlap (map (extent_of (fm_block_size m)) es)" "e \<in> set es"
  proof -
    from ok(1) obtain u where u: "r = Inr u" by (cases r) auto
    have "0 < batch_limit (te_iov env) (Some (fm_io_batch m))" using env s(4) by (simp add: batch_limit_def)
    from write_entries_success [OF w [unfolded u] this] ok(2) s(2)
    have "sh = (w_shared w)\<lparr>seg_files := fold (write_block (fm_block_size m) (w_view w)) es (seg_files (w_shared w))\<rparr>" by simp
    with write_blocks_all [OF ok(2,3) s(3), of "seg_files (w_shared w)"] ok(4) show ?thesis by (simp add: e holds_def)
  qed
qed

lemma other_task_effect:
  assumes r: "run_task env t (m, w) = (r, m1, w1)" and m: "tier_static m" and t: "\<forall>es. t \<noteq> WriteEntries es"
  shows "tier_static m1 \<and> length (w_view w1) = length (w_view w) \<and> index_shrinks (w_shared w) (w_shared w1) \<and>
    seg_files (w_shared w1) = seg_files (w_shared w)"
proof -
  from m obtain s where s: "fm_segment m = Some s" by (auto simp: tier_static_def)
  show ?thesis
  proof (cases t)
    case (LoadBlock path b)
    with r m show ?thesis by (auto simp: length_load_block split: prod.splits)
  next
    case (LoadMany chunk)
    obtain v sh s' where l: "load_many (te_iov env) (te_tx env) (map fst chunk) (w_view w) (map (fst \<circ> snd) chunk)
        (Some (map (Some \<circ> snd \<circ> snd) chunk)) (Some (fm_io_batch m)) (te_io env) (w_shared w) s = (r, v, sh, s')"
      and e: "m1 = m\<lparr>fm_segment := Some s'\<rparr>" "w1 = w\<lparr>w_shared := sh, w_view := v\<rparr>"
      using r s by (auto simp: LoadMany split: prod.splits)
    show ?thesis using load_many_shrinks [OF l] length_load_many [OF l] tier_static_cache [OF m s, of m1 s'] by (simp add: e)
  qed (use r m t in \<open>auto split: prod.splits\<close>)
qed

lemma kept_refl: "present f sid off len \<Longrightarrow> kept sid off len f f"
  by (simp add: kept_def)

lemma task_effect:
  assumes r: "run_task env t (m, w) = (r, m1, w1)" and m: "tier_static m" and env: "0 < te_iov env"
  shows "tier_static m1" "length (w_view w1) = length (w_view w)" "index_shrinks (w_shared w) (w_shared w1)"
    and "present (seg_files (w_shared w)) sid off len \<Longrightarrow> 0 < len \<Longrightarrow>
      \<forall>e \<in> set (task_entries t). \<not> overlap \<lparr>ex_seg = sid, ex_start = off, ex_end = off + len\<rparr> (extent_of (fm_block_size m) e) \<Longrightarrow>
      kept sid off len (seg_files (w_shared w)) (seg_files (w_shared w1))"
    and "\<not> isl r \<Longrightarrow> \<forall>e \<in> set (task_entries t). block_in (fm_block_size m) (w_view w) (sw_block_id e) \<Longrightarrow>
      no_overlap (map (extent_of (fm_block_size m)) (task_entries t)) \<Longrightarrow> e \<in> set (task_entries t) \<Longrightarrow>
      holds (fm_block_size m) (seg_files (w_shared w1)) (w_view w) e"
proof -
  consider es where "t = WriteEntries es" | "\<forall>es. t \<noteq> WriteEntries es" by blast
  note ts = this
  have "tier_static m1 \<and> length (w_view w1) = length (w_view w) \<and> index_shrinks (w_shared w) (w_shared w1)"
  proof (cases rule: ts)
    case (1 es)
    from write_task_effect(1-3) [OF r [unfolded 1] m env] m show ?thesis by simp
  next
    case 2
    from other_task_effect [OF r m 2] show ?thesis by blast
  qed
  then show "tier_static m1" "length (w_view w1) = length (w_view w)" "index_shrinks (w_shared w) (w_shared w1)" by blast+
  show "kept sid off len (seg_files (w_shared w)) (seg_files (w_shared w1))"
    if p: "present (seg_files (w_shared w)) sid off len" "0 < len"
      "\<forall>e \<in> set (task_entries t). \<not> overlap \<lparr>ex_seg = sid, ex_start = off, ex_end = off + len\<rparr> (extent_of (fm_block_size m) e)"
  proof (cases rule: ts)
    case (1 es)
    with write_task_effect(4) [OF r [unfolded 1] m env p(1,2)] p(3) show ?thesis by (simp add: task_entries_def)
  next
    case 2
    from other_task_effect [OF r m 2] kept_refl [OF p(1)] show ?thesis by simp
  qed
  show "holds (fm_block_size m) (seg_files (w_shared w1)) (w_view w) e"
    if p: "\<not> isl r" "\<forall>e \<in> set (task_entries t). block_in (fm_block_size m) (w_view w) (sw_block_id e)"
      "no_overlap (map (extent_of (fm_block_size m)) (task_entries t))" "e \<in> set (task_entries t)"
  proof (cases rule: ts)
    case (1 es)
    with write_task_effect(5) [OF r [unfolded 1] m env p(1)] p(2-) show ?thesis by (simp add: task_entries_def)
  next
    case 2
    with p(4) show ?thesis by (cases t) (simp_all add: task_entries_def)
  qed
qed

lemma callback_effect:
  assumes r: "run_callback tx plan success (m, w) = (r, m', w')" and m: "tier_static m"
  shows "tier_static m'" "w_view w' = w_view w" "seg_files (w_shared w') = seg_files (w_shared w)"
    and "i < length plans \<Longrightarrow> plans ! i = (fm_block_size m, plan) \<Longrightarrow> index_inv (w_shared w, plans) \<Longrightarrow> index_inv (w_shared w', plans)"
    and "map_of (db_blocks (w_shared w')) k = Some l \<Longrightarrow> map_of (db_blocks (w_shared w)) k = Some l \<or>
      success \<and> (\<exists>e \<in> set plan. sw_key e = k \<and> l = entry_location (fm_block_size m, e))"
proof -
  from m obtain s where s: "fm_segment m = Some s" "block_size s = fm_block_size m" by (auto simp: tier_static_def)
  obtain sh s' where c: "complete_store tx plan success (w_shared w) s = (r, sh, s')"
    and e: "m' = m\<lparr>fm_segment := Some s'\<rparr>" "w' = w\<lparr>w_shared := sh\<rparr>"
    using r s(1) by (auto simp: run_callback_def split: prod.splits)
  have sh: "sh = (if success \<and> tx then (w_shared w)\<lparr>db_blocks := fold (\<lambda>e d. setdefault (sw_key e) (entry_location (block_size s, e)) d)
      plan (db_blocks (w_shared w))\<rparr> else w_shared w)"
    using complete_store_shared [of tx plan success "w_shared w" s] by (simp add: c)
  have "block_size s' = block_size s" "segment_size_bytes s' = segment_size_bytes s" "segment_shards s' = segment_shards s"
    using c by (auto simp: complete_store_def get_locations_def Let_def split: if_splits prod.splits)
  from tier_static_cache [OF m s(1) _ _ _ this, of m'] show "tier_static m'" by (simp add: e)
  show "w_view w' = w_view w" "seg_files (w_shared w') = seg_files (w_shared w)" by (simp_all add: e sh)
  show "index_inv (w_shared w', plans)"
    if "i < length plans" "plans ! i = (fm_block_size m, plan)" "index_inv (w_shared w, plans)"
    using index_step_inv [of "CompleteOp s tx success i", OF _ that(3)] that(1,2) by (simp add: s(2) c e)
  show "map_of (db_blocks (w_shared w)) k = Some l \<or> success \<and> (\<exists>e \<in> set plan. sw_key e = k \<and> l = entry_location (fm_block_size m, e))"
    if k: "map_of (db_blocks (w_shared w')) k = Some l"
  proof (cases "success \<and> tx")
    case True
    with k have "map_of (fold (\<lambda>e d. setdefault (sw_key e) (entry_location (block_size s, e)) d) plan (db_blocks (w_shared w))) k = Some l"
      by (simp add: e sh)
    from map_of_insert_entries [OF this] True show ?thesis by (auto simp: s(2))
  next
    case False
    with k show ?thesis by (auto simp: e sh)
  qed
qed

end
