(* ===== verification/Fs_Stable.thy ===== *)
theory Fs_Stable
  imports Fs_Effects
begin

text \<open>
  Blocks at rest stay what they are: from the moment a store is indexed, no later store, load,
  deletion or shutdown, in any interleaving with the pool's threads, changes the bytes
  of the block. The invariant relates the allocator's plans to the pool's jobs.
\<close>

section \<open>Jobs and plans\<close>

definition job_plan :: "segment_write list job_state \<Rightarrow> segment_write list" where
  "job_plan js = (case on_complete js of None \<Rightarrow> [] | Some es \<Rightarrow> es)"

definition plans_of :: "nat \<Rightarrow> (fs_task, segment_write list) pool \<Rightarrow> plans" where
  "plans_of bs p = map (\<lambda>js. (bs, job_plan js)) (jobs p)"

lemma sorted_wrt_concatD:
  assumes "sorted_wrt P (concat xss)"
  shows "i < length xss \<Longrightarrow> sorted_wrt P (xss ! i)"
    and "i < j \<Longrightarrow> j < length xss \<Longrightarrow> x \<in> set (xss ! i) \<Longrightarrow> y \<in> set (xss ! j) \<Longrightarrow> P x y"
  using assms
proof (induction xss arbitrary: i j)
  case (Cons xs xss)
  {
    case 1
    with Cons.IH(1) show ?case by (cases i) (simp_all add: sorted_wrt_append)
  next
    case 2
    then obtain j' where j: "j = Suc j'" by (cases j) auto
    show ?case
    proof (cases i)
      case 0
      have "xss ! j' \<in> set xss" "y \<in> set (xss ! j')" using 2 j by simp_all
      then have "y \<in> set (concat xss)" by auto
      with 2 0 show ?thesis by (auto simp: sorted_wrt_append)
    next
      case (Suc i')
      with 2 j Cons.IH(2) [of i' j'] show ?thesis by (simp add: sorted_wrt_append)
    qed
  }
qed simp_all

lemma plans_no_overlap:
  assumes "index_inv (sh, plans_of bs p)"
  shows "no_overlap (concat (map (\<lambda>js. map (extent_of bs) (job_plan js)) (jobs p)))"
proof -
  from assms obtain xs where xs: "mset xs = mset (map entry_extent (plan_entries (plans_of bs p)))" "db_alloc_ok sh xs"
    by (auto simp: index_inv_def)
  have "no_overlap xs" using xs(2) by (simp add: db_alloc_ok_def alloc_ok_def split: if_splits)
  then have "no_overlap (map entry_extent (plan_entries (plans_of bs p)))" by (rule no_overlap_perm [OF xs(1)])
  moreover have "map entry_extent (plan_entries (plans_of bs p)) = concat (map (\<lambda>js. map (extent_of bs) (job_plan js)) (jobs p))"
    by (simp add: plan_entries_def plans_of_def map_concat comp_def)
  ultimately show ?thesis by simp
qed

lemma plan_no_overlap:
  "index_inv (sh, plans_of bs p) \<Longrightarrow> j < length (jobs p) \<Longrightarrow> no_overlap (map (extent_of bs) (job_plan (jobs p ! j)))"
  using sorted_wrt_concatD(1) [OF plans_no_overlap, of sh bs p j] by simp

lemma plans_apart:
  assumes inv: "index_inv (sh, plans_of bs p)" and j: "j < length (jobs p)" "j' < length (jobs p)"
    and e: "e \<in> set (job_plan (jobs p ! j))" "e' \<in> set (job_plan (jobs p ! j'))" and d: "j \<noteq> j' \<or> e \<noteq> e'"
  shows "\<not> overlap (extent_of bs e) (extent_of bs e')"
proof -
  note s = sorted_wrt_concatD [OF plans_no_overlap [OF inv]]
  show ?thesis
  proof (cases "j = j'")
    case True
    with no_overlap_different [OF plan_no_overlap [OF inv j(1)]] e d show ?thesis by simp
  next
    case False
    then consider "j < j'" | "j' < j" by linarith
    then show ?thesis
    proof cases
      case 1
      with s(2) [OF this, of "extent_of bs e" "extent_of bs e'"] j e show ?thesis by simp
    next
      case 2
      with s(2) [OF this, of "extent_of bs e'" "extent_of bs e"] j e show ?thesis by (simp add: overlap_sym)
    qed
  qed
qed

section \<open>The invariant\<close>

text \<open>A location that a completed job has written.\<close>

definition settled :: "nat \<Rightarrow> (fs_task, segment_write list) pool \<Rightarrow> segment_location \<Rightarrow> bool" where
  "settled bs p l \<longleftrightarrow> (\<exists>j < length (jobs p). completed (jobs p ! j) = n_tasks (jobs p ! j) \<and>
     (\<exists>e \<in> set (job_plan (jobs p ! j)). l = entry_location (bs, e)))"

definition pending_ok :: "nat \<Rightarrow> (fs_task, segment_write list) pool \<Rightarrow> bool" where
  "pending_ok bs p \<longleftrightarrow> (\<forall>t j. (t, j) \<in> pending p \<longrightarrow> j < length (jobs p) \<and>
     set (task_entries t) \<subseteq> set (job_plan (jobs p ! j)) \<and> no_overlap (map (extent_of bs) (task_entries t)))"

definition sources_in :: "nat \<Rightarrow> (fs_task, segment_write list) pool \<Rightarrow> bytes \<Rightarrow> bool" where
  "sources_in bs p view \<longleftrightarrow> (\<forall>js \<in> set (jobs p). \<forall>e \<in> set (job_plan js). block_in bs view (sw_block_id e))"

text \<open>While a job can still succeed, its blocks are good or about to be written.\<close>

definition progress_ok :: "(fs_task, segment_write list) pool \<Rightarrow> (nat \<Rightarrow> segment_write \<Rightarrow> bool) \<Rightarrow> bool" where
  "progress_ok p good \<longleftrightarrow> (\<forall>j < length (jobs p).
     js_success (jobs p ! j) \<and> completed (jobs p ! j) + unfinished p j = n_tasks (jobs p ! j) \<longrightarrow>
     (\<forall>e \<in> set (job_plan (jobs p ! j)). (\<exists>t. (t, j) \<in> pending p \<and> e \<in> set (task_entries t)) \<or> good j e))"

abbreviation on_disk :: "nat \<Rightarrow> (nat \<times> bytes) list \<Rightarrow> nat \<Rightarrow> segment_write \<Rightarrow> bool" where
  "on_disk bs files \<equiv> \<lambda>_ e. present files (sw_segment_id e) (sw_offset e) bs"

definition at_rest :: "nat \<Rightarrow> (fs_task, segment_write list) pool \<Rightarrow> (nat \<times> bytes) list \<Rightarrow> segment_location \<Rightarrow> bool" where
  "at_rest bs p files l \<longleftrightarrow> settled bs p l \<and> present files (segment_id l) (offset l) bs"

definition rest_inv :: "fs_manager \<Rightarrow> fs_world \<Rightarrow> bool" where
  "rest_inv m w \<longleftrightarrow> tier_static m \<and> index_inv (w_shared w, plans_of (fm_block_size m) (fm_pool m)) \<and>
     pending_ok (fm_block_size m) (fm_pool m) \<and> sources_in (fm_block_size m) (fm_pool m) (w_view w) \<and>
     progress_ok (fm_pool m) (on_disk (fm_block_size m) (seg_files (w_shared w))) \<and>
     (\<forall>k l. map_of (db_blocks (w_shared w)) k = Some l \<longrightarrow>
        at_rest (fm_block_size m) (fm_pool m) (seg_files (w_shared w)) l)"

definition rests :: "fs_manager \<times> fs_world \<Rightarrow> fs_manager \<times> fs_world \<Rightarrow> bool" where
  "rests = (\<lambda>(m, w) (m', w'). fm_block_size m' = fm_block_size m \<and>
     (\<forall>l. at_rest (fm_block_size m) (fm_pool m) (seg_files (w_shared w)) l \<longrightarrow>
        settled (fm_block_size m) (fm_pool m') l \<and>
        kept (segment_id l) (offset l) (fm_block_size m) (seg_files (w_shared w)) (seg_files (w_shared w'))))"

lemma block_in_length: "length view' = length view \<Longrightarrow> block_in bs view' b = block_in bs view b"
  by (simp add: block_in_def)

text \<open>Steps in which no job is submitted and no task ends.\<close>

definition quiet_step :: "fs_manager \<Rightarrow> fs_world \<Rightarrow> fs_manager \<Rightarrow> fs_world \<Rightarrow> bool" where
  "quiet_step m w m' w' \<longleftrightarrow> tier_static m' \<and> fm_block_size m' = fm_block_size m \<and>
     index_shrinks (w_shared w) (w_shared w') \<and> seg_files (w_shared w') = seg_files (w_shared w) \<and>
     length (w_view w') = length (w_view w) \<and> jobs (fm_pool m') = jobs (fm_pool m) \<and> pending (fm_pool m') \<subseteq> pending (fm_pool m) \<and>
     (\<forall>j. unfinished (fm_pool m') j \<le> unfinished (fm_pool m) j) \<and>
     (\<forall>t j. unfinished (fm_pool m') j = unfinished (fm_pool m) j \<longrightarrow> (t, j) \<in> pending (fm_pool m) \<longrightarrow> (t, j) \<in> pending (fm_pool m'))"

lemma quiet_stepD:
  assumes "quiet_step m w m' w'"
  shows "tier_static m'" "fm_block_size m' = fm_block_size m" "index_shrinks (w_shared w) (w_shared w')"
    "seg_files (w_shared w') = seg_files (w_shared w)" "length (w_view w') = length (w_view w)"
    "jobs (fm_pool m') = jobs (fm_pool m)" "pending (fm_pool m') \<subseteq> pending (fm_pool m)"
    "unfinished (fm_pool m') j \<le> unfinished (fm_pool m) j"
    "unfinished (fm_pool m') j = unfinished (fm_pool m) j \<Longrightarrow> (t, j) \<in> pending (fm_pool m) \<Longrightarrow> (t, j) \<in> pending (fm_pool m')"
  using assms unfolding quiet_step_def by blast+

lemma quiet_progress:
  assumes q: "quiet_step m w m' w'" and pool: "pool_inv ls (fm_pool m)" and ok: "progress_ok (fm_pool m) good"
  shows "progress_ok (fm_pool m') good"
proof -
  have "completed (jobs (fm_pool m) ! j) + unfinished (fm_pool m) j = n_tasks (jobs (fm_pool m) ! j) \<and>
      unfinished (fm_pool m') j = unfinished (fm_pool m) j"
    if "j < length (jobs (fm_pool m))" "completed (jobs (fm_pool m) ! j) + unfinished (fm_pool m') j = n_tasks (jobs (fm_pool m) ! j)" for j
    using job_okD(4) [OF pool_invD(2) [OF pool that(1)]] that(2) quiet_stepD(8) [OF q, of j] by (simp add: unfinished_def)
  with ok quiet_stepD(9) [OF q] show ?thesis unfolding progress_ok_def quiet_stepD(6) [OF q] by blast
qed

lemma rest_quiet:
  assumes inv: "rest_inv m w" and pool: "pool_inv ls (fm_pool m)" and q: "quiet_step m w m' w'"
  shows "rest_inv m' w' \<and> rests (m, w) (m', w')"
proof -
  note f = quiet_stepD [OF q]
  have settled: "settled bs (fm_pool m') l = settled bs (fm_pool m) l" for bs l by (simp add: settled_def f(6))
  have "plans_of bs (fm_pool m') = plans_of bs (fm_pool m)" for bs by (simp add: plans_of_def f(6))
  moreover have "pending_ok bs (fm_pool m')" if "pending_ok bs (fm_pool m)" for bs
    using that f(7) by (auto simp: pending_ok_def f(6))
  moreover have "sources_in bs (fm_pool m') (w_view w')" if "sources_in bs (fm_pool m) (w_view w)" for bs
    using that by (simp add: sources_in_def f(6) block_in_length [OF f(5)])
  moreover have "at_rest bs (fm_pool m') files l = at_rest bs (fm_pool m) files l" for bs files l by (simp add: at_rest_def settled)
  ultimately have "rest_inv m' w'"
    using inv f(1,3) quiet_progress [OF q pool] unfolding rest_inv_def index_shrinks_def f(2,4) by (simp, blast)
  moreover have "rests (m, w) (m', w')"
    by (auto simp: rests_def at_rest_def settled f(2,4) kept_refl)
  ultimately show ?thesis by blast
qed

text \<open>Steps that submit a job; what is to be loaded from segments has been located.\<close>

definition load_entries_of :: "fs_task \<Rightarrow> (offload_key \<times> nat \<times> segment_location) set" where
  "load_entries_of t = (case t of LoadMany chunk \<Rightarrow> set chunk | _ \<Rightarrow> {})"

definition submit_step :: "fs_manager \<Rightarrow> fs_world \<Rightarrow> fs_manager \<Rightarrow> fs_world \<Rightarrow> segment_write list job_state \<Rightarrow> fs_task list \<Rightarrow> bool" where
  "submit_step m w m' w' js tasks \<longleftrightarrow> tier_static m' \<and> fm_block_size m' = fm_block_size m \<and>
     db_blocks (w_shared w') = db_blocks (w_shared w) \<and> seg_files (w_shared w') = seg_files (w_shared w) \<and> w_view w' = w_view w \<and>
     jobs (fm_pool m') = jobs (fm_pool m) @ [js] \<and>
     pending (fm_pool m') = pending (fm_pool m) \<union> set (map (\<lambda>t. (t, length (jobs (fm_pool m)))) tasks) \<and>
     (\<forall>k. unfinished (fm_pool m') k = unfinished (fm_pool m) k + (if k = length (jobs (fm_pool m)) then length tasks else 0)) \<and>
     mset (concat (map task_entries tasks)) = mset (job_plan js) \<and>
     index_inv (w_shared w', plans_of (fm_block_size m) (fm_pool m) @ [(fm_block_size m, job_plan js)]) \<and>
     (\<forall>e \<in> set (job_plan js). block_in (fm_block_size m) (w_view w) (sw_block_id e)) \<and>
     (\<forall>t \<in> set tasks. \<forall>(k, b, l) \<in> load_entries_of t. \<exists>s. fm_segment m = Some s \<and> locate (w_shared w) s k = Some l)"

lemma submit_stepD:
  assumes "submit_step m w m' w' js tasks"
  shows "tier_static m'" "fm_block_size m' = fm_block_size m"
    "db_blocks (w_shared w') = db_blocks (w_shared w)" "seg_files (w_shared w') = seg_files (w_shared w)" "w_view w' = w_view w"
    "jobs (fm_pool m') = jobs (fm_pool m) @ [js]"
    "pending (fm_pool m') = pending (fm_pool m) \<union> set (map (\<lambda>t. (t, length (jobs (fm_pool m)))) tasks)"
    "unfinished (fm_pool m') k = unfinished (fm_pool m) k + (if k = length (jobs (fm_pool m)) then length tasks else 0)"
    "mset (concat (map task_entries tasks)) = mset (job_plan js)"
    "index_inv (w_shared w', plans_of (fm_block_size m) (fm_pool m) @ [(fm_block_size m, job_plan js)])"
    "\<forall>e \<in> set (job_plan js). block_in (fm_block_size m) (w_view w) (sw_block_id e)"
    "t \<in> set tasks \<Longrightarrow> (q, b, l) \<in> load_entries_of t \<Longrightarrow> \<exists>s. fm_segment m = Some s \<and> locate (w_shared w) s q = Some l"
  using assms unfolding submit_step_def by blast+

section \<open>Steps keep the invariant\<close>

lemma no_overlap_task:
  assumes "no_overlap (map f plan)" "mset (concat (map task_entries tasks)) = mset plan" "t \<in> set tasks"
  shows "no_overlap (map f (task_entries t))"
proof -
  have "mset (map f (concat (map task_entries tasks))) = mset (map f plan)" using assms(2) by (simp only: mset_map)
  from no_overlap_perm [OF this [symmetric] assms(1)] have no: "no_overlap (concat (map (map f \<circ> task_entries) tasks))"
    by (simp add: map_concat comp_def)
  from assms(3) obtain i where i: "i < length tasks" "tasks ! i = t" by (auto simp: in_set_conv_nth)
  with sorted_wrt_concatD(1) [OF no, of i] show ?thesis by simp
qed

lemma submit_nth:
  "submit_step m w m' w' js tasks \<Longrightarrow> j < length (jobs (fm_pool m')) \<Longrightarrow>
     jobs (fm_pool m') ! j = (if j < length (jobs (fm_pool m)) then jobs (fm_pool m) ! j else js)"
  by (auto simp: submit_stepD(6) nth_append less_Suc_eq)

lemma submit_progress:
  assumes s: "submit_step m w m' w' js tasks" and ok: "progress_ok (fm_pool m) good"
    and same: "\<And>j e. j < length (jobs (fm_pool m)) \<Longrightarrow> good j e \<Longrightarrow> good' j e"
  shows "progress_ok (fm_pool m') good'"
  unfolding progress_ok_def
proof (intro allI impI ballI)
  let ?p = "fm_pool m" and ?p' = "fm_pool m'" and ?n = "length (jobs (fm_pool m))"
  note f = submit_stepD [OF s]
  fix j e
  assume j: "j < length (jobs ?p')"
    and c: "js_success (jobs ?p' ! j) \<and> completed (jobs ?p' ! j) + unfinished ?p' j = n_tasks (jobs ?p' ! j)"
    and e: "e \<in> set (job_plan (jobs ?p' ! j))"
  show "(\<exists>t. (t, j) \<in> pending ?p' \<and> e \<in> set (task_entries t)) \<or> good' j e"
  proof (cases "j < ?n")
    case True
    have "(\<exists>t. (t, j) \<in> pending ?p \<and> e \<in> set (task_entries t)) \<or> good j e"
      using ok c e True by (simp add: progress_ok_def submit_nth [OF s j] f(8))
    with same [OF True] show ?thesis unfolding f(7) by blast
  next
    case False
    then have "j = ?n" using j by (simp add: f(6))
    moreover from this e have "e \<in> set (concat (map task_entries tasks))"
      using mset_eq_setD [OF f(9)] by (simp add: f(6))
    ultimately show ?thesis by (auto simp: f(7))
  qed
qed

lemma rest_submit:
  assumes inv: "rest_inv m w" and s: "submit_step m w m' w' js tasks"
  shows "rest_inv m' w' \<and> rests (m, w) (m', w')"
proof -
  let ?bs = "fm_block_size m" and ?p = "fm_pool m" and ?p' = "fm_pool m'" and ?n = "length (jobs (fm_pool m))"
  note i = inv [unfolded rest_inv_def] and f = submit_stepD [OF s]
  have iv: "index_inv (w_shared w', plans_of ?bs ?p')" using f(10) by (simp add: plans_of_def f(6))
  have settled: "settled ?bs ?p' l" if l: "settled ?bs ?p l" for l
  proof -
    from l obtain j e where j: "j < ?n" "completed (jobs ?p ! j) = n_tasks (jobs ?p ! j)" "e \<in> set (job_plan (jobs ?p ! j))"
      "l = entry_location (?bs, e)" by (auto simp: settled_def)
    then have "j < length (jobs ?p')" "jobs ?p' ! j = jobs ?p ! j" by (simp_all add: f(6) nth_append)
    with j show ?thesis unfolding settled_def by metis
  qed
  have no: "no_overlap (map (extent_of ?bs) (job_plan js))"
    using plan_no_overlap [OF iv, of ?n] by (simp add: f(6))
  have new: "set (task_entries t) \<subseteq> set (job_plan js)" if "t \<in> set tasks" for t
    using mset_eq_setD [OF f(9)] that by auto
  have "pending_ok ?bs ?p'"
    using i no_overlap_task [OF no f(9)] new unfolding pending_ok_def f(7)
    by (fastforce simp: f(6) nth_append)
  moreover have "sources_in ?bs ?p' (w_view w')" using i f(11) by (auto simp: sources_in_def f(5,6))
  moreover have "progress_ok ?p' (on_disk ?bs (seg_files (w_shared w')))"
    unfolding f(4) by (rule submit_progress [OF s, of "on_disk ?bs (seg_files (w_shared w))"]) (use i in blast)+
  ultimately have "rest_inv m' w'"
    using i f(1) iv settled unfolding rest_inv_def at_rest_def f(2-4) by blast
  moreover have "rests (m, w) (m', w')" using settled by (auto simp: rests_def at_rest_def f(2,4) kept_refl)
  ultimately show ?thesis by blast
qed

text \<open>A task of a job is counted.\<close>

definition counted :: "(fs_task, segment_write list) pool \<Rightarrow> fs_task \<Rightarrow> nat \<Rightarrow> bool \<Rightarrow> (fs_task, segment_write list) pool \<Rightarrow> bool" where
  "counted p t j ok p' \<longleftrightarrow> (t, j) \<in> pending p \<and> pending p' \<subseteq> pending p \<and> pending p \<subseteq> insert (t, j) (pending p') \<and>
     (\<forall>k. unfinished p' k + (if k = j then 1 else 0) = unfinished p k) \<and> length (jobs p') = length (jobs p) \<and>
     (\<forall>k < length (jobs p). n_tasks (jobs p' ! k) = n_tasks (jobs p ! k) \<and> on_complete (jobs p' ! k) = on_complete (jobs p ! k) \<and>
        completed (jobs p' ! k) = completed (jobs p ! k) + (if k = j then 1 else 0) \<and>
        (js_success (jobs p' ! k) \<longleftrightarrow> js_success (jobs p ! k) \<and> (k = j \<longrightarrow> ok)))"

lemma worker_done_counted:
  assumes d: "worker_done i ok raises p = Some (j, call, p')" "snd (threads p ! i) = Running t j" and j: "j < length (jobs p)"
  shows "counted p t j ok p'"
    and "call = (if completed (jobs p' ! j) = n_tasks (jobs p' ! j) \<and> on_complete (jobs p' ! j) \<noteq> None
      then Some (js_success (jobs p' ! j)) else None)"
proof -
  note dp = done_pending [OF d]
  obtain js c success call' where td: "task_done ok raises (jobs p ! j) = (js, c, success, call')" by (metis prod_cases4)
  note f = task_done_facts [OF td]
  have js: "jobs p' = (jobs p)[j := js]" using dp(5) by (simp add: td)
  have "call' = call" using d td by (auto simp: worker_done_def split: if_splits)
  with f show "call = (if completed (jobs p' ! j) = n_tasks (jobs p' ! j) \<and> on_complete (jobs p' ! j) \<noteq> None
      then Some (js_success (jobs p' ! j)) else None)" using j by (simp add: js)
  show "counted p t j ok p'" unfolding counted_def using dp(1-4) f j by (auto simp: js nth_list_update)
qed

lemma countedD:
  assumes "counted p t j ok p'"
  shows "(t, j) \<in> pending p" "pending p' \<subseteq> pending p" "pending p \<subseteq> insert (t, j) (pending p')"
    "unfinished p' k + (if k = j then 1 else 0) = unfinished p k" "length (jobs p') = length (jobs p)"
    "k < length (jobs p) \<Longrightarrow> n_tasks (jobs p' ! k) = n_tasks (jobs p ! k)"
    "k < length (jobs p) \<Longrightarrow> on_complete (jobs p' ! k) = on_complete (jobs p ! k)"
    "k < length (jobs p) \<Longrightarrow> completed (jobs p' ! k) = completed (jobs p ! k) + (if k = j then 1 else 0)"
    "k < length (jobs p) \<Longrightarrow> js_success (jobs p' ! k) \<longleftrightarrow> js_success (jobs p ! k) \<and> (k = j \<longrightarrow> ok)"
    "k < length (jobs p) \<Longrightarrow> job_plan (jobs p' ! k) = job_plan (jobs p ! k)"
    "plans_of bs p' = plans_of bs p"
proof -
  note c = assms [unfolded counted_def]
  show "(t, j) \<in> pending p" "pending p' \<subseteq> pending p" "pending p \<subseteq> insert (t, j) (pending p')"
    "unfinished p' k + (if k = j then 1 else 0) = unfinished p k" "length (jobs p') = length (jobs p)"
    "k < length (jobs p) \<Longrightarrow> n_tasks (jobs p' ! k) = n_tasks (jobs p ! k)"
    "k < length (jobs p) \<Longrightarrow> on_complete (jobs p' ! k) = on_complete (jobs p ! k)"
    "k < length (jobs p) \<Longrightarrow> completed (jobs p' ! k) = completed (jobs p ! k) + (if k = j then 1 else 0)"
    "k < length (jobs p) \<Longrightarrow> js_success (jobs p' ! k) \<longleftrightarrow> js_success (jobs p ! k) \<and> (k = j \<longrightarrow> ok)"
    using c by blast+
  have pl: "job_plan (jobs p' ! k) = job_plan (jobs p ! k)" if "k < length (jobs p)" for k
    using c that by (simp add: job_plan_def)
  then show "k < length (jobs p) \<Longrightarrow> job_plan (jobs p' ! k) = job_plan (jobs p ! k)" .
  show "plans_of bs p' = plans_of bs p" by (rule nth_equalityI) (use c pl in \<open>simp_all add: plans_of_def\<close>)
qed

text \<open>A task makes its own entries good; those of other jobs and tasks stay good.\<close>

lemma counted_progress:
  assumes c: "counted p t j ok p'" and prog: "progress_ok p good"
    and own: "\<And>e. ok \<Longrightarrow> e \<in> set (task_entries t) \<Longrightarrow> good' j e"
    and other: "\<And>k e. good k e \<Longrightarrow> k < length (jobs p) \<Longrightarrow> e \<in> set (job_plan (jobs p ! k)) \<Longrightarrow>
      k \<noteq> j \<or> e \<notin> set (task_entries t) \<Longrightarrow> good' k e"
  shows "progress_ok p' good'"
  unfolding progress_ok_def countedD(5) [OF c]
proof (intro allI impI ballI)
  fix k e
  assume k: "k < length (jobs p)"
    and d: "js_success (jobs p' ! k) \<and> completed (jobs p' ! k) + unfinished p' k = n_tasks (jobs p' ! k)"
    and e': "e \<in> set (job_plan (jobs p' ! k))"
  note f = countedD [OF c]
  have d': "js_success (jobs p ! k)" "completed (jobs p ! k) + unfinished p k = n_tasks (jobs p ! k)" "k = j \<longrightarrow> ok"
    using d f(4) [of k] by (auto simp: f(6-9) [OF k] split: if_splits)
  from e' have e: "e \<in> set (job_plan (jobs p ! k))" by (simp add: f(10) [OF k])
  show "(\<exists>t. (t, k) \<in> pending p' \<and> e \<in> set (task_entries t)) \<or> good' k e"
  proof (cases "k = j \<and> e \<in> set (task_entries t)")
    case True
    with own d'(3) show ?thesis by blast
  next
    case False
    from prog k d' e have "(\<exists>t. (t, k) \<in> pending p \<and> e \<in> set (task_entries t)) \<or> good k e"
      by (simp add: progress_ok_def)
    with False f(3) other [OF _ k e] show ?thesis by blast
  qed
qed

lemma counted_settled:
  assumes c: "counted p t j ok p'" and pool: "pool_inv ls p" and j: "j < length (jobs p)" and s: "settled bs p l"
  shows "settled bs p' l"
    and "\<exists>k e. k < length (jobs p) \<and> k \<noteq> j \<and> e \<in> set (job_plan (jobs p ! k)) \<and> l = entry_location (bs, e)"
proof -
  from s obtain k e where k: "k < length (jobs p)" "completed (jobs p ! k) = n_tasks (jobs p ! k)" "e \<in> set (job_plan (jobs p ! k))"
    "l = entry_location (bs, e)" by (auto simp: settled_def)
  have "k \<noteq> j"
    using job_okD(4) [OF pool_invD(2) [OF pool j]] k(2) pending_unfinished [OF countedD(1) [OF c]] by (auto simp: unfinished_def)
  with k show "\<exists>k e. k < length (jobs p) \<and> k \<noteq> j \<and> e \<in> set (job_plan (jobs p ! k)) \<and> l = entry_location (bs, e)" by blast
  show "settled bs p' l"
    unfolding settled_def using k \<open>k \<noteq> j\<close> countedD(5) [OF c] countedD(6,8,10) [OF c k(1)] by (intro exI [of _ k]) auto
qed

lemma counted_completed:
  assumes c: "counted p t j ok p'" and pool: "pool_inv ls p" and j: "j < length (jobs p)" and prog: "progress_ok p' good"
    and d: "completed (jobs p' ! j) = n_tasks (jobs p' ! j)" "js_success (jobs p' ! j)" and e: "e \<in> set (job_plan (jobs p' ! j))"
  shows "good j e" "settled bs p' (entry_location (bs, e))"
proof -
  note f = countedD [OF c]
  have "unfinished p' j = 0"
    using job_okD(4) [OF pool_invD(2) [OF pool j]] f(4) [of j] d(1) by (simp add: f(6,8) [OF j] unfinished_def)
  moreover from this have "(a, j) \<notin> pending p'" for a using pending_unfinished [of a j p'] by auto
  ultimately show "good j e"
    using prog [unfolded progress_ok_def f(5), rule_format, OF j] d e by simp
  show "settled bs p' (entry_location (bs, e))"
    unfolding settled_def f(5) using j d(1) e by blast
qed

text \<open>The callback, if there is one, indexes blocks of the completed job.\<close>

lemma callback_index:
  assumes c: "counted p t j ok p'" and j: "j < length (jobs p)"
    and m1: "tier_static m1" "fm_block_size m1 = bs" "index_inv (w_shared w1, plans_of bs p)"
    and call: "call = (if completed (jobs p' ! j) = n_tasks (jobs p' ! j) \<and> on_complete (jobs p' ! j) \<noteq> None
      then Some (js_success (jobs p' ! j)) else None)"
    and cb: "(\<exists>arg plan cr. call = Some arg \<and> on_complete (jobs p ! j) = Some plan \<and>
        run_callback tx plan arg (m1, w1) = (cr, m2, w2) \<and> raises = isl cr) \<or>
     (call = None \<or> on_complete (jobs p ! j) = None) \<and> m2 = m1 \<and> w2 = w1 \<and> \<not> raises"
  shows "tier_static m2 \<and> fm_block_size m2 = bs \<and> w_view w2 = w_view w1 \<and> seg_files (w_shared w2) = seg_files (w_shared w1) \<and>
    index_inv (w_shared w2, plans_of bs p') \<and>
    (\<forall>k l. map_of (db_blocks (w_shared w2)) k = Some l \<longrightarrow> map_of (db_blocks (w_shared w1)) k = Some l \<or>
       completed (jobs p' ! j) = n_tasks (jobs p' ! j) \<and> js_success (jobs p' ! j) \<and>
       (\<exists>e \<in> set (job_plan (jobs p' ! j)). sw_key e = k \<and> l = entry_location (bs, e)))"
  using cb
proof (elim disjE exE conjE)
  fix arg plan cr
  assume a: "call = Some arg" "on_complete (jobs p ! j) = Some plan" "run_callback tx plan arg (m1, w1) = (cr, m2, w2)"
  note ce = callback_effect [OF a(3) m1(1), unfolded m1(2)]
  have plan: "job_plan (jobs p' ! j) = plan" using a(2) countedD(10) [OF c j] by (simp add: job_plan_def)
  have "plans_of bs p ! j = (bs, plan)" "j < length (plans_of bs p)" using j a(2) by (simp_all add: plans_of_def job_plan_def)
  from ce(4) [OF this(2,1) m1(3)] have "index_inv (w_shared w2, plans_of bs p')" by (simp add: countedD(11) [OF c])
  moreover have "completed (jobs p' ! j) = n_tasks (jobs p' ! j) \<and> (js_success (jobs p' ! j) \<longleftrightarrow> arg)"
    using a(1) unfolding call by (simp split: if_splits)
  ultimately show ?thesis using ce(1-3,5) run_callback_frame [OF a(3)] m1(2) unfolding plan by metis
qed (simp_all add: m1 countedD(11) [OF c])

text \<open>
  What the last section of a task has done: the job is counted, the task's entries are on
  disk if it succeeded, all others are kept, and new index rows are those of a
  successful job that is now completed.
\<close>

definition done_step :: "fs_manager \<Rightarrow> fs_world \<Rightarrow> fs_manager \<Rightarrow> fs_world \<Rightarrow> fs_task \<Rightarrow> nat \<Rightarrow> bool \<Rightarrow> bool" where
  "done_step m w m' w' t j ok \<longleftrightarrow> counted (fm_pool m) t j ok (fm_pool m') \<and> j < length (jobs (fm_pool m)) \<and>
     tier_static m' \<and> fm_block_size m' = fm_block_size m \<and> length (w_view w') = length (w_view w) \<and>
     index_inv (w_shared w', plans_of (fm_block_size m) (fm_pool m')) \<and>
     (\<forall>e \<in> set (task_entries t). ok \<longrightarrow> holds (fm_block_size m) (seg_files (w_shared w')) (w_view w) e) \<and>
     (\<forall>k e. k < length (jobs (fm_pool m)) \<longrightarrow> e \<in> set (job_plan (jobs (fm_pool m) ! k)) \<longrightarrow> k \<noteq> j \<or> e \<notin> set (task_entries t) \<longrightarrow>
        present (seg_files (w_shared w)) (sw_segment_id e) (sw_offset e) (fm_block_size m) \<longrightarrow>
        kept (sw_segment_id e) (sw_offset e) (fm_block_size m) (seg_files (w_shared w)) (seg_files (w_shared w'))) \<and>
     (\<forall>k l. map_of (db_blocks (w_shared w')) k = Some l \<longrightarrow> map_of (db_blocks (w_shared w)) k = Some l \<or>
        completed (jobs (fm_pool m') ! j) = n_tasks (jobs (fm_pool m') ! j) \<and> js_success (jobs (fm_pool m') ! j) \<and>
        (\<exists>e \<in> set (job_plan (jobs (fm_pool m') ! j)). sw_key e = k \<and> l = entry_location (fm_block_size m, e)))"

lemma done_stepD:
  assumes "done_step m w m' w' t j ok"
  shows "counted (fm_pool m) t j ok (fm_pool m')" "j < length (jobs (fm_pool m))"
    "tier_static m'" "fm_block_size m' = fm_block_size m" "length (w_view w') = length (w_view w)"
    "index_inv (w_shared w', plans_of (fm_block_size m) (fm_pool m'))"
    "ok \<Longrightarrow> e \<in> set (task_entries t) \<Longrightarrow> holds (fm_block_size m) (seg_files (w_shared w')) (w_view w) e"
    "present (seg_files (w_shared w)) (sw_segment_id e) (sw_offset e) (fm_block_size m) \<Longrightarrow> k < length (jobs (fm_pool m)) \<Longrightarrow>
       e \<in> set (job_plan (jobs (fm_pool m) ! k)) \<Longrightarrow> k \<noteq> j \<or> e \<notin> set (task_entries t) \<Longrightarrow>
       kept (sw_segment_id e) (sw_offset e) (fm_block_size m) (seg_files (w_shared w)) (seg_files (w_shared w'))"
    "map_of (db_blocks (w_shared w')) q = Some l \<Longrightarrow> map_of (db_blocks (w_shared w)) q = Some l \<or>
        completed (jobs (fm_pool m') ! j) = n_tasks (jobs (fm_pool m') ! j) \<and> js_success (jobs (fm_pool m') ! j) \<and>
        (\<exists>e \<in> set (job_plan (jobs (fm_pool m') ! j)). sw_key e = q \<and> l = entry_location (fm_block_size m, e))"
  using assms unfolding done_step_def by blast+

lemma fs_done_step:
  assumes inv: "rest_inv m w" and env: "0 < te_iov env" and step: "fs_worker_done i env (m, w) = Some (ls', m', w')"
  shows "\<exists>t j ok. done_step m w m' w' t j ok"
proof -
  let ?bs = "fm_block_size m" and ?p = "fm_pool m" and ?files = "seg_files (w_shared w)"
  note iv = inv [unfolded rest_inv_def]
  from step obtain t j r m1 w1 raises call p' m2 where th: "snd (threads ?p ! i) = Running t j"
    and run: "run_task env t (m, w) = (r, m1, w1)" and wd: "worker_done i (\<not> isl r) raises ?p = Some (j, call, p')"
    and m': "m' = m2\<lparr>fm_pool := p'\<rparr>"
    and cb: "(\<exists>arg plan cr. call = Some arg \<and> on_complete (jobs ?p ! j) = Some plan \<and>
        run_callback (te_tx env) plan arg (m1, w1) = (cr, m2, w') \<and> raises = isl cr) \<or>
     (call = None \<or> on_complete (jobs ?p ! j) = None) \<and> m2 = m1 \<and> w' = w1 \<and> \<not> raises"
    by (rule fs_worker_doneE) (rule that)
  have st: "tier_static m" "0 < ?bs" using iv by (auto simp: tier_static_def)
  note te = task_effect [OF run st(1) env]
  have t: "j < length (jobs ?p)" "set (task_entries t) \<subseteq> set (job_plan (jobs ?p ! j))" "no_overlap (map (extent_of ?bs) (task_entries t))"
    using iv done_pending(3) [OF wd th] by (auto simp: pending_ok_def)
  note wc = worker_done_counted [OF wd th t(1)]
  have srcs: "\<forall>e \<in> set (task_entries t). block_in ?bs (w_view w) (sw_block_id e)"
    using iv t(1,2) by (force simp: sources_in_def)
  have keep: "kept (sw_segment_id e) (sw_offset e) ?bs ?files (seg_files (w_shared w1))"
    if k: "present ?files (sw_segment_id e) (sw_offset e) ?bs" "k < length (jobs ?p)" "e \<in> set (job_plan (jobs ?p ! k))"
      "k \<noteq> j \<or> e \<notin> set (task_entries t)" for k e
  proof -
    have "\<not> overlap (extent_of ?bs e) (extent_of ?bs e')" if "e' \<in> set (task_entries t)" for e'
      by (rule plans_apart [of "w_shared w" ?bs ?p k j]) (use iv t k that in blast)+
    with te(4) [OF k(1) st(2)] show ?thesis by (simp add: extent_of_def)
  qed
  have ix1: "index_inv (w_shared w1, plans_of ?bs ?p)" using iv te(3) by (simp add: index_shrinks_def)
  have bs1: "fm_block_size m1 = ?bs" using run_task_frame [OF run] by simp
  note ci = callback_index [OF wc(1) t(1) te(1) bs1 ix1 wc(2) cb]
  have rows: "map_of (db_blocks (w_shared w1)) k = Some l \<Longrightarrow> map_of (db_blocks (w_shared w)) k = Some l" for k l
    using te(3) by (simp add: index_shrinks_def)
  have "done_step m w m' w' t j (\<not> isl r)"
    unfolding done_step_def using ci wc(1) t(1) te(2) te(5) [OF _ srcs t(3)] keep rows by (simp add: m') blast
  then show ?thesis by blast
qed

lemma rest_done:
  assumes inv: "rest_inv m w" and pool: "pool_inv ls (fm_pool m)" and d: "done_step m w m' w' t j ok"
  shows "rest_inv m' w' \<and> rests (m, w) (m', w')"
proof -
  let ?bs = "fm_block_size m" and ?p = "fm_pool m" and ?p' = "fm_pool m'"
  let ?files = "seg_files (w_shared w)" and ?files' = "seg_files (w_shared w')"
  note iv = inv [unfolded rest_inv_def] and ds = done_stepD [OF d]
  note f = countedD [OF ds(1)]
  have prog: "progress_ok ?p' (on_disk ?bs ?files')"
  proof (rule counted_progress [OF ds(1), of "on_disk ?bs ?files"])
    show "progress_ok ?p (on_disk ?bs ?files)" using iv by blast
  qed (use ds(7) ds(8) [unfolded kept_def] in \<open>auto simp: holds_def\<close>)
  have settled: "settled ?bs ?p' l \<and> kept (segment_id l) (offset l) ?bs ?files ?files'" if l: "at_rest ?bs ?p ?files l" for l
    using counted_settled [OF ds(1) pool ds(2), of ?bs l] l ds(8) by (fastforce simp: at_rest_def entry_location_def)
  have db: "at_rest ?bs ?p' ?files' l" if k: "map_of (db_blocks (w_shared w')) k = Some l" for k l
    using ds(9) [OF k]
  proof
    assume "map_of (db_blocks (w_shared w)) k = Some l"
    then have "at_rest ?bs ?p ?files l" using iv by blast
    with settled [OF this] show ?thesis by (simp add: at_rest_def kept_def)
  qed (use counted_completed [OF ds(1) pool ds(2) prog] in \<open>auto simp: at_rest_def entry_location_def\<close>)
  have "pending_ok ?bs ?p'" using iv f(2,10) unfolding pending_ok_def f(5) by (metis (no_types, lifting) subsetD)
  moreover have "sources_in ?bs ?p' (w_view w')"
  proof -
    have "\<exists>y \<in> set (jobs ?p). job_plan x = job_plan y" if "x \<in> set (jobs ?p')" for x
      using that f(10) unfolding in_set_conv_nth f(5) by (metis nth_mem)
    moreover have "sources_in ?bs ?p (w_view w')" using iv by (simp add: sources_in_def block_in_length [OF ds(5)])
    ultimately show ?thesis unfolding sources_in_def by metis
  qed
  ultimately have "rest_inv m' w'" using ds(3,4,6) prog db by (simp add: rest_inv_def)
  moreover have "rests (m, w) (m', w')" using settled by (simp add: rests_def ds(4))
  ultimately show ?thesis by blast
qed

lemma get_locations_static:
  "get_locations keys sh s = (r, s') \<Longrightarrow> block_size s' = block_size s \<and> segment_size_bytes s' = segment_size_bytes s \<and> segment_shards s' = segment_shards s"
  by (auto simp: get_locations_def Let_def split: if_splits prod.splits)

lemma prepare_store_static:
  "prepare_store tx keys ids sh s = (r, sh', s') \<Longrightarrow>
     block_size s' = block_size s \<and> segment_size_bytes s' = segment_size_bytes s \<and> segment_shards s' = segment_shards s \<and>
     (isl r \<longrightarrow> sh' = sh)"
  by (auto simp: prepare_store_def contains_many_def Let_def case_prod_beta get_locations_static [OF surjective_pairing] split: if_splits)

lemma fs_batch_lookup_static: "tier_static m \<Longrightarrow> tier_static (snd (fs_batch_lookup c mapper ks m w))"
proof -
  assume m: "tier_static m"
  then obtain s where s: "fm_segment m = Some s" by (auto simp: tier_static_def)
  have "tier_static (m\<lparr>fm_segment := Some (snd (get_locations ks sh s))\<rparr>)" for sh
    using get_locations_static [of ks sh s] by (intro tier_static_cache [OF m s, where s' = "snd (get_locations ks sh s)"]) (simp_all add: prod_eq_iff)
  then show ?thesis by (simp add: fs_batch_lookup_def s contains_many_def case_prod_beta Let_def)
qed

lemma fs_batch_lookups_static:
  "tier_static m \<Longrightarrow> tier_static (fold (\<lambda>(_, _, keys) m. snd (fs_batch_lookup c mapper keys m w)) xs m)"
  by (induction xs arbitrary: m) (auto simp: fs_batch_lookup_static)

lemma fs_lookup_move_static: "tier_static m \<Longrightarrow> tier_static (fs_lookup_move c mapper w m)"
  by (auto simp: fs_lookup_move_def Let_def fs_batch_lookups_static split: worker_state.splits)

lemma fs_delete_effect:
  assumes d: "fs_delete tx denied mapper keys (m, w) = (r, m', w')" and m: "tier_static m"
  shows "tier_static m' \<and> index_shrinks (w_shared w) (w_shared w') \<and> seg_files (w_shared w') = seg_files (w_shared w)"
proof -
  from m obtain s where s: "fm_segment m = Some s" by (auto simp: tier_static_def)
  obtain r1 sh1 s1 where d1: "delete tx keys (w_shared w) s = (r1, sh1, s1)" by (metis prod_cases3)
  note ds = delete_shrinks [OF d1]
  have "tier_static (m\<lparr>fm_segment := Some s1\<rparr>)" by (rule tier_static_cache [OF m s, where s' = s1]) (simp_all add: ds)
  with d ds show ?thesis by (auto simp: fs_delete_def s d1 split: sum.splits prod.splits)
qed

lemma fs_store_submits:
  assumes inv: "rest_inv m w" and ids: "\<forall>b \<in> set ids. block_in (fm_block_size m) (w_view w) b"
    and r: "fs_submit_store tx mapper job_id keys ids (m, w) = (Inr (), m', w')"
  shows "\<exists>js tasks. submit_step m w m' w' js tasks"
proof -
  note iv = inv [unfolded rest_inv_def]
  then obtain s where s: "fm_segment m = Some s" "block_size s = fm_block_size m" "0 < fm_block_size m"
    "fm_block_size m \<le> segment_size_bytes s" "0 < segment_shards s" by (auto simp: tier_static_def)
  obtain plan sh1 s1 where p: "prepare_store tx keys ids (w_shared w) s = (Inr plan, sh1, s1)"
    and e: "m' = m\<lparr>fm_segment := Some s1, fm_pool := enqueue_store job_id (length (store_tasks plan)) (store_tasks plan) (Some plan) (fm_pool m)\<rparr>"
      "w' = w\<lparr>w_shared := sh1\<rparr>"
    using r s(1) that by (auto simp: fs_submit_store_def Let_def split: sum.splits prod.splits)
  obtain xs where ix: "keys_distinct (w_shared w)" "db_alloc_ok (w_shared w) xs" using iv by (auto simp: index_inv_def)
  note pp = prepare_store_plan [OF ix s(5) _ p, unfolded s(2), OF s(4)]
  let ?js = "new_job_state job_id (length (store_tasks plan)) (Some plan)"
  have jp: "job_plan ?js = plan" by (simp add: job_plan_def new_job_state_def)
  have "tier_static m'"
    using iv prepare_store_static [OF p] by (intro tier_static_cache [of m s m' s1]) (simp_all add: e s)
  moreover have "index_inv (w_shared w', plans_of (fm_block_size m) (fm_pool m) @ [(fm_block_size m, plan)])"
    using index_step_inv [of "PrepareOp s tx keys ids" "w_shared w" "plans_of (fm_block_size m) (fm_pool m)"] iv s p by (simp add: e)
  moreover have "block_in (fm_block_size m) (w_view w) (sw_block_id x)" if "x \<in> set plan" for x
  proof -
    from pp that have "map_of (zip keys ids) (sw_key x) = Some (sw_block_id x)" by blast
    then have "sw_block_id x \<in> set ids" by (metis map_of_SomeD set_zip_rightD)
    with ids show ?thesis by blast
  qed
  moreover have "load_entries_of t = {}" if "t \<in> set (store_tasks plan)" for t
  proof -
    have "is_store_task t" using that store_tasks_facts(2) [of plan] by blast
    then show ?thesis by (cases t) (simp_all add: load_entries_of_def is_store_task_def)
  qed
  ultimately have "submit_step m w m' w' ?js (store_tasks plan)"
    using pp by (simp add: submit_step_def e enqueue_pending jp store_tasks_facts(3))
  then show ?thesis by blast
qed

lemma load_tasks_entries: "concat (map task_entries (load_tasks mapper es)) = []"
  by (auto simp: load_tasks_def task_entries_def)

lemma fs_load_submits:
  assumes inv: "rest_inv m w" and r: "fs_submit_load mapper job_id keys ids (m, w) = (m', w')"
  shows "\<exists>js tasks. submit_step m w m' w' js tasks"
proof -
  note iv = inv [unfolded rest_inv_def]
  then obtain s where s: "fm_segment m = Some s" by (auto simp: tier_static_def)
  obtain locs s1 where g: "get_locations keys (w_shared w) s = (locs, s1)" by fastforce
  let ?tasks = "load_tasks mapper (zip keys (zip ids locs))" and ?js = "new_job_state job_id (length (load_tasks mapper (zip keys (zip ids locs)))) None"
  have e: "m' = m\<lparr>fm_segment := Some s1, fm_pool := enqueue_load job_id (length ?tasks) ?tasks (fm_pool m)\<rparr>" "w' = w"
    using r by (simp_all add: fs_submit_load_def s g Let_def)
  have jp: "job_plan ?js = []" by (simp add: job_plan_def new_job_state_def)
  have "tier_static m'"
    using iv get_locations_static [OF g] by (intro tier_static_cache [of m s m' s1]) (simp_all add: e s)
  moreover have "index_inv (w_shared w', plans_of (fm_block_size m) (fm_pool m) @ [(fm_block_size m, [])])"
    using iv by (simp add: e index_inv_def plan_entries_snoc)
  moreover have "\<forall>(k, b, l) \<in> load_entries_of t. \<exists>s. fm_segment m = Some s \<and> locate (w_shared w) s k = Some l"
    if t: "t \<in> set ?tasks" for t
  proof clarify
    fix k b l assume "(k, b, l) \<in> load_entries_of t"
    with t obtain c where "c \<in> set (segment_chunks (zip keys (zip ids locs)))" "(k, b, l) \<in> set c"
      by (auto simp: load_tasks_def load_entries_of_def)
    then have "(k, b, l) \<in> set (located_entries (zip keys (zip ids locs)))"
      using mset_eq_setD [OF mset_segment_chunks [of "zip keys (zip ids locs)"]] by auto
    then have "(k, b, Some l) \<in> set (zip keys (zip ids locs))" by (auto simp: located_entries_def split: option.splits)
    moreover have "keys_distinct (w_shared w)" using iv by (auto simp: index_inv_def)
    then have "locs = map (locate (w_shared w) s) keys" using get_locations_spec(1) [of "w_shared w" keys s] by (simp add: g)
    ultimately have "locate (w_shared w) s k = Some l" by (auto simp: in_set_zip)
    with s show "\<exists>s. fm_segment m = Some s \<and> locate (w_shared w) s k = Some l" by blast
  qed
  ultimately have "submit_step m w m' w' ?js ?tasks"
    by (simp add: submit_step_def e enqueue_pending jp load_tasks_entries)
  then show ?thesis by blast
qed

text \<open>Every step is of one of the three kinds.\<close>

lemma step_kinds:
  assumes step: "fs_step c_lookup mapper (ls, m, w) (ls', m', w')" and inv: "rest_inv m w"
  shows "quiet_step m w m' w' \<or> (\<exists>js tasks. submit_step m w m' w' js tasks) \<or> (\<exists>t j ok. done_step m w m' w' t j ok)"
proof -
  have st: "tier_static m" using inv by (simp add: rest_inv_def)
  then obtain s where s: "fm_segment m = Some s" by (auto simp: tier_static_def)
  have frame: "quiet_step m w m' w'"
    if "tier_static m'" "fm_block_size m' = fm_block_size m" "index_shrinks (w_shared w) (w_shared w')"
      "seg_files (w_shared w') = seg_files (w_shared w)" "length (w_view w') = length (w_view w)"
      "jobs (fm_pool m') = jobs (fm_pool m)" "pending (fm_pool m') = pending (fm_pool m)"
      "\<And>j. unfinished (fm_pool m') j = unfinished (fm_pool m) j"
    using that by (simp add: quiet_step_def)
  from step show ?thesis
  proof cases
    case (Store ids tx job_id keys)
    with fs_store_submits [OF inv] show ?thesis by blast
  next
    case (Store_Raises tx job_id keys ids e)
    obtain r sh s1 where p: "prepare_store tx keys ids (w_shared w) s = (r, sh, s1)" by (metis prod_cases3)
    with Store_Raises(2) have e: "m' = m\<lparr>fm_segment := Some s1\<rparr>" "w' = w\<lparr>w_shared := sh\<rparr>" "isl r"
      by (auto simp: fs_submit_store_def s Let_def split: sum.splits)
    have "tier_static m'" using prepare_store_static [OF p] by (intro tier_static_cache [OF st s, of m' s1]) (simp_all add: e)
    with prepare_store_static [OF p] e(3) show ?thesis by (intro disjI1 frame) (simp_all add: e)
  next
    case (Load job_id keys ids)
    with fs_load_submits [OF inv] show ?thesis by blast
  next
    case (Take i p)
    with st take_unfinished [OF Take(4)] take_pending [OF Take(4)] show ?thesis by (intro disjI1 frame) simp_all
  next
    case (Done env i)
    with fs_done_step [OF inv] show ?thesis by blast
  next
    case (Report i j success p)
    with st report_pending [OF Report(4)] show ?thesis by (intro disjI1 frame) simp_all
  next
    case (Collect results)
    then have "m' = m\<lparr>fm_pool := snd (get_finished (fm_pool m))\<rparr>" "w' = w" by (auto simp: fs_get_finished_jobs_def case_prod_beta)
    with st show ?thesis by (intro disjI1 frame) (simp_all add: collect_pending)
  next
    case (Lookup key ctx result)
    then obtain a where "m' = m\<lparr>fm_lookups := a\<rparr>" "w' = w" by (auto simp: fs_lookup_def Let_def split: prod.splits option.splits)
    with st show ?thesis by (intro disjI1 frame) simp_all
  next
    case (Delete tx denied keys r)
    with fs_delete_effect [OF _ st] delete_frame show ?thesis by (intro disjI1 frame) simp_all
  next
    case Shutdown_Pool
    with st show ?thesis by (intro disjI1) (simp add: quiet_step_def fs_shutdown_pool_def shutdown_pending)
  next
    case Shutdown_Segment
    have "tier_static m'" using Shutdown_Segment
      by (intro tier_static_cache [OF st s, of m' "close s"]) (simp_all add: fs_shutdown_segment_def s close_def)
    with Shutdown_Segment show ?thesis by (intro disjI1 frame) (simp_all add: fs_shutdown_segment_def)
  next
    case (Request_Finished ctx)
    then obtain a where "m' = m\<lparr>fm_lookups := a\<rparr>" "w' = w" by (auto simp: fs_on_request_finished_def bind_result_def split: sum.splits)
    with st show ?thesis by (intro disjI1 frame) simp_all
  qed (use st in \<open>intro disjI1 frame; simp add: fs_lookup_move_static lookup_move_frame fs_on_schedule_end_def fs_shutdown_lookups_def\<close>)+
qed

lemma rest_step:
  assumes "fs_step c_lookup mapper (ls, m, w) (ls', m', w')" "rest_inv m w" "pool_inv ls (fm_pool m)"
  shows "rest_inv m' w' \<and> rests (m, w) (m', w')"
  using step_kinds [OF assms(1,2)] rest_quiet [OF assms(2,3)] rest_submit [OF assms(2)] rest_done [OF assms(2,3)] by blast

section \<open>Whole runs\<close>

lemma sane_step: "fs_step c_lookup mapper (ls, m, w) (ls', m', w') \<Longrightarrow> sane ls' \<Longrightarrow> sane ls"
  by (cases rule: fs_step.cases) (auto simp: submit_label_def elim!: fs_worker_doneE)

text \<open>What holds along a run, for a location that is at rest at its beginning.\<close>

lemma rest_steps:
  assumes "(fs_step c_lookup mapper)\<^sup>*\<^sup>* (ls, m, w) (ls', m', w')" "sane ls'" "pool_trace a b ls (fm_pool m)" "rest_inv m w"
  shows "rest_inv m' w' \<and> pool_trace a b ls' (fm_pool m') \<and> rests (m, w) (m', w')"
  using assms(1,2)
proof (induction "(ls', m', w')" arbitrary: ls' m' w' rule: rtranclp_induct)
  case base
  with assms(3,4) show ?case by (auto simp: rests_def at_rest_def kept_refl)
next
  case (step r)
  obtain ls1 m1 w1 where r: "r = (ls1, m1, w1)" by (cases r)
  have one: "fs_step c_lookup mapper (ls1, m1, w1) (ls', m', w')" using step.hyps(2) r by simp
  have s1: "sane ls1" by (rule sane_step [OF one step.prems])
  have IH: "rest_inv m1 w1" "pool_trace a b ls1 (fm_pool m1)" "rests (m, w) (m1, w1)" using step.hyps(3) [OF r s1] by blast+
  have "rest_inv m' w' \<and> rests (m1, w1) (m', w')" by (rule rest_step [OF one IH(1) pool_trace_inv [OF IH(2) s1]])
  moreover have "rests (m, w) (m', w')" if "rests (m1, w1) (m', w')"
    using IH(3) that unfolding rests_def prod.case at_rest_def by (metis kept_def)
  ultimately show ?case using step_pool_trace [OF one IH(2)] by blast
qed

lemma make_fs_manager_static:
  assumes "make_fs_manager cpu_count cfg = Inr m" "cfg_storage_layout cfg = ''segment''"
  shows "tier_static m"
proof -
  obtain nr nw where t: "thread_counts cpu_count (cfg_read_threads cfg) (cfg_write_threads cfg) = (nr, nw)" by fastforce
  note b = make_fs_manager_built(2,5) [OF assms(1) t]
  from b(2) assms(2) obtain s where s: "fm_segment m = Some s"
    "make_segment_store (int (fm_block_size m)) (cfg_segment_size cfg) (chosen_shards cpu_count cfg) = Inr s"
    by (auto split: option.splits)
  from make_segment_store_built [OF s(2)] b(1) show ?thesis by (simp add: tier_static_def s(1))
qed

lemma rest_init:
  assumes "make_fs_manager cpu_count cfg = Inr m" "cfg_storage_layout cfg = ''segment''" "w_shared w = empty_shared"
  shows "rest_inv m w \<and> (\<exists>a b. pool_trace a b [] (fm_pool m))"
proof -
  obtain nr nw where t: "thread_counts cpu_count (cfg_read_threads cfg) (cfg_write_threads cfg) = (nr, nw)" by fastforce
  have p: "fm_pool m = make_pool (nat nr) (nat nw)" by (rule make_fs_manager_built(3) [OF assms(1) t])
  have "pending (fm_pool m) = {}" by (auto simp: p pending_def make_pool_def)
  moreover have "jobs (fm_pool m) = []" by (simp add: p make_pool_def)
  ultimately have "rest_inv m w"
    using make_fs_manager_static [OF assms(1,2)] index_inv_empty
    by (simp add: rest_inv_def assms(3) plans_of_def pending_ok_def sources_in_def progress_ok_def) (simp add: empty_shared_def)
  then show ?thesis using pool_trace.Init p by metis
qed

text \<open>C16: A block that the tier has indexed is complete on disk and stays what it is. From the
  moment a key has a location in a run of a new tier of the segment layout, its segment
  file holds a whole block there, and no later step - stores and loads in progress with their
  I/O errors, other jobs' callbacks, deletions, even of the key itself, changes of the
  primary memory and shutdowns, in any order - changes these bytes. Every job is
  expected to have a task.\<close>

theorem fs_blocks_stable:
  assumes run: "fs_reaches cpu_count cfg c_lookup mapper (ls1, m1, w1)" and layout: "cfg_storage_layout cfg = ''segment''"
    and later: "(fs_step c_lookup mapper)\<^sup>*\<^sup>* (ls1, m1, w1) (ls2, m2, w2)" and sane: "sane ls2"
    and key: "map_of (db_blocks (w_shared w1)) k = Some l"
  shows "loc_length l = fm_block_size m1 \<and> present (seg_files (w_shared w2)) (segment_id l) (offset l) (loc_length l) \<and>
    content (seg_files (w_shared w2)) (segment_id l) (offset l) (loc_length l) =
      content (seg_files (w_shared w1)) (segment_id l) (offset l) (loc_length l)"
proof -
  from run obtain m0 w0 where m0: "make_fs_manager cpu_count cfg = Inr m0" "w_shared w0 = empty_shared"
    "(fs_step c_lookup mapper)\<^sup>*\<^sup>* ([], m0, w0) (ls1, m1, w1)" by (auto simp: fs_reaches_def)
  obtain a b where i: "rest_inv m0 w0" "pool_trace a b [] (fm_pool m0)" using rest_init [OF m0(1) layout m0(2)] by blast
  have "sane ls" if "(fs_step c_lookup mapper)\<^sup>*\<^sup>* (ls, m, w) (ls2, m2, w2)" for ls m w
    using that by (induction "(ls, m, w)" arbitrary: ls m w rule: converse_rtranclp_induct) (use sane sane_step prod_cases3 in metis)+
  from this [OF later] rest_steps [OF m0(3) _ i(2,1)] have 1: "rest_inv m1 w1" "pool_trace a b ls1 (fm_pool m1)" by blast+
  from 1(1) key have r: "at_rest (fm_block_size m1) (fm_pool m1) (seg_files (w_shared w1)) l" by (simp add: rest_inv_def)
  with rest_steps [OF later sane 1(2,1)]
  have "kept (segment_id l) (offset l) (fm_block_size m1) (seg_files (w_shared w1)) (seg_files (w_shared w2))" by (simp add: rests_def)
  moreover have "loc_length l = fm_block_size m1" using r by (auto simp: at_rest_def settled_def entry_location_def)
  ultimately show ?thesis by (simp add: kept_def)
qed


section \<open>Examples\<close>

text \<open>A pool thread's whole turn, and a store with the turn that runs its only task.\<close>

definition turn :: "nat \<Rightarrow> task_env \<Rightarrow> fs_run \<Rightarrow> fs_run option" where
  "turn i env = (\<lambda>(ls, m, w).
     (case worker_take i (fm_pool m) of
        None \<Rightarrow> None
      | Some p \<Rightarrow>
          (case fs_worker_done i env (m\<lparr>fm_pool := p\<rparr>, w) of
             None \<Rightarrow> None
           | Some (ls1, m1, w1) \<Rightarrow>
               (case worker_report i (fm_pool m1) of
                  None \<Rightarrow> None
                | Some (j, success, p2) \<Rightarrow> Some (Reported j success # ls1 @ ls, m1\<lparr>fm_pool := p2\<rparr>, w1)))))"

definition store_turn :: "task_env \<Rightarrow> int \<Rightarrow> offload_key list \<Rightarrow> nat list \<Rightarrow> fs_run \<Rightarrow> fs_run option" where
  "store_turn env job_id keys ids = (\<lambda>(ls, m, w).
     (case fs_submit_store True sample_mapper job_id keys ids (m, w) of
        (Inl _, _) \<Rightarrow> None
      | (Inr _, m', w') \<Rightarrow>
          if list_all (\<lambda>b. b * fm_block_size m + fm_block_size m \<le> length (w_view w)) ids
          then turn 1 env (submit_label (fm_pool m) (fm_pool m') # ls, m', w') else None))"

lemma turn_steps:
  assumes "turn i env r = Some r'" "0 < te_iov env"
  shows "(fs_step c_lookup mapper)\<^sup>*\<^sup>* r r'"
proof -
  obtain ls m w where r: "r = (ls, m, w)" by (cases r)
  obtain p ls1 m1 w1 j s p2 where t: "worker_take i (fm_pool m) = Some p"
    "fs_worker_done i env (m\<lparr>fm_pool := p\<rparr>, w) = Some (ls1, m1, w1)"
    "worker_report i (fm_pool m1) = Some (j, s, p2)" "r' = (Reported j s # ls1 @ ls, m1\<lparr>fm_pool := p2\<rparr>, w1)"
    using assms(1) by (auto simp: turn_def r split: option.splits)
  have 1: "fs_step c_lookup mapper r (ls, m\<lparr>fm_pool := p\<rparr>, w)" unfolding r by (rule fs_step.Take [OF t(1)])
  have 2: "fs_step c_lookup mapper (ls, m\<lparr>fm_pool := p\<rparr>, w) (ls1 @ ls, m1, w1)" by (rule fs_step.Done [OF assms(2) t(2)])
  have 3: "fs_step c_lookup mapper (ls1 @ ls, m1, w1) r'" unfolding t(4) by (rule fs_step.Report [OF t(3)])
  show ?thesis
    by (rule converse_rtranclp_into_rtranclp, rule 1, rule converse_rtranclp_into_rtranclp, rule 2, rule r_into_rtranclp, rule 3)
qed

lemma store_turn_steps:
  assumes "store_turn env job_id keys ids r = Some r'" "0 < te_iov env"
  shows "(fs_step c_lookup sample_mapper)\<^sup>*\<^sup>* r r'"
proof -
  obtain ls m w where r: "r = (ls, m, w)" by (cases r)
  obtain u m' w' where s: "fs_submit_store True sample_mapper job_id keys ids (m, w) = (Inr u, m', w')"
    "\<forall>b \<in> set ids. block_in (fm_block_size m) (w_view w) b" "turn 1 env (submit_label (fm_pool m) (fm_pool m') # ls, m', w') = Some r'"
    using assms(1) by (auto simp: store_turn_def r block_in_def list_all_iff split: sum.splits prod.splits if_splits)
  have "fs_step c_lookup sample_mapper r (submit_label (fm_pool m) (fm_pool m') # ls, m', w')"
    unfolding r by (rule fs_step.Store [OF s(2)]) (use s(1) in simp)
  then show ?thesis using turn_steps [OF s(3) assms(2), of c_lookup sample_mapper] by (rule converse_rtranclp_into_rtranclp)
qed

text \<open>Two blocks are stored; then the write of a third one fails and one key is deleted.\<close>

definition run_config :: fs_config where
  "run_config = \<lparr>cfg_strides = Some 2, cfg_read_threads = Some 1, cfg_write_threads = Some 1, cfg_storage_layout = ''segment'',
     cfg_segment_size = 4, cfg_io_batch = 1, cfg_shards = 1\<rparr>"

definition run_start :: fs_run where
  "run_start = ([], projr (make_fs_manager (Some 2) run_config), \<lparr>w_shared = empty_shared, w_files = [], w_view = ''ABCDEFGH''\<rparr>)"

definition run_stored :: fs_run where
  "run_stored = the (store_turn sample_env 1 [''a'', ''b''] [3, 0] run_start)"

definition run_failed :: fs_run where
  "run_failed = the (store_turn (sample_env\<lparr>te_io := [Short 1]\<rparr>) 2 [''c''] [1] run_stored)"

definition run_deleted :: fs_run where
  "run_deleted = (let (ls, m, w) = run_failed; (_, m, w) = fs_delete True (\<lambda>_. False) sample_mapper [''b''] (m, w) in (ls, m, w))"

lemma run_stored_reached: "fs_reaches (Some 2) run_config None sample_mapper run_stored"
proof -
  have "\<not> isl (make_fs_manager (Some 2) run_config)" by code_simp
  then have "make_fs_manager (Some 2) run_config = Inr (fst (snd run_start))" by (auto simp: run_start_def isl_def split: sum.splits)
  moreover have "store_turn sample_env 1 [''a'', ''b''] [3, 0] run_start \<noteq> None" by code_simp
  then have "(fs_step None sample_mapper)\<^sup>*\<^sup>* run_start run_stored"
    by (intro store_turn_steps [of sample_env 1 "[''a'', ''b'']" "[3, 0]"]) (auto simp: run_stored_def sample_env_def)
  ultimately show ?thesis unfolding fs_reaches_def by (intro exI [of _ "snd (snd run_start)"] exI conjI) (auto simp: run_start_def)
qed

lemma run_failed_later: "(fs_step None sample_mapper)\<^sup>*\<^sup>* run_stored run_failed"
proof -
  have "store_turn (sample_env\<lparr>te_io := [Short 1]\<rparr>) 2 [''c''] [1] run_stored \<noteq> None" by code_simp
  then show ?thesis
    by (intro store_turn_steps [of "sample_env\<lparr>te_io := [Short 1]\<rparr>" 2 "[''c'']" "[1]"]) (auto simp: run_failed_def sample_env_def)
qed

lemma run_failed_reached: "fs_reaches (Some 2) run_config None sample_mapper run_failed"
  using run_stored_reached run_failed_later unfolding fs_reaches_def by (meson rtranclp_trans)

lemma run_deleted_later: "(fs_step None sample_mapper)\<^sup>*\<^sup>* run_stored run_deleted"
proof -
  have "fs_step None sample_mapper run_failed run_deleted"
  proof -
    obtain ls m w where f: "run_failed = (ls, m, w)" by (cases run_failed)
    obtain r m' w' where d: "fs_delete True (\<lambda>_. False) sample_mapper [''b''] (m, w) = (r, m', w')" by (metis prod_cases3)
    show ?thesis unfolding run_deleted_def f by (simp add: d fs_step.Delete [OF d])
  qed
  with run_failed_later show ?thesis by (rule rtranclp.rtrancl_into_rtrancl)
qed

theorem fs_blocks_stable_witness:
  "\<exists>l. map_of (db_blocks (w_shared (snd (snd run_stored)))) ''b'' = Some l \<and> map_of (db_blocks (w_shared (snd (snd run_deleted)))) ''b'' = None \<and>
     content (seg_files (w_shared (snd (snd run_deleted)))) (segment_id l) (offset l) (loc_length l) = ''AB''"
proof -
  obtain ls1 m1 w1 where 1: "run_stored = (ls1, m1, w1)" by (cases run_stored)
  obtain ls2 m2 w2 where 2: "run_deleted = (ls2, m2, w2)" by (cases run_deleted)
  define l where "l = the (map_of (db_blocks (w_shared (snd (snd run_stored)))) ''b'')"
  have v: "map_of (db_blocks (w_shared (snd (snd run_stored)))) ''b'' \<noteq> None"
    "map_of (db_blocks (w_shared (snd (snd run_deleted)))) ''b'' = None"
    "content (seg_files (w_shared (snd (snd run_stored)))) (segment_id l) (offset l) (loc_length l) = ''AB''"
    unfolding l_def by code_simp+
  have "fst run_deleted = [Reported 1 False, CallbackRan 1 False False, TaskRan 1 False, Submitted 1 1,
      Reported 0 True, CallbackRan 0 True False, TaskRan 0 True, Submitted 1 1]" by code_simp
  then have sane: "sane ls2" by (simp add: 2 sane_def)
  have key: "map_of (db_blocks (w_shared w1)) ''b'' = Some l" using v(1) by (auto simp: l_def 1)
  have layout: "cfg_storage_layout run_config = ''segment''" by (simp add: run_config_def)
  from fs_blocks_stable [OF run_stored_reached [unfolded 1] layout run_deleted_later [unfolded 1 2] sane key] v key
  show ?thesis unfolding 1 2 by auto
qed

theorem fs_tier_simulates_witness:
  "Reported 0 True \<in> set (fst run_stored) \<and> occurrences (is_report 0) (fst run_stored) = 1 \<and> TaskRan 0 False \<notin> set (fst run_stored)"
proof -
  obtain ls m w where r: "run_stored = (ls, m, w)" by (cases run_stored)
  have l: "fst run_stored = [Reported 0 True, CallbackRan 0 True False, TaskRan 0 True, Submitted 1 1]" by code_simp
  then have "sane ls" "Reported 0 True \<in> set ls" by (simp_all add: r sane_def)
  moreover have "thread_counts (Some 2) (cfg_read_threads run_config) (cfg_write_threads run_config) = (1, 1)" by code_simp
  ultimately show ?thesis
    using fs_tier_simulates [OF run_stored_reached [unfolded r]] unfolding r by auto
qed

end
