(* ===== verification/Fs_Contract.thy ===== *)
theory Fs_Contract
  imports Fs_Stable Thread_Pool_Policy
begin

text \<open>
  The contract that \<open>base.py\<close> documents for a secondary tier, as an interface: after
  \<open>drain_jobs\<close> no tier I/O touches the primary memory and the result of every submitted job
  has been yielded or waits for the next \<open>get_finished_jobs\<close>. The file system tier meets it.
\<close>

section \<open>The interface\<close>

text \<open>
  \<open>submitted\<close>: the identifiers of all jobs; \<open>results\<close>: what \<open>get_finished_jobs\<close> has returned and
  what its next call returns; \<open>busy\<close>: some transfer has still to run or is running.
\<close>

locale secondary_tier =
  fixes reachable :: "'s \<Rightarrow> bool"
    and drained :: "'s \<Rightarrow> bool"
    and submitted :: "'s \<Rightarrow> int list"
    and results :: "'s \<Rightarrow> (int \<times> bool) list"
    and busy :: "'s \<Rightarrow> bool"
  assumes drain_quiet: "reachable s \<Longrightarrow> drained s \<Longrightarrow> \<not> busy s"
    and drain_results: "reachable s \<Longrightarrow> drained s \<Longrightarrow> mset (map fst (results s)) = mset (submitted s)"
begin

text \<open>The framework can then match results with its jobs and release their blocks.\<close>

lemma one_result:
  assumes "reachable s" "drained s" "distinct (submitted s)" "j \<in> set (submitted s)"
  shows "\<exists>!r. r \<in> set (results s) \<and> fst r = j"
proof -
  have m: "mset (map fst (results s)) = mset (submitted s)" by (rule drain_results [OF assms(1,2)])
  have d: "distinct (map fst (results s))" using assms(3) mset_eq_imp_distinct_iff [OF m] by simp
  have "j \<in> fst ` set (results s)" using assms(4) mset_eq_setD [OF m] by simp
  then obtain r where r: "r \<in> set (results s)" "fst r = j" by auto
  have "r' = r" if "r' \<in> set (results s)" "fst r' = j" for r'
    using d that r by (auto simp: distinct_map inj_on_def)
  with r show ?thesis by blast
qed

end

section \<open>The reports of a run\<close>

definition reported_jobs :: "pool_label list \<Rightarrow> nat list" where
  "reported_jobs ls = concat (map (\<lambda>l. case l of Reported j _ \<Rightarrow> [j] | _ \<Rightarrow> []) (rev ls))"

lemma count_reported_jobs: "count (mset (reported_jobs ls)) j = occurrences (is_report j) ls"
  by (induction ls) (auto simp: reported_jobs_def split: pool_label.splits)

lemma all_reports_outcomes:
  "\<forall>j s. Reported j s \<in> set ls \<longrightarrow> s = f j \<Longrightarrow>
     all_reports p ls = map (\<lambda>j. (js_job_id (jobs p ! j), f j)) (reported_jobs ls)"
  by (induction ls) (auto simp: all_reports_def reported_jobs_def split: pool_label.splits)

lemma drained_results:
  assumes t: "pool_trace a b ls p" "sane ls" "ShutDown \<notin> set ls" and idle: "wait_idle_returns p"
  shows "mset (all_collected ls @ finished_q p) = mset (map (\<lambda>j. (js_job_id (jobs p ! j), outcome ls j)) [0..<length (jobs p)])"
proof -
  have inv: "pool_inv ls p" by (rule pool_trace_inv [OF t(1,2)])
  have "occurrences (is_report j) ls = (if j < length (jobs p) then 1 else 0)" for j
  proof (cases "j < length (jobs p)")
    case True
    with outstanding_job(1) [OF inv t(3) idle] show ?thesis by simp
  next
    case False
    then have "Reported j s \<notin> set ls" for s using reported_known [OF t(1,2)] by blast
    with False show ?thesis by (auto simp: occurrences_def filter_empty_conv is_report_def split: pool_label.splits)
  qed
  then have m: "mset (reported_jobs ls) = mset [0..<length (jobs p)]"
    by (intro multiset_eqI) (simp only: count_reported_jobs, simp add: count_mset_set)
  have "\<forall>j s. Reported j s \<in> set ls \<longrightarrow> s = outcome ls j"
    using reported_known [OF t(1,2)] job_okD(9) [OF pool_invD(2) [OF inv]] by blast
  from all_reports_outcomes [OF this, of p] show ?thesis
    unfolding results_in_order [OF t(1,2)] by (simp only: mset_map m)
qed

lemma drained_quiet:
  assumes "pool_inv ls p" "ShutDown \<notin> set ls" "wait_idle_returns p"
  shows "pending p = {}"
proof -
  have "\<not> (t, j) \<in> pending p" for t j
  proof
    assume "(t, j) \<in> pending p"
    then have u: "0 < unfinished p j" by (rule pending_unfinished)
    then have "j < length (jobs p)" using pool_invD(1) [OF assms(1)] by (auto simp: known_jobs_def unfinished_def)
    from outstanding_job(2,3) [OF assms this] u show False by (simp add: unfinished_def)
  qed
  then show ?thesis by auto
qed

section \<open>The file system tier\<close>

definition run_pool :: "fs_run \<Rightarrow> (fs_task, segment_write list) pool" where
  "run_pool r = fm_pool (fst (snd r))"

definition in_service :: "fs_run \<Rightarrow> bool" where
  "in_service r \<longleftrightarrow> (\<exists>cpu_count cfg c_lookup mapper. fs_reaches cpu_count cfg c_lookup mapper r) \<and> sane (fst r) \<and> ShutDown \<notin> set (fst r)"

definition run_submitted :: "fs_run \<Rightarrow> int list" where
  "run_submitted r = map js_job_id (jobs (run_pool r))"

definition run_results :: "fs_run \<Rightarrow> (int \<times> bool) list" where
  "run_results r = all_collected (fst r) @ fst (fs_get_finished_jobs (fst (snd r)))"

lemma run_results_eq: "run_results r = all_collected (fst r) @ finished_q (run_pool r)"
  by (simp add: run_results_def run_pool_def fs_get_finished_jobs_def get_finished_def)

lemma in_service_pool: "in_service r \<Longrightarrow> \<exists>a b. pool_trace a b (fst r) (run_pool r)"
  unfolding in_service_def run_pool_def using reaches_pool_trace by (metis prod.collapse)

lemma run_drained_results:
  assumes "in_service r" "fs_drain_returns (fst (snd r))"
  shows "mset (run_results r) = mset (map (\<lambda>j. (js_job_id (jobs (run_pool r) ! j), outcome (fst r) j)) [0..<length (jobs (run_pool r))])"
  using in_service_pool [OF assms(1)] assms drained_results
  unfolding run_results_eq fs_drain_returns_def in_service_def run_pool_def by blast

interpretation fs_service: secondary_tier in_service "\<lambda>r. fs_drain_returns (fst (snd r))" run_submitted run_results "\<lambda>r. pending (run_pool r) \<noteq> {}"
proof
  fix r assume r: "in_service r" "fs_drain_returns (fst (snd r))"
  from in_service_pool [OF r(1)] r show "\<not> pending (run_pool r) \<noteq> {}"
    using drained_quiet pool_trace_inv unfolding in_service_def fs_drain_returns_def run_pool_def by blast
  have "map fst (map (\<lambda>j. (js_job_id (jobs (run_pool r) ! j), outcome (fst r) j)) [0..<length (jobs (run_pool r))]) = run_submitted r"
    by (rule nth_equalityI) (simp_all add: run_submitted_def)
  with arg_cong [OF run_drained_results [OF r], of "image_mset fst"]
  show "mset (map fst (run_results r)) = mset (run_submitted r)" by (simp only: mset_map [symmetric])
qed

text \<open>C14: The file system tier meets the contract of \<open>drain_jobs\<close>. When it returns in a tier that
  is in service, no task is queued or running, so no tier I/O touches the primary memory;
  and what \<open>get_finished_jobs\<close> has returned together with what it returns next is one result
  for each submitted job, with success exactly if none of its tasks failed and its callback
  did not raise. So each job of a distinct identifier has exactly one result.\<close>

theorem drain_jobs_contract:
  assumes run: "fs_reaches cpu_count cfg c_lookup mapper r" and ok: "sane (fst r)" "ShutDown \<notin> set (fst r)"
    and drained: "fs_drain_returns (fst (snd r))"
  shows "pending (run_pool r) = {} \<and>
    mset (run_results r) = mset (map (\<lambda>j. (js_job_id (jobs (run_pool r) ! j), outcome (fst r) j)) [0..<length (jobs (run_pool r))]) \<and>
    (\<forall>j. distinct (run_submitted r) \<and> j \<in> set (run_submitted r) \<longrightarrow> (\<exists>!x. x \<in> set (run_results r) \<and> fst x = j))"
proof -
  have s: "in_service r" using run ok by (auto simp: in_service_def)
  with fs_service.drain_quiet [OF s drained] fs_service.one_result [OF s drained] run_drained_results [OF s drained]
  show ?thesis by blast
qed

text \<open>The failed store of the sample run, after which the tier is drained.\<close>

theorem drain_jobs_contract_witness:
  "pending (run_pool run_failed) = {} \<and> mset (run_results run_failed) = {#(1, True), (2, False)#}"
proof -
  have l: "fst run_failed = [Reported 1 False, CallbackRan 1 False False, TaskRan 1 False, Submitted 1 1,
      Reported 0 True, CallbackRan 0 True False, TaskRan 0 True, Submitted 1 1]" by code_simp
  then have ok: "sane (fst run_failed)" "ShutDown \<notin> set (fst run_failed)" by (simp_all add: sane_def)
  have d: "fs_drain_returns (fst (snd run_failed))" by code_simp
  have j: "map js_job_id (jobs (run_pool run_failed)) = [1, 2]" by code_simp
  have o: "outcome (fst run_failed) 0" "\<not> outcome (fst run_failed) 1" unfolding l by (auto simp: outcome_def)
  have n: "length (jobs (run_pool run_failed)) = 2" "js_job_id (jobs (run_pool run_failed) ! 0) = 1" "js_job_id (jobs (run_pool run_failed) ! 1) = 2"
    using arg_cong [OF j, of length] arg_cong [OF j, of "\<lambda>xs. xs ! 0"] arg_cong [OF j, of "\<lambda>xs. xs ! 1"] by simp_all
  from drain_jobs_contract [OF run_failed_reached ok d] o n show ?thesis by (simp add: upt_rec numeral_2_eq_2)
qed

end
