(* ===== verification/Fs_Progress.thy ===== *)
theory Fs_Progress
  imports Fs_Contract
begin

text \<open>
  Progress of the file system tier: its pool threads, whatever the outcome of every I/O and
  transaction, finish all submitted jobs in a bounded number of moves, and no move of one
  thread can keep the others from theirs.
\<close>

section \<open>Moves of the pool threads\<close>

inductive fs_worker_move :: "fs_run \<Rightarrow> fs_run \<Rightarrow> bool" where
  MoveTake: "worker_take i (fm_pool m) = Some p \<Longrightarrow> fs_worker_move (ls, m, w) (ls, m\<lparr>fm_pool := p\<rparr>, w)"
| MoveDone: "0 < te_iov env \<Longrightarrow> fs_worker_done i env (m, w) = Some (ls', m', w') \<Longrightarrow>
     fs_worker_move (ls, m, w) (ls' @ ls, m', w')"
| MoveReport: "worker_report i (fm_pool m) = Some (j, success, p) \<Longrightarrow>
     fs_worker_move (ls, m, w) (Reported j success # ls, m\<lparr>fm_pool := p\<rparr>, w)"

inductive_cases fs_worker_moveE: "fs_worker_move r r'"

lemma fs_worker_move_step: "fs_worker_move r r' \<Longrightarrow> fs_step c_lookup mapper r r'"
  by (elim fs_worker_moveE) (auto intro: fs_step.intros)

text \<open>A move of the tier is a step of its pool; conversely, the task that a thread has taken can
  end, with any outcome of its I/O.\<close>

lemma move_worker_step: "fs_worker_move r r' \<Longrightarrow> worker_step (run_pool r) (run_pool r')"
  by (elim fs_worker_moveE) (auto simp: run_pool_def elim!: fs_worker_doneE intro: worker_step.intros)

lemma running_task_ends:
  assumes "i < length (threads (fm_pool m))" "snd (threads (fm_pool m) ! i) = Running task j"
  shows "\<exists>ls' m' w'. fs_worker_done i env (m, w) = Some (ls', m', w')"
proof -
  obtain r m1 w1 where r: "run_task env task (m, w) = (r, m1, w1)" by (metis prod_cases3)
  then have p: "fm_pool m1 = fm_pool m" using run_task_frame by blast
  have "worker_done i ok raises (fm_pool m) \<noteq> None" for ok raises
    using assms by (simp add: worker_done_def case_prod_beta Let_def)
  moreover have "fm_pool (fst (snd (run_callback tx plan arg (m1, w1)))) = fm_pool m" for tx plan arg
    using run_callback_frame [of tx plan arg m1 w1] p by (metis prod.collapse)
  ultimately show ?thesis
    using assms p by (auto simp: fs_worker_done_def r Let_def case_prod_beta split: option.splits)
qed

lemma worker_step_move:
  assumes "worker_step (run_pool r) p"
  shows "\<exists>r'. fs_worker_move r r'"
proof -
  obtain ls m w where r: "r = (ls, m, w)" by (cases r)
  from assms show ?thesis
  proof cases
    case (StepDone i ok raises j call)
    then obtain task where "i < length (threads (fm_pool m))" "snd (threads (fm_pool m) ! i) = Running task j"
      by (auto simp: r run_pool_def worker_done_def case_prod_beta Let_def split: if_splits thread_state.splits)
    from running_task_ends [OF this] obtain ls' m' w' where "fs_worker_done i sample_env (m, w) = Some (ls', m', w')" by blast
    from MoveDone [OF _ this] show ?thesis by (auto simp: r sample_env_def)
  qed (auto simp: r run_pool_def intro: fs_worker_move.intros)
qed

lemma worker_step_jobs:
  assumes "worker_step p p'"
  shows "map js_job_id (jobs p') = map js_job_id (jobs p)"
  using assms
proof cases
  case (StepTake i)
  then show ?thesis by (auto simp: worker_take_def pop_task_def set_thread_def split: if_splits option.splits list.splits)
next
  case (StepDone i ok raises j call)
  obtain js c s ca where td: "task_done ok raises (jobs p ! j) = (js, c, s, ca)" by (metis prod_cases4)
  then have "js_job_id js = js_job_id (jobs p ! j)" by (auto simp: task_done_def Let_def split: if_splits)
  moreover have "jobs p' = (jobs p)[j := js]"
    using StepDone arg_cong [OF td, of fst]
    by (auto simp: worker_done_def set_thread_def case_prod_beta Let_def split: if_splits thread_state.splits)
  ultimately show ?thesis by (cases "j < length (jobs p)") (simp_all add: map_update list_update_same_conv list_update_beyond)
next
  case (StepReport i j success)
  then show ?thesis by (auto simp: worker_report_def set_thread_def split: if_splits thread_state.splits)
qed

lemma move_labels:
  "fs_worker_move r r' \<Longrightarrow> (ShutDown \<in> set (fst r') \<longleftrightarrow> ShutDown \<in> set (fst r)) \<and> (sane (fst r') \<longleftrightarrow> sane (fst r))"
  by (elim fs_worker_moveE) (auto simp: done_labels_facts(2) elim!: fs_worker_doneE)

lemma move_submitted: "fs_worker_move r r' \<Longrightarrow> run_submitted r' = run_submitted r"
  using worker_step_jobs [OF move_worker_step] by (simp add: run_submitted_def)

lemma moves_submitted: "(fs_worker_move ^^ n) r r' \<Longrightarrow> run_submitted r' = run_submitted r"
  by (induction n arbitrary: r') (auto simp: move_submitted)

section \<open>The tier finishes\<close>

lemma move_in_service:
  assumes "in_service r" "fs_worker_move r r'"
  shows "in_service r'"
proof -
  from assms(1) obtain cpu_count cfg c_lookup mapper where "fs_reaches cpu_count cfg c_lookup mapper r"
    by (auto simp: in_service_def)
  then have "fs_reaches cpu_count cfg c_lookup mapper r'"
    using fs_worker_move_step [OF assms(2), of c_lookup mapper] unfolding fs_reaches_def
    by (meson rtranclp.rtrancl_into_rtrancl)
  with assms(1) move_labels [OF assms(2)] show ?thesis unfolding in_service_def by blast
qed

lemma busy_tier_moves:
  assumes "in_service r" "\<not> fs_drain_returns (fst (snd r))"
  shows "\<exists>r'. fs_worker_move r r'"
proof -
  obtain ls m w where r: "r = (ls, m, w)" by (cases r)
  from assms(1) obtain cpu_count cfg c_lookup mapper where run: "fs_reaches cpu_count cfg c_lookup mapper (ls, m, w)"
    by (auto simp: in_service_def r)
  obtain nr nw where t: "thread_counts cpu_count (cfg_read_threads cfg) (cfg_write_threads cfg) = (nr, nw)" by fastforce
  have "0 < nat nr + nat nw"
    using thread_counts_pos(1) [of cpu_count "cfg_read_threads cfg" "cfg_write_threads cfg"] by (simp add: t)
  then have "\<exists>p. worker_step (run_pool r) p"
    using busy_pool_steps [OF reaches_pool_trace [OF run t]] assms by (simp add: r in_service_def fs_drain_returns_def run_pool_def)
  then show ?thesis using worker_step_move by blast
qed

interpretation fs_moves: finishing_machine fs_worker_move in_service "\<lambda>r. fs_drain_returns (fst (snd r))" "\<lambda>r. pool_work (run_pool r)"
  by unfold_locales (use move_in_service move_worker_step worker_step_work busy_tier_moves in blast)+

text \<open>Which calls submit a job that has as many tasks as it announces, and at least one: a store or
  load of at least one key, with one block for each key. In the segment layout every store does.\<close>

lemma store_submits_sane:
  assumes "fs_submit_store tx mapper job keys ids (m, w) = (Inr (), m', w')"
    and "fm_segment m \<noteq> None \<or> keys \<noteq> [] \<and> length keys = length ids"
  shows "sane (submit_label (fm_pool m) (fm_pool m') # ls) = sane ls"
  using assms
  by (auto simp: fs_submit_store_def Let_def submit_label_enqueue store_tasks_def split: option.splits prod.splits sum.splits)

lemma load_tasks_nonempty:
  assumes "es \<noteq> []"
  shows "load_tasks mapper es \<noteq> []"
proof
  assume none: "load_tasks mapper es = []"
  then have "mset (located_entries es) = {#}" using mset_segment_chunks [of es] by (simp add: load_tasks_def)
  moreover obtain k b l where "(k, b, l) \<in> set es" using assms by (metis list.set_intros(1) neq_Nil_conv prod_cases3)
  ultimately show False using none
    by (cases l) (force simp: load_tasks_def located_entries_def filter_empty_conv map_filter_def)+
qed

lemma length_locations: "get_locations keys sh s = (locs, s') \<Longrightarrow> length locs = length keys"
  by (auto simp: get_locations_def Let_def split: if_splits prod.splits)

lemma load_submits_sane:
  assumes "fs_submit_load mapper job keys ids (m, w) = (m', w')" "keys \<noteq> []" "length keys = length ids"
  shows "sane (submit_label (fm_pool m) (fm_pool m') # ls) = sane ls"
proof (cases "fm_segment m")
  case (Some s)
  obtain locs s1 where g: "get_locations keys (w_shared w) s = (locs, s1)" by fastforce
  have "zip keys (zip ids locs) \<noteq> []" using assms(2,3) length_locations [OF g] by (cases keys; cases ids; cases locs) auto
  from load_tasks_nonempty [OF this, of mapper] assms(1) Some g show ?thesis
    by (auto simp: fs_submit_load_def Let_def submit_label_enqueue)
qed (use assms in \<open>auto simp: fs_submit_load_def Let_def submit_label_enqueue\<close>)

text \<open>C5: Every submitted job finishes, provided that each has as many tasks as it announces and at
  least one (\<open>sane\<close>: no load without keys and, in the file layout, one block for each of at
  least one key; a job without tasks stays in flight, as \<open>empty_job_hangs\<close> shows). From any such
  state that a new tier reaches before its shutdown, in either layout, the pool threads make at
  most \<open>pool_work\<close> moves, however they interleave and whatever their reads, writes, system
  calls and transactions do; and when no further move is possible, \<open>drain_jobs\<close> returns and
  there is one result for each submitted job.\<close>

theorem fs_jobs_finish:
  assumes run: "fs_reaches cpu_count cfg c_lookup mapper r" and ok: "sane (fst r)" "ShutDown \<notin> set (fst r)"
    and moves: "(fs_worker_move ^^ n) r r'"
  shows "n \<le> pool_work (run_pool r) \<and>
    ((\<exists>r''. fs_worker_move r' r'') \<or>
     fs_drain_returns (fst (snd r')) \<and> mset (map fst (run_results r')) = mset (run_submitted r))"
proof -
  have s: "in_service r" using run ok by (auto simp: in_service_def)
  with fs_moves.steps_work [OF s moves] fs_moves.steps_inv [OF s moves] fs_moves.stops_final [OF s moves]
    fs_service.drain_results [of r'] moves_submitted [OF moves] show ?thesis by auto
qed

text \<open>The store of the sample run, of two blocks: three moves of thread 1.\<close>

lemma turn_moves:
  assumes "turn i env r = Some r'" "0 < te_iov env"
  shows "(fs_worker_move ^^ 3) r r'"
proof -
  obtain ls m w where r: "r = (ls, m, w)" by (cases r)
  obtain p ls1 m1 w1 j s p2 where t: "worker_take i (fm_pool m) = Some p"
    "fs_worker_done i env (m\<lparr>fm_pool := p\<rparr>, w) = Some (ls1, m1, w1)"
    "worker_report i (fm_pool m1) = Some (j, s, p2)" "r' = (Reported j s # ls1 @ ls, m1\<lparr>fm_pool := p2\<rparr>, w1)"
    using assms(1) by (auto simp: turn_def r split: option.splits)
  have "fs_worker_move r (ls, m\<lparr>fm_pool := p\<rparr>, w)" "fs_worker_move (ls, m\<lparr>fm_pool := p\<rparr>, w) (ls1 @ ls, m1, w1)"
    "fs_worker_move (ls1 @ ls, m1, w1) r'"
    unfolding r t(4) by (rule MoveTake [OF t(1)], rule MoveDone [OF assms(2) t(2)], rule MoveReport [OF t(3)])
  then show ?thesis by (auto simp: numeral_3_eq_3)
qed

definition run_submitting :: fs_run where
  "run_submitting = (let (ls, m, w) = run_start; (_, m', w') = fs_submit_store True sample_mapper 1 [''a'', ''b''] [3, 0] (m, w)
     in (submit_label (fm_pool m) (fm_pool m') # ls, m', w'))"

lemma run_submitting_reached: "fs_reaches (Some 2) run_config None sample_mapper run_submitting"
proof -
  obtain m w where st: "run_start = ([], m, w)" by (simp add: run_start_def)
  obtain r m' w' where l: "fs_submit_store True sample_mapper 1 [''a'', ''b''] [3, 0] (m, w) = (r, m', w')" by (metis prod_cases3)
  have v: "\<not> isl (make_fs_manager (Some 2) run_config)" "fm_block_size (fst (snd run_start)) = 2" by code_simp+
  have "fst (fs_submit_store True sample_mapper 1 [''a'', ''b''] [3, 0] (snd run_start)) = Inr ()" by code_simp
  then have r: "r = Inr ()" by (simp add: st l)
  have m: "make_fs_manager (Some 2) run_config = Inr m" using v(1) st by (auto simp: run_start_def isl_def)
  have w: "w_shared w = empty_shared" "w_view w = ''ABCDEFGH''" "fm_block_size m = 2" using v(2) st by (auto simp: run_start_def)
  have "fs_step None sample_mapper ([], m, w) run_submitting"
    unfolding run_submitting_def st by (simp add: l) (rule fs_step.Store [OF _ l [unfolded r]], simp add: block_in_def w)
  then show ?thesis unfolding fs_reaches_def using m w(1) by blast
qed

theorem fs_jobs_finish_witness:
  "\<exists>r'. (fs_worker_move ^^ 3) run_submitting r' \<and> pool_work (run_pool run_submitting) = 5 \<and>
     fs_drain_returns (fst (snd r')) \<and> mset (map fst (run_results r')) = {#1#}"
proof -
  define r' where "r' = the (turn 1 sample_env run_submitting)"
  have v: "turn 1 sample_env run_submitting \<noteq> None" "fst run_submitting = [Submitted 1 1]" "pool_work (run_pool run_submitting) = 5"
    "run_submitted run_submitting = [1]" by code_simp+
  then have "turn 1 sample_env run_submitting = Some r'" by (simp add: r'_def)
  then have m: "(fs_worker_move ^^ 3) run_submitting r'" by (rule turn_moves) (simp add: sample_env_def)
  have "threads (run_pool r') = [(True, Idle), (False, Idle)] \<and> load_q (run_pool r') = [] \<and> store_q (run_pool r') = [] \<and>
      \<not> stop (run_pool r')" unfolding r'_def by code_simp
  then have "\<not> worker_step (run_pool r') p" for p
    by (auto simp: worker_take_def worker_done_def worker_report_def pop_task_def less_Suc_eq nth_Cons' split: if_splits elim!: worker_stepE)
  then have stuck: "\<nexists>r''. fs_worker_move r' r''" using move_worker_step by blast
  have ok: "sane (fst run_submitting)" "ShutDown \<notin> set (fst run_submitting)" by (simp_all add: v(2) sane_def)
  note j = conjunct2 [OF fs_jobs_finish [OF run_submitting_reached ok m]]
  have d: "fs_drain_returns (fst (snd r')) \<and> mset (map fst (run_results r')) = mset (run_submitted run_submitting)"
    using j by (rule disjE) (use stuck in blast)
  have "mset (run_submitted run_submitting) = {#1#}" unfolding v(4) by simp
  with conjunct2 [OF d] have "mset (map fst (run_results r')) = {#1#}" by (rule trans)
  with m v(3) conjunct1 [OF d] show ?thesis by (intro exI [of _ r'] conjI)
qed

end
