(* ===== verification/Fs_Shutdown.thy ===== *)
theory Fs_Shutdown
  imports Fs_Progress Async_Lookup_Policy
begin

text \<open>
  \<open>FileSystemTierManager.shutdown\<close>: it posts the sentinel and joins the lookup thread, stops the
  pool and joins its threads, and closes the segment store. Each join returns: whatever the
  threads do meanwhile, they can move until the joined ones have ended, and only finitely
  often.
\<close>

section \<open>Moves of all threads\<close>

definition lookup_enabled :: "async_lookup \<Rightarrow> bool" where
  "lookup_enabled a \<longleftrightarrow> (case worker a of Waiting \<Rightarrow> lookup_queue a \<noteq> [] | Processing _ \<Rightarrow> True | Stopped \<Rightarrow> False)"

inductive fs_thread_move :: "(string list \<Rightarrow> bool list) option \<Rightarrow> (offload_key \<Rightarrow> string) \<Rightarrow> fs_run \<Rightarrow> fs_run \<Rightarrow> bool"
  for c_lookup mapper where
  MovePool: "fs_worker_move r r' \<Longrightarrow> fs_thread_move c_lookup mapper r r'"
| MoveLookup: "lookup_enabled (fm_lookups m) \<Longrightarrow> fs_thread_move c_lookup mapper (ls, m, w) (ls, fs_lookup_move c_lookup mapper w m, w)"

inductive_cases fs_thread_moveE: "fs_thread_move c_lookup mapper r r'"

definition run_lookups :: "fs_run \<Rightarrow> async_lookup" where
  "run_lookups r = fm_lookups (fst (snd r))"

definition thread_work :: "fs_run \<Rightarrow> nat" where
  "thread_work r = pool_work (run_pool r) + worker_work (run_lookups r)"

lemma fs_thread_move_step: "fs_thread_move c_lookup mapper r r' \<Longrightarrow> fs_step c_lookup mapper r r'"
  by (elim fs_thread_moveE) (auto simp: fs_worker_move_step intro: fs_step.Lookup_Move)

lemma worker_done_lookups:
  assumes "fs_worker_done i env (m, w) = Some (ls', m', w')"
  shows "fm_lookups m' = fm_lookups m"
proof -
  obtain task r m1 w1 p m2 where d: "run_task env task (m, w) = (r, m1, w1)" "m' = m2\<lparr>fm_pool := p\<rparr>"
    "(\<exists>arg plan cr. run_callback (te_tx env) plan arg (m1, w1) = (cr, m2, w')) \<or> m2 = m1"
    by (rule fs_worker_doneE [OF assms], rule that) auto
  from run_task_frame [OF d(1)] d(2,3) run_callback_frame show ?thesis by auto
qed

lemma worker_move_lookups: "fs_worker_move r r' \<Longrightarrow> run_lookups r' = run_lookups r"
  by (elim fs_worker_moveE) (auto simp: run_lookups_def worker_done_lookups)

lemma lookup_move_run:
  "\<exists>f. run_lookups (ls, fs_lookup_move c_lookup mapper w m, w) = worker_move f (run_lookups (ls, m, w)) \<and>
     run_pool (ls, fs_lookup_move c_lookup mapper w m, w) = run_pool (ls, m, w)"
  using lookup_move_frame [of c_lookup mapper w m] by (auto simp: run_lookups_def run_pool_def fs_lookup_move_def Let_def)

lemma enabled_move_work: "lookup_enabled a \<Longrightarrow> worker_work (worker_move f a) < worker_work a"
  by (auto simp: lookup_enabled_def worker_work_def worker_move_def Let_def split: worker_state.splits list.splits option.splits)

lemma thread_move_work: "fs_thread_move c_lookup mapper r r' \<Longrightarrow> thread_work r' < thread_work r"
proof (erule fs_thread_moveE)
  assume m: "fs_worker_move r r'"
  from worker_step_work [OF move_worker_step [OF m]] worker_move_lookups [OF m] show ?thesis by (simp add: thread_work_def)
next
  fix m ls w assume e: "r = (ls, m, w)" "r' = (ls, fs_lookup_move c_lookup mapper w m, w)" "lookup_enabled (fm_lookups m)"
  obtain f where "run_lookups r' = worker_move f (run_lookups r)" "run_pool r' = run_pool r"
    using lookup_move_run [of ls c_lookup mapper w m] e by blast
  with enabled_move_work [of "fm_lookups m" f] e(3) show ?thesis by (simp add: thread_work_def run_lookups_def e(1))
qed

section \<open>The joins\<close>

definition served :: "(string list \<Rightarrow> bool list) option \<Rightarrow> (offload_key \<Rightarrow> string) \<Rightarrow> fs_run \<Rightarrow> bool" where
  "served c_lookup mapper r \<longleftrightarrow> (\<exists>cpu_count cfg. fs_reaches cpu_count cfg c_lookup mapper r)"

text \<open>The lookup thread: its sentinel is on the way, or it has ended.\<close>

definition lookups_ending :: "fs_run \<Rightarrow> bool" where
  "lookups_ending r \<longleftrightarrow> worker (run_lookups r) = Stopped \<or> None \<in> set (lookup_queue (run_lookups r))"

lemma worker_move_ending:
  "worker a = Stopped \<or> None \<in> set (lookup_queue a) \<Longrightarrow>
     worker (worker_move f a) = Stopped \<or> None \<in> set (lookup_queue (worker_move f a))"
  by (auto simp: worker_move_def Let_def split: worker_state.splits list.splits option.splits)

lemma served_step:
  assumes "served c_lookup mapper r" "fs_step c_lookup mapper r r'"
  shows "served c_lookup mapper r'"
  using assms unfolding served_def fs_reaches_def by (meson rtranclp.rtrancl_into_rtrancl)

lemma thread_move_served:
  assumes "served c_lookup mapper r" "fs_thread_move c_lookup mapper r r'"
  shows "served c_lookup mapper r'"
  by (rule served_step [OF assms(1) fs_thread_move_step [OF assms(2)]])

lemma thread_move_ending: "lookups_ending r \<Longrightarrow> fs_thread_move c_lookup mapper r r' \<Longrightarrow> lookups_ending r'"
proof (erule fs_thread_moveE)
  assume "lookups_ending r" "fs_worker_move r r'"
  then show ?thesis by (simp add: lookups_ending_def worker_move_lookups)
next
  fix m ls w assume l: "lookups_ending r" and e: "r = (ls, m, w)" "r' = (ls, fs_lookup_move c_lookup mapper w m, w)"
  obtain f where "run_lookups r' = worker_move f (run_lookups r)" using lookup_move_run [of ls c_lookup mapper w m] e by blast
  with l worker_move_ending [of "run_lookups r" f] show ?thesis by (simp add: lookups_ending_def)
qed

interpretation lookup_join: finishing_machine "fs_thread_move c_lookup mapper" "\<lambda>r. served c_lookup mapper r \<and> lookups_ending r"
  "\<lambda>r. worker (run_lookups r) = Stopped" thread_work for c_lookup mapper
proof (unfold_locales, goal_cases)
  case (3 r)
  then have "lookup_enabled (run_lookups r)" by (auto simp: lookups_ending_def lookup_enabled_def split: worker_state.splits)
  then show ?case by (cases r) (auto simp: run_lookups_def intro: MoveLookup)
qed (use thread_move_served thread_move_ending thread_move_work in blast)+

text \<open>The pool after its shutdown: nothing is queued any more, and its threads end.\<close>

definition pool_ending :: "fs_run \<Rightarrow> bool" where
  "pool_ending r \<longleftrightarrow> ShutDown \<in> set (fst r) \<and> load_q (run_pool r) = [] \<and> store_q (run_pool r) = []"

definition pool_ended :: "fs_run \<Rightarrow> bool" where
  "pool_ended r \<longleftrightarrow> (\<forall>(b, t) \<in> set (threads (run_pool r)). t = Exited)"

lemma served_pool: "served c_lookup mapper r \<Longrightarrow> \<exists>a b. pool_trace a b (fst r) (run_pool r)"
  unfolding served_def run_pool_def using reaches_pool_trace by (metis prod.collapse)

lemma worker_step_queues: "worker_step p p' \<Longrightarrow> load_q p = [] \<Longrightarrow> store_q p = [] \<Longrightarrow> load_q p' = [] \<and> store_q p' = []"
  by (elim worker_stepE)
    (auto simp: worker_take_def worker_done_def worker_report_def pop_task_def set_thread_def case_prod_beta Let_def
      split: if_splits thread_state.splits)

lemma move_pool_ending: "pool_ending r \<Longrightarrow> fs_worker_move r r' \<Longrightarrow> pool_ending r'"
  using worker_step_queues [OF move_worker_step] move_labels by (auto simp: pool_ending_def)

interpretation pool_join: finishing_machine fs_worker_move "\<lambda>r. served c_lookup mapper r \<and> pool_ending r"
  pool_ended "\<lambda>r. pool_work (run_pool r)" for c_lookup mapper
proof (unfold_locales, goal_cases)
  case (1 r r')
  then show ?case using thread_move_served [OF _ MovePool] move_pool_ending by blast
next
  case (2 r r')
  then show ?case by (intro worker_step_work move_worker_step) simp
next
  case (3 r)
  obtain a b where t: "pool_trace a b (fst r) (run_pool r)" using served_pool 3 by blast
  have "\<exists>b th. (b, th) \<in> set (threads (run_pool r)) \<and> th \<noteq> Exited" using 3 by (auto simp: pool_ended_def)
  with 3 have "\<exists>p. worker_step (run_pool r) p"
    by (intro stopped_pool_steps [OF t]) (auto simp: pool_ending_def)
  then show ?case using worker_step_move by blast
qed

lemma ended_quiet: "pool_ending r \<Longrightarrow> pool_ended r \<Longrightarrow> pending (run_pool r) = {}"
  by (auto simp: pool_ending_def pool_ended_def pending_def)

section \<open>Shutdown returns\<close>

text \<open>The two halves of \<open>shutdown\<close>: \<open>fs_stop_lookups\<close> before the first join, \<open>fs_stop_pool\<close> before the second.\<close>

definition fs_stop_lookups :: "fs_run \<Rightarrow> fs_run" where
  "fs_stop_lookups = (\<lambda>(ls, m, w). (ls, fs_shutdown_lookups m, w))"

definition fs_stop_pool :: "fs_run \<Rightarrow> fs_run" where
  "fs_stop_pool = (\<lambda>(ls, m, w). (ShutDown # ls, fs_shutdown_pool m, w))"

lemma stop_lookups: "served c_lookup mapper r \<Longrightarrow> served c_lookup mapper (fs_stop_lookups r) \<and> lookups_ending (fs_stop_lookups r)"
  using served_step [of c_lookup mapper r "fs_stop_lookups r"]
  by (cases r) (auto simp: fs_stop_lookups_def lookups_ending_def run_lookups_def fs_shutdown_lookups_def post_sentinel_def served_def
      intro: fs_step.Shutdown_Lookups [unfolded fs_shutdown_lookups_def post_sentinel_def])

lemma stop_pool: "served c_lookup mapper r \<Longrightarrow> served c_lookup mapper (fs_stop_pool r) \<and> pool_ending (fs_stop_pool r)"
  using served_step [of c_lookup mapper r "fs_stop_pool r"]
  by (cases r) (auto simp: fs_stop_pool_def pool_ending_def run_pool_def fs_shutdown_pool_def pool_shutdown_def served_def
      intro: fs_step.Shutdown_Pool [unfolded fs_shutdown_pool_def pool_shutdown_def])

text \<open>C6: \<open>shutdown\<close> returns, and leaves no I/O behind. In any state that a new tier reaches, whatever was
  submitted to it (a job without tasks, which \<open>drain_jobs\<close> would wait for, included): after the
  sentinel is posted, the threads of the tier make a bounded number of moves, and some thread
  can move until the lookup thread has ended, so that its join returns; after the pool is
  stopped, its threads make a bounded number of moves, and some thread can move until all
  have ended; then no transfer is queued or running, so the segment store can be closed.\<close>

theorem fs_shutdown_returns:
  assumes run: "fs_reaches cpu_count cfg c_lookup mapper r"
    and moves: "(fs_thread_move c_lookup mapper ^^ n) (fs_stop_lookups r) r1"
  shows "n \<le> thread_work (fs_stop_lookups r) \<and>
    (worker (run_lookups r1) = Stopped \<or> (\<exists>r'. fs_thread_move c_lookup mapper r1 r')) \<and>
    (\<forall>k r2. (fs_worker_move ^^ k) (fs_stop_pool r1) r2 \<longrightarrow>
       k \<le> pool_work (run_pool (fs_stop_pool r1)) \<and>
       (pool_ended r2 \<and> pending (run_pool r2) = {} \<or> (\<exists>r'. fs_worker_move r2 r')))"
proof -
  have s: "served c_lookup mapper r" using run by (auto simp: served_def)
  note l = stop_lookups [OF s]
  note s1 = lookup_join.steps_inv [OF l moves]
  have first: "n \<le> thread_work (fs_stop_lookups r)" "worker (run_lookups r1) = Stopped \<or> (\<exists>r'. fs_thread_move c_lookup mapper r1 r')"
    using lookup_join.steps_work [OF l moves] lookup_join.not_stuck [OF s1] by auto
  note p = stop_pool [OF conjunct1 [OF s1]]
  have "k \<le> pool_work (run_pool (fs_stop_pool r1)) \<and>
      (pool_ended r2 \<and> pending (run_pool r2) = {} \<or> (\<exists>r'. fs_worker_move r2 r'))"
    if k: "(fs_worker_move ^^ k) (fs_stop_pool r1) r2" for k r2
    using pool_join.steps_work [OF p k] pool_join.steps_inv [OF p k] pool_join.not_stuck [OF pool_join.steps_inv [OF p k]] ended_quiet [of r2]
    by auto
  with first show ?thesis by blast
qed

text \<open>The tier is shut down while a store waits for a thread: the store is dropped.\<close>

definition take_moves :: "nat list \<Rightarrow> fs_run \<Rightarrow> fs_run" where
  "take_moves is r = fold (\<lambda>i (ls, m, w). (ls, m\<lparr>fm_pool := the (worker_take i (fm_pool m))\<rparr>, w)) is r"

lemma take_moves_moves:
  assumes "list_all (\<lambda>i. worker_take (is ! i) (run_pool (take_moves (take i is) r)) \<noteq> None) [0..<length is]"
  shows "(fs_worker_move ^^ length is) r (take_moves is r)"
  using assms
proof (induction "is" rule: rev_induct)
  case (snoc i xs)
  let ?r = "take_moves xs r"
  have "list_all (\<lambda>i. worker_take (xs ! i) (run_pool (take_moves (take i xs) r)) \<noteq> None) [0..<length xs]"
    using snoc.prems by (auto simp: list_all_iff nth_append)
  then have 1: "(fs_worker_move ^^ length xs) r ?r" by (rule snoc.IH)
  have "worker_take i (run_pool ?r) \<noteq> None" using snoc.prems by (auto simp: list_all_iff)
  then have "fs_worker_move ?r (take_moves (xs @ [i]) r)"
    by (cases ?r) (auto simp: take_moves_def run_pool_def intro: MoveTake)
  with 1 show ?case by auto
qed (simp add: take_moves_def)

theorem fs_shutdown_returns_witness:
  "\<exists>r1 r2. (fs_thread_move None sample_mapper ^^ 1) (fs_stop_lookups run_submitting) r1 \<and> worker (run_lookups r1) = Stopped \<and>
     (fs_worker_move ^^ 2) (fs_stop_pool r1) r2 \<and> pool_ended r2 \<and> pending (run_pool r2) = {}"
proof -
  obtain ls m w where r: "fs_stop_lookups run_submitting = (ls, m, w)" by (metis prod_cases3)
  define r1 where "r1 = (let (ls, m, w) = fs_stop_lookups run_submitting in (ls, fs_lookup_move None sample_mapper w m, w))"
  have "lookup_enabled (run_lookups (fs_stop_lookups run_submitting))" by code_simp
  then have "fs_thread_move None sample_mapper (fs_stop_lookups run_submitting) r1"
    unfolding r1_def r by (simp add: run_lookups_def MoveLookup)
  then have m1: "(fs_thread_move None sample_mapper ^^ 1) (fs_stop_lookups run_submitting) r1"
    unfolding One_nat_def by auto
  have stopped: "worker (run_lookups r1) = Stopped" unfolding r1_def by code_simp
  define r2 where "r2 = take_moves [0, 1] (fs_stop_pool r1)"
  have "list_all (\<lambda>i. worker_take ([0, 1] ! i) (run_pool (take_moves (take i [0, 1]) (fs_stop_pool r1))) \<noteq> None) [0..<length [0::nat, 1]]"
    unfolding r1_def by code_simp
  from take_moves_moves [OF this] have m2: "(fs_worker_move ^^ 2) (fs_stop_pool r1) r2" by (simp add: r2_def numeral_2_eq_2)
  have work: "pool_work (run_pool (fs_stop_pool r1)) = 2" unfolding r1_def by code_simp
  have f: "k \<le> 2 \<and> (pool_ended r' \<and> pending (run_pool r') = {} \<or> (\<exists>r''. fs_worker_move r' r''))"
    if "(fs_worker_move ^^ k) (fs_stop_pool r1) r'" for k r'
    using fs_shutdown_returns [OF run_submitting_reached m1] that work by metis
  have "\<not> fs_worker_move r2 r'" for r'
  proof
    assume "fs_worker_move r2 r'"
    with m2 have "(fs_worker_move ^^ Suc 2) (fs_stop_pool r1) r'" by (rule relpowp_Suc_I)
    with f show False by fastforce
  qed
  with f [OF m2] have "pool_ended r2" "pending (run_pool r2) = {}" by blast+
  with m1 stopped m2 show ?thesis by (intro exI [of _ r1] exI [of _ r2] conjI)
qed

end
