(* ===== verification/Fs_Setup.thy ===== *)
theory Fs_Setup
  imports Fs_Manager_Props
begin

text \<open>
  The parts of \<open>FileSystemTierManager.__init__\<close> that touch the file system: the geometry that
  \<open>FileMapper\<close> is asked for, the file of the run configuration and the root of the segment
  store. \<open>FileMapper\<close> is another package: the paths and the configuration text that it gives
  for a geometry are arguments.
\<close>

section \<open>Paths\<close>

record tier_spec =
  ts_copy_backend :: "string option"
  ts_block_size_factor :: int
  ts_blocks_per_chunk :: int

datatype geometry = Gpu_Blocks_Per_File int | Blocks_Per_File int

record file_mapper =
  fp_base_path :: string
  fp_rank :: nat
  fp_rank_path :: string
  fp_config_path :: string
  fp_run_config :: bytes

definition ascend_profile :: "tier_spec \<Rightarrow> bool" where
  "ascend_profile spec \<longleftrightarrow> ts_copy_backend spec = Some ''torch_sync''"

definition mapper_geometry :: "tier_spec \<Rightarrow> geometry" where
  "mapper_geometry spec =
     (if ascend_profile spec then Gpu_Blocks_Per_File (ts_block_size_factor spec)
      else Blocks_Per_File (ts_blocks_per_chunk spec))"

text \<open>\<open>os.path.join\<close> of two paths.\<close>

definition os_path_join :: "string \<Rightarrow> string \<Rightarrow> string" where
  "os_path_join a b =
     (if b \<noteq> [] \<and> hd b = CHR ''/'' then b
      else if a = [] \<or> last a = CHR ''/'' then a @ b
      else a @ ''/'' @ b)"

definition segment_root :: "tier_spec \<Rightarrow> file_mapper \<Rightarrow> string" where
  "segment_root spec fp =
     os_path_join (if ascend_profile spec then fp_base_path fp @ ''_r'' @ decimal (fp_rank fp) else fp_rank_path fp)
       ''segments''"

section \<open>The run configuration\<close>

text \<open>
  What the system calls answer. A write that fails part way leaves the bytes written so far:
  the file is not written under a temporary name, as blocks are.
\<close>

datatype config_io = Config_Written | Mkdir_Fails | Open_Fails | Write_Fails nat

definition write_config :: "config_io \<Rightarrow> string \<Rightarrow> bytes \<Rightarrow> (string \<times> bytes) list \<Rightarrow> unit result \<times> (string \<times> bytes) list" where
  "write_config io path run_config files =
     (if io = Mkdir_Fails then (Inl (OSError ''makedirs''), files)
      else if map_of files path \<noteq> None then (Inr (), files)
      else case io of
             Write_Fails n \<Rightarrow> (Inl (OSError ''write''), AList.update path (take n run_config) files)
           | Config_Written \<Rightarrow> (Inr (), AList.update path run_config files)
           | _ \<Rightarrow> (Inl (OSError ''open''), files))"

section \<open>The constructor\<close>

text \<open>What \<open>__init__\<close> checks before it touches the file system.\<close>

definition config_error :: "fs_config \<Rightarrow> py_error option" where
  "config_error cfg =
     (case cfg_strides cfg of
        None \<Rightarrow> Some AssertionError
      | Some bs \<Rightarrow>
          if cfg_storage_layout cfg \<notin> {''file'', ''segment''}
          then Some (ValueError ''storage_layout must be file or segment'')
          else if cfg_io_batch cfg < 0 then Some (ValueError ''segment_io_batch_blocks must be non-negative'')
          else if cfg_shards cfg < 0 then Some (ValueError ''segment_shards must be non-negative'')
          else if cfg_io_batch cfg = 0 \<and> bs = 0 then Some ZeroDivisionError
          else None)"

text \<open>The whole constructor: the manager and the root of its segment store, if it has one.\<close>

definition construct_tier :: "(geometry \<Rightarrow> file_mapper) \<Rightarrow> config_io \<Rightarrow> int option \<Rightarrow> tier_spec \<Rightarrow> fs_config \<Rightarrow>
    (string \<times> bytes) list \<Rightarrow> (fs_manager \<times> string option) result \<times> (string \<times> bytes) list" where
  "construct_tier from_spec io cpu_count spec cfg files =
     (case config_error cfg of
        Some e \<Rightarrow> (Inl e, files)
      | None \<Rightarrow>
          let fp = from_spec (mapper_geometry spec);
              (r, files) = write_config io (fp_config_path fp) (fp_run_config fp) files
          in (bind_result r (\<lambda>_. bind_result (make_fs_manager cpu_count cfg)
                (\<lambda>m. Inr (m, if cfg_storage_layout cfg = ''segment'' then Some (segment_root spec fp) else None))), files))"

section \<open>Properties\<close>

text \<open>The early checks are the ones of \<open>make_fs_manager\<close>.\<close>

lemma config_error_rejects: "config_error cfg = Some e \<Longrightarrow> make_fs_manager cpu_count cfg = Inl e"
  by (auto simp: config_error_def make_fs_manager_def Let_def split: option.splits if_splits prod.splits)

lemma write_config_ok: "snd (write_config Config_Written path c files) = write_config_file path c files"
  by (simp add: write_config_def write_config_file_def)

lemma write_config_effect:
  "map_of (snd (write_config io path c files)) p =
     (if p = path \<and> map_of files path = None
      then (case io of Config_Written \<Rightarrow> Some c | Write_Fails n \<Rightarrow> Some (take n c) | _ \<Rightarrow> None)
      else map_of files p)"
  by (cases io) (auto simp: write_config_def update_conv' split: option.splits)

text \<open>A tier is constructed exactly when its configuration is accepted and the file of the run
  configuration is there or can be written; a rejected configuration leaves no file, and an
  existing file of any kind is left as it is.\<close>

theorem construct_tier_correct:
  assumes "construct_tier from_spec io cpu_count spec cfg files = (r, files')"
  shows "(\<forall>p c. map_of files p = Some c \<longrightarrow> map_of files' p = Some c)"
    "config_error cfg \<noteq> None \<Longrightarrow> files' = files"
    "r = Inr (m, dir) \<Longrightarrow> make_fs_manager cpu_count cfg = Inr m \<and>
       map_of files' (fp_config_path (from_spec (mapper_geometry spec))) \<noteq> None \<and>
       (dir \<noteq> None \<longleftrightarrow> fm_segment m \<noteq> None)"
proof -
  let ?fp = "from_spec (mapper_geometry spec)"
  obtain w files1 where w: "write_config io (fp_config_path ?fp) (fp_run_config ?fp) files = (w, files1)" by fastforce
  show "\<forall>p c. map_of files p = Some c \<longrightarrow> map_of files' p = Some c"
    using assms w write_config_effect [of io "fp_config_path ?fp" "fp_run_config ?fp" files]
    by (auto simp: construct_tier_def Let_def split: option.splits)
  show "config_error cfg \<noteq> None \<Longrightarrow> files' = files"
    using assms by (auto simp: construct_tier_def)
  assume "r = Inr (m, dir)"
  with assms w have r: "w = Inr ()" "files' = files1" "make_fs_manager cpu_count cfg = Inr m"
    "dir = (if cfg_storage_layout cfg = ''segment'' then Some (segment_root spec ?fp) else None)"
    by (auto simp: construct_tier_def bind_result_def Let_def split: option.splits sum.splits)
  from w r(1) have "map_of files1 (fp_config_path ?fp) \<noteq> None"
    by (auto simp: write_config_def update_conv' split: if_splits config_io.splits)
  moreover have "cfg_storage_layout cfg = ''segment'' \<longleftrightarrow> fm_segment m \<noteq> None"
    using r(3) by (auto simp: make_fs_manager_def bind_result_def Let_def split: option.splits if_splits prod.splits sum.splits)
  ultimately show "make_fs_manager cpu_count cfg = Inr m \<and> map_of files' (fp_config_path ?fp) \<noteq> None \<and>
       (dir \<noteq> None \<longleftrightarrow> fm_segment m \<noteq> None)" using r by simp
qed

text \<open>The file keeps the first configuration, however many tiers start after it, even if only a
  part of it could be written.\<close>

lemma first_config_kept:
  assumes "map_of files p = Some c"
  shows "map_of (fold (\<lambda>(io, cpu, spec, cfg) files. snd (construct_tier from_spec io cpu spec cfg files)) starts files) p = Some c"
  using assms
proof (induction starts arbitrary: files)
  case (Cons s starts)
  obtain io cpu spec cfg where s: "s = (io, cpu, spec, cfg)" by (cases s) auto
  obtain r files' where c: "construct_tier from_spec io cpu spec cfg files = (r, files')" by fastforce
  with construct_tier_correct(1) [OF c] Cons.prems have "map_of files' p = Some c" by blast
  from Cons.IH [OF this] show ?case by (simp add: s c)
qed simp

lemma last_decimal: "last (decimal n) \<noteq> CHR ''/''"
proof -
  have "char_of (48 + d) \<noteq> CHR ''/''" if "d < 10" for d :: nat
  proof
    assume "char_of (48 + d) = CHR ''/''"
    then have "of_char (char_of (48 + d) :: char) = (of_char (CHR ''/'') :: nat)" by simp
    with that show False by simp
  qed
  from this [of n] this [of "n mod 10"] show ?thesis by (simp add: decimal.simps [of n])
qed

text \<open>With the Ascend profile, ranks of one model have segment stores of their own.\<close>

lemma ascend_root: "ascend_profile spec \<Longrightarrow> segment_root spec fp = fp_base_path fp @ ''_r'' @ decimal (fp_rank fp) @ ''/segments''"
  using last_decimal [of "fp_rank fp"] by (simp add: segment_root_def os_path_join_def decimal_nonempty)

theorem ranks_apart:
  assumes "ascend_profile spec" "fp_base_path fp = fp_base_path fp'" "fp_rank fp \<noteq> fp_rank fp'"
  shows "segment_root spec fp \<noteq> segment_root spec fp'"
  using assms decimal_inj by (auto simp: ascend_root)

end
