(* ===== verification/Fs_Healthy.thy ===== *)
theory Fs_Healthy
  imports Fs_Stable
begin

text \<open>
  What the theorems on single jobs expect of the tier holds in every state that a tier of its
  own index reaches: the location cache only knows what the index knows, and all
  indexed blocks can be loaded.
\<close>

section \<open>The location cache\<close>

definition cache_ok :: "fs_manager \<Rightarrow> fs_world \<Rightarrow> bool" where
  "cache_ok m w \<longleftrightarrow> (\<forall>s. fm_segment m = Some s \<longrightarrow> cache_current (w_shared w) s)"

lemma cache_current_cong: "db_blocks sh' = db_blocks sh \<Longrightarrow> cache_current sh' s = cache_current sh s"
  by (simp add: cache_current_def)

lemma get_locations_current:
  "keys_distinct sh \<Longrightarrow> cache_current sh s \<Longrightarrow> cache_current sh (snd (get_locations keys sh s))"
  using locate_current [of sh s] by (auto simp: cache_current_def get_locations_spec(2) split: if_splits)

lemma prepare_store_current:
  assumes "prepare_store tx keys ids sh s = (r, sh', s')" "keys_distinct sh" "cache_current sh s"
  shows "cache_current sh' s'"
proof -
  have "db_blocks sh' = db_blocks sh \<and> (s' = s \<or> s' = snd (get_locations keys sh s))"
    using assms(1) by (auto simp: prepare_store_def contains_many_def Let_def case_prod_beta split: if_splits)
  with assms(2,3) get_locations_current show ?thesis by (metis cache_current_cong)
qed

lemma delete_current:
  assumes "delete tx keys sh s = (r, sh', s')" "cache_current sh s"
  shows "cache_current sh' s'"
proof (cases tx)
  case True
  with assms(1) have e: "sh' = sh\<lparr>db_blocks := filter (\<lambda>(k, _). k \<notin> set keys) (db_blocks sh)\<rparr>"
    "s' = s\<lparr>location_cache := filter (\<lambda>(k, _). k \<notin> set keys \<inter> dom (map_of (db_blocks sh))) (location_cache s)\<rparr>"
    by (simp_all add: delete_spec)
  have "map_of (db_blocks sh') k = Some l" if "map_of (location_cache s') k = Some l" for k l
  proof -
    have "k \<notin> set keys \<inter> dom (map_of (db_blocks sh))" "map_of (location_cache s) k = Some l"
      using that map_of_filter_keys [where P = "\<lambda>k. k \<notin> set keys \<inter> dom (map_of (db_blocks sh))" and d = "location_cache s" and k = k]
      by (simp_all only: e segment_store.simps split: if_splits) simp_all
    with assms(2) map_of_filter_keys [where P = "\<lambda>k. k \<notin> set keys" and d = "db_blocks sh" and k = k]
    show ?thesis by (auto simp: cache_current_def e)
  qed
  then show ?thesis by (simp add: cache_current_def)
next
  case False
  with assms show ?thesis by (auto simp: delete_def Let_def split: if_splits)
qed

lemma load_many_current:
  assumes "load_many iov tx keys buf ids (Some locs) iob io sh s = (r, buf', sh', s')" "cache_current sh s"
  shows "cache_current sh' s'"
proof -
  have "sh' = sh \<and> s' = s \<or> (\<exists>r. delete tx keys sh s = (r, sh', s'))"
    using assms(1) by (auto simp: load_many_def Let_def split: if_splits prod.splits sum.splits)
  with assms(2) delete_current show ?thesis by blast
qed

lemma complete_store_current:
  assumes "complete_store tx es success sh s = (r, sh', s')" "keys_distinct sh" "cache_current sh s"
  shows "cache_current sh' s'"
proof -
  let ?sh = "sh\<lparr>db_blocks := fold (\<lambda>e d. setdefault (sw_key e) (entry_location (block_size s, e)) d) es (db_blocks sh)\<rparr>"
  have kd: "keys_distinct ?sh" using assms(2) by (simp add: keys_distinct_def distinct_insert_entries)
  have "cache_current ?sh s" using assms(3) by (simp add: cache_current_def insert_entries_old)
  from get_locations_current [OF kd this] assms show ?thesis
    by (auto simp: complete_store_def entry_location_def Let_def case_prod_beta split: if_splits)
qed

lemma run_task_cache:
  assumes "run_task env t (m, w) = (r, m1, w1)" "cache_ok m w"
  shows "cache_ok m1 w1"
proof (cases t)
  case (LoadMany chunk)
  with assms load_many_current show ?thesis by (auto simp: cache_ok_def split: option.splits prod.splits)
next
  case (WriteEntries es)
  show ?thesis
  proof (cases "fm_segment m")
    case None
    with assms WriteEntries show ?thesis by simp
  next
    case (Some s)
    obtain sh where w: "write_entries (te_iov env) (Some (fm_io_batch m)) es (w_view w) (te_io env) (w_shared w) s = (r, sh)"
      and e: "m1 = m" "w1 = w\<lparr>w_shared := sh\<rparr>"
      using assms(1) Some by (auto simp: WriteEntries split: prod.splits)
    have "db_blocks sh = db_blocks (w_shared w)" using write_entries_index [OF w] by simp
    from cache_current_cong [OF this] assms(2) show ?thesis by (simp add: cache_ok_def e)
  qed
qed (use assms in \<open>auto simp: cache_ok_def split: prod.splits\<close>)

lemma run_callback_cache:
  assumes "run_callback tx plan success (m, w) = (r, m', w')" "cache_ok m w" "keys_distinct (w_shared w)"
  shows "cache_ok m' w'"
  using assms complete_store_current by (auto simp: run_callback_def cache_ok_def split: option.splits prod.splits)

lemma fs_batch_lookup_cache:
  assumes "keys_distinct (w_shared w)" "cache_ok m w"
  shows "cache_ok (snd (fs_batch_lookup c mapper ks m w)) w"
  using assms get_locations_current
  by (auto simp: fs_batch_lookup_def cache_ok_def contains_many_def Let_def case_prod_beta split: option.splits)

lemma fs_batch_lookups_cache:
  "keys_distinct (w_shared w) \<Longrightarrow> cache_ok m w \<Longrightarrow>
     cache_ok (fold (\<lambda>(_, _, keys) m. snd (fs_batch_lookup c mapper keys m w)) xs m) w"
  by (induction xs arbitrary: m) (auto simp: fs_batch_lookup_cache)

lemma index_inv_distinct: "index_inv (sh, plans) \<Longrightarrow> keys_distinct sh"
  by (simp add: index_inv_def)

lemma cache_step:
  assumes step: "fs_step c_lookup mapper (ls, m, w) (ls', m', w')" and inv: "rest_inv m w" and ok: "cache_ok m w"
  shows "cache_ok m' w'"
proof -
  have kd: "keys_distinct (w_shared w)" using inv by (auto simp: rest_inv_def index_inv_def)
  from step show ?thesis
  proof cases
    case (Store ids tx job_id keys)
    then show ?thesis using ok prepare_store_current [OF _ kd]
      by (auto simp: fs_submit_store_def cache_ok_def Let_def split: option.splits prod.splits sum.splits)
  next
    case (Store_Raises tx job_id keys ids e)
    then show ?thesis using ok prepare_store_current [OF _ kd]
      by (auto simp: fs_submit_store_def cache_ok_def Let_def split: option.splits prod.splits sum.splits)
  next
    case (Load job_id keys ids)
    then show ?thesis using ok get_locations_current [OF kd]
      by (auto simp: fs_submit_load_def cache_ok_def Let_def case_prod_beta split: option.splits)
  next
    case (Done env i ls1)
    obtain t r m1 w1 p m2 where d: "run_task env t (m, w) = (r, m1, w1)" "m' = m2\<lparr>fm_pool := p\<rparr>"
      "(\<exists>arg plan cr. run_callback (te_tx env) plan arg (m1, w1) = (cr, m2, w')) \<or> m2 = m1 \<and> w' = w1"
      by (rule fs_worker_doneE [OF Done(3)], rule that) auto
    have st: "tier_static m" "0 < te_iov env" using inv Done by (simp_all add: rest_inv_def)
    have "keys_distinct (w_shared w1)"
      using task_effect(3) [OF d(1) st] inv by (auto simp: rest_inv_def index_shrinks_def intro: index_inv_distinct)
    with run_task_cache [OF d(1) ok] run_callback_cache d(3) have "cache_ok m2 w'" by metis
    then show ?thesis by (simp add: d(2) cache_ok_def)
  next
    case (Delete tx denied keys r)
    then show ?thesis using ok delete_current
      by (auto simp: fs_delete_def cache_ok_def Let_def split: option.splits prod.splits sum.splits)
  next
    case Lookup_Move
    then show ?thesis using fs_batch_lookups_cache [OF kd ok] ok
      by (auto simp: fs_lookup_move_def cache_ok_def Let_def split: worker_state.splits)
  next
    case Shutdown_Segment
    with ok show ?thesis by (auto simp: fs_shutdown_segment_def cache_ok_def close_def cache_current_def)
  qed (use ok in \<open>auto simp: cache_ok_def fs_get_finished_jobs_def fs_lookup_def fs_on_schedule_end_def fs_shutdown_lookups_def
        fs_shutdown_pool_def fs_on_request_finished_def bind_result_def Let_def split: prod.splits option.splits sum.splits\<close>)
qed


section \<open>Every reachable tier is healthy\<close>

lemma rest_healthy:
  assumes inv: "rest_inv m w" and cache: "cache_ok m w"
  obtains s xs where "fm_segment m = Some s" "block_size s = fm_block_size m" "0 < fm_io_batch m" "healthy (w_shared w) s xs"
proof -
  note iv = inv [unfolded rest_inv_def]
  then obtain s where s: "fm_segment m = Some s" "block_size s = fm_block_size m" "0 < fm_block_size m" "0 < fm_io_batch m"
    "fm_block_size m \<le> segment_size_bytes s" "0 < segment_shards s" by (auto simp: tier_static_def)
  let ?pe = "plan_entries (plans_of (fm_block_size m) (fm_pool m))"
  from iv obtain xs where xs: "mset xs = mset (map entry_extent ?pe)" "db_alloc_ok (w_shared w) xs" and kd: "keys_distinct (w_shared w)"
    and loc: "\<And>k l. map_of (db_blocks (w_shared w)) k = Some l \<Longrightarrow> \<exists>be \<in> set ?pe. l = entry_location be"
    unfolding index_inv_def by blast
  have "loc_extent l \<in> set xs" if l: "map_of (db_blocks (w_shared w)) k = Some l" for k l
  proof -
    from loc [OF l] obtain be where be: "be \<in> set ?pe" "l = entry_location be" by blast
    then have "loc_extent l = entry_extent be" by (simp add: loc_extent_def entry_location_def extent_of_def)
    with be(1) mset_eq_setD [OF xs(1)] show ?thesis by simp
  qed
  then have "indexed_extents (w_shared w) xs" by (simp add: indexed_extents_def)
  moreover have "loadable (block_size s) (seg_files (w_shared w)) l" if "map_of (db_blocks (w_shared w)) k = Some l" for k l
  proof -
    have "at_rest (fm_block_size m) (fm_pool m) (seg_files (w_shared w)) l" using iv that by blast
    then show ?thesis by (auto simp: at_rest_def settled_def loadable_def entry_location_def s(2))
  qed
  moreover have "cache_current (w_shared w) s" using cache s(1) by (simp add: cache_ok_def)
  ultimately have "healthy (w_shared w) s xs" using kd xs(2) s by (simp add: healthy_def)
  with that [OF s(1,2,4)] show thesis .
qed

lemma healthy_steps:
  assumes "(fs_step c_lookup mapper)\<^sup>*\<^sup>* (ls, m, w) (ls', m', w')" "sane ls'" "pool_trace a b ls (fm_pool m)" "rest_inv m w" "cache_ok m w"
  shows "cache_ok m' w'"
  using assms(1,2)
proof (induction "(ls', m', w')" arbitrary: ls' m' w' rule: rtranclp_induct)
  case base
  with assms(5) show ?case by simp
next
  case (step r)
  obtain ls1 m1 w1 where r: "r = (ls1, m1, w1)" by (cases r)
  have one: "fs_step c_lookup mapper (ls1, m1, w1) (ls', m', w')" using step.hyps(2) r by simp
  have s1: "sane ls1" by (rule sane_step [OF one step.prems])
  have "rest_inv m1 w1" using rest_steps [OF step.hyps(1) [unfolded r] s1 assms(3,4)] by blast
  then show ?case by (rule cache_step [OF one _ step.hyps(3) [OF r s1]])
qed

lemma cache_init: "make_fs_manager cpu_count cfg = Inr m \<Longrightarrow> cache_ok m w"
  by (auto simp: make_fs_manager_def make_segment_store_def bind_result_def Let_def cache_ok_def cache_current_def
      split: option.splits if_splits sum.splits prod.splits)

text \<open>C15: Every state that a tier of the segment layout reaches from an empty index, in whatever
  interleaving of its calls, threads and failures, is as healthy as the guarantees for
  single store and load jobs ask: keys are unique, the allocator knows every indexed extent
  and can go on, the location cache holds nothing that the index does not, and every
  indexed block is complete on disk. Every job is expected to have a task.\<close>

theorem fs_tier_healthy:
  assumes run: "fs_reaches cpu_count cfg c_lookup mapper (ls, m, w)" and layout: "cfg_storage_layout cfg = ''segment''" and sane: "sane ls"
  shows "\<exists>s xs. fm_segment m = Some s \<and> block_size s = fm_block_size m \<and> 0 < fm_io_batch m \<and> healthy (w_shared w) s xs"
proof -
  from run obtain m0 w0 where m0: "make_fs_manager cpu_count cfg = Inr m0" "w_shared w0 = empty_shared"
    "(fs_step c_lookup mapper)\<^sup>*\<^sup>* ([], m0, w0) (ls, m, w)" by (auto simp: fs_reaches_def)
  obtain a b where i: "rest_inv m0 w0" "pool_trace a b [] (fm_pool m0)" using rest_init [OF m0(1) layout m0(2)] by blast
  have "rest_inv m w" using rest_steps [OF m0(3) sane i(2,1)] by blast
  moreover have "cache_ok m w" by (rule healthy_steps [OF m0(3) sane i(2,1) cache_init [OF m0(1)]])
  ultimately show ?thesis by (rule rest_healthy) blast
qed

theorem fs_tier_healthy_witness:
  "\<exists>s xs. fm_segment (fst (snd run_failed)) = Some s \<and> healthy (w_shared (snd (snd run_failed))) s xs \<and>
     map_of (location_cache s) ''a'' \<noteq> None \<and> map_of (location_cache s) ''c'' = None"
proof -
  obtain ls m w where r: "run_failed = (ls, m, w)" by (cases run_failed)
  have "fst run_failed = [Reported 1 False, CallbackRan 1 False False, TaskRan 1 False, Submitted 1 1,
      Reported 0 True, CallbackRan 0 True False, TaskRan 0 True, Submitted 1 1]" by code_simp
  then have "sane ls" by (simp add: r sane_def)
  moreover have "cfg_storage_layout run_config = ''segment''" by (simp add: run_config_def)
  ultimately obtain s xs where s: "fm_segment m = Some s" "healthy (w_shared w) s xs"
    using fs_tier_healthy [OF run_failed_reached [unfolded r]] by blast
  have "map_of (location_cache (the (fm_segment (fst (snd run_failed))))) ''a'' \<noteq> None"
    "map_of (location_cache (the (fm_segment (fst (snd run_failed))))) ''c'' = None" by code_simp+
  then have "map_of (location_cache s) ''a'' \<noteq> None" "map_of (location_cache s) ''c'' = None" by (simp_all add: r s(1))
  with s show ?thesis unfolding r by auto
qed

end
