(* ===== verification/Tier_Base.thy ===== *)
theory Tier_Base
  imports Fs_Healthy
begin

text \<open>
  \<open>base.py\<close> beside the job metadata: the results that tiers report, the base class with the
  methods it does not leave abstract, and the contract of \<open>delete\<close> as an interface, which both
  the inherited \<open>delete\<close> and the one of the file system tier meet.
\<close>

section \<open>Results\<close>

record job_result =
  jr_job_id :: int
  jr_success :: bool

record tier_delete_result =
  removed_keys :: "offload_key set"
  deleted_count :: nat

section \<open>The base class\<close>

text \<open>What \<open>__init__\<close> keeps, and the inherited methods; \<open>'spec\<close> is the host's specification.\<close>

record 'spec base_tier =
  bt_offloading_spec :: 'spec
  bt_primary_kv_view :: bytes
  bt_tier_type :: string

definition make_base_tier :: "'spec \<Rightarrow> bytes \<Rightarrow> string \<Rightarrow> 'spec base_tier" where
  "make_base_tier spec view tier_type = \<lparr>bt_offloading_spec = spec, bt_primary_kv_view = view, bt_tier_type = tier_type\<rparr>"

definition base_has_pending_work :: "'s \<Rightarrow> bool" where
  "base_has_pending_work t = False"

definition base_touch :: "offload_key list \<Rightarrow> req_id \<Rightarrow> 's \<Rightarrow> 's" where
  "base_touch keys req t = t"

definition base_on_request_finished :: "req_id \<Rightarrow> 's \<Rightarrow> 's" where
  "base_on_request_finished req t = t"

definition base_on_schedule_end :: "'s \<Rightarrow> 's" where
  "base_on_schedule_end t = t"

definition base_shutdown :: "'s \<Rightarrow> 's" where
  "base_shutdown t = t"

definition base_delete :: "offload_key list \<Rightarrow> 's \<Rightarrow> tier_delete_result result \<times> 's" where
  "base_delete keys t = (Inr \<lparr>removed_keys = {}, deleted_count = 0\<rparr>, t)"

definition base_build_metric_definitions :: "'c \<Rightarrow> (string \<times> 'm) list" where
  "base_build_metric_definitions extra_config = []"

definition base_get_stats :: "'s \<Rightarrow> 'm option" where
  "base_get_stats t = None"

text \<open>The results of the file system tier as these dataclasses.\<close>

definition fs_job_results :: "(int \<times> bool) list \<Rightarrow> job_result list" where
  "fs_job_results finished = map (\<lambda>(j, ok). \<lparr>jr_job_id = j, jr_success = ok\<rparr>) finished"

definition fs_tier_delete :: "(offload_key \<Rightarrow> string) \<Rightarrow> bool \<times> (string \<Rightarrow> bool) \<Rightarrow> offload_key list \<Rightarrow> fs_manager \<times> fs_world \<Rightarrow>
    tier_delete_result result \<times> fs_manager \<times> fs_world" where
  "fs_tier_delete mapper env keys t =
     (let (r, t) = fs_delete (fst env) (snd env) mapper keys t
      in (bind_result r (\<lambda>(removed, n). Inr \<lparr>removed_keys = removed, deleted_count = n\<rparr>), t))"

section \<open>The contract of delete\<close>

text \<open>
  \<open>block\<close>: the bytes a tier holds for a key. A deletion may fail, and may retain blocks; \<open>env\<close> is
  what the operating system answers.
\<close>

locale deleting_tier =
  fixes usable :: "'s \<Rightarrow> bool"
    and del :: "'env \<Rightarrow> offload_key list \<Rightarrow> 's \<Rightarrow> tier_delete_result result \<times> 's"
    and block :: "'s \<Rightarrow> offload_key \<Rightarrow> bytes option"
  assumes stays_usable: "usable t \<Longrightarrow> del env keys t = (r, t') \<Longrightarrow> usable t'"
    and failed_keeps: "usable t \<Longrightarrow> del env keys t = (Inl e, t') \<Longrightarrow> block t' k = block t k"
    and others_kept: "usable t \<Longrightarrow> del env keys t = (Inr res, t') \<Longrightarrow> k \<notin> set keys \<Longrightarrow> block t' k = block t k"
    and removed_given: "usable t \<Longrightarrow> del env keys t = (Inr res, t') \<Longrightarrow> removed_keys res \<subseteq> set keys"
    and removed_gone: "usable t \<Longrightarrow> del env keys t = (Inr res, t') \<Longrightarrow> k \<in> removed_keys res \<Longrightarrow> block t' k = None"
    and never_revived: "usable t \<Longrightarrow> del env keys t = (Inr res, t') \<Longrightarrow> block t k = None \<Longrightarrow> block t' k = None"
    and counted: "usable t \<Longrightarrow> del env keys t = (Inr res, t') \<Longrightarrow> deleted_count res \<le> card (set keys)"
begin

text \<open>A sequence of deletions, with the keys that were reported as removed.\<close>

definition del_step :: "'env \<times> offload_key list \<Rightarrow> 's \<times> offload_key set \<Rightarrow> 's \<times> offload_key set" where
  "del_step = (\<lambda>(env, keys) (t, removed).
     case del env keys t of (Inl e, t) \<Rightarrow> (t, removed) | (Inr res, t) \<Rightarrow> (t, removed \<union> removed_keys res))"

lemma del_step_keeps:
  assumes "usable t" "\<forall>k \<in> removed. block t k = None" "del_step c (t, removed) = (t', removed')"
  shows "usable t' \<and> (\<forall>k \<in> removed'. block t' k = None) \<and> removed \<subseteq> removed' \<and> removed' \<subseteq> removed \<union> set (snd c) \<and>
    (\<forall>k. k \<notin> set (snd c) \<longrightarrow> block t' k = block t k)"
proof -
  obtain env keys where c: "c = (env, keys)" by fastforce
  obtain r t1 where d: "del env keys t = (r, t1)" by fastforce
  then show ?thesis
  proof (cases r)
    case (Inl e)
    with assms d c have "t' = t1" "removed' = removed" by (simp_all add: del_step_def)
    with assms(2) stays_usable [OF assms(1) d] failed_keeps [OF assms(1) d [unfolded Inl]] show ?thesis by auto
  next
    case (Inr res)
    with assms d c have t': "t' = t1" "removed' = removed \<union> removed_keys res" by (simp_all add: del_step_def)
    note d' = d [unfolded Inr]
    have "block t' k = None" if "k \<in> removed'" for k
      using that assms(2) removed_gone [OF assms(1) d'] never_revived [OF assms(1) d'] t' by auto
    with stays_usable [OF assms(1) d] removed_given [OF assms(1) d'] others_kept [OF assms(1) d'] t' c show ?thesis by auto
  qed
qed

text \<open>What was reported as removed stays away, and keys that were not given keep their blocks.\<close>

lemma deletions:
  assumes "usable t" "\<forall>k \<in> removed. block t k = None" "fold del_step cs (t, removed) = (t', removed')"
  shows "usable t' \<and> (\<forall>k \<in> removed'. block t' k = None) \<and> removed' \<subseteq> removed \<union> (\<Union>c \<in> set cs. set (snd c)) \<and>
    (\<forall>k. (\<forall>c \<in> set cs. k \<notin> set (snd c)) \<longrightarrow> block t' k = block t k)"
  using assms
proof (induction cs arbitrary: t removed)
  case (Cons c cs)
  obtain t1 r1 where s: "del_step c (t, removed) = (t1, r1)" by fastforce
  note k = del_step_keeps [OF Cons.prems(1,2) s]
  from Cons.IH [of t1 r1] k Cons.prems(3) s have
    "usable t' \<and> (\<forall>k \<in> removed'. block t' k = None) \<and> removed' \<subseteq> r1 \<union> (\<Union>c \<in> set cs. set (snd c)) \<and>
     (\<forall>k. (\<forall>c \<in> set cs. k \<notin> set (snd c)) \<longrightarrow> block t' k = block t1 k)" by simp
  with k show ?case by auto
qed simp

end

interpretation base_deletion: deleting_tier "\<lambda>_. True" "\<lambda>(_ :: unit). base_delete" block for block
  by unfold_locales (auto simp: base_delete_def)

text \<open>The file system tier: its cache is current and its keys have different file names.\<close>

definition deletion_ready :: "(offload_key \<Rightarrow> string) \<Rightarrow> fs_manager \<times> fs_world \<Rightarrow> bool" where
  "deletion_ready mapper = (\<lambda>(m, w). inj mapper \<and>
     (case fm_segment m of None \<Rightarrow> True | Some s \<Rightarrow> keys_distinct (w_shared w) \<and> cache_current (w_shared w) s))"

lemma delete_keys_distinct: "delete tx keys sh s = (r, sh', s') \<Longrightarrow> keys_distinct sh \<Longrightarrow> keys_distinct sh'"
  by (cases tx) (auto simp: delete_spec delete_def [of False] keys_distinct_def distinct_map_filter Let_def split: if_splits)

lemma fs_delete_ready:
  assumes "deletion_ready mapper t" "fs_delete tx denied mapper keys t = (r, t')"
  shows "deletion_ready mapper t'"
proof -
  obtain m w where t: "t = (m, w)" by fastforce
  show ?thesis
  proof (cases "fm_segment m")
    case None
    with assms t show ?thesis by (auto simp: fs_delete_def deletion_ready_def Let_def split: prod.splits)
  next
    case (Some s)
    obtain r1 sh1 s1 where d: "delete tx keys (w_shared w) s = (r1, sh1, s1)" by (metis prod_cases3)
    from assms(1) t Some have ok: "inj mapper" "keys_distinct (w_shared w)" "cache_current (w_shared w) s"
      by (simp_all add: deletion_ready_def)
    from delete_keys_distinct [OF d ok(2)] delete_current [OF d ok(3)] ok(1) assms(2) t Some d show ?thesis
      by (auto simp: fs_delete_def deletion_ready_def Let_def split: prod.splits sum.splits)
  qed
qed

text \<open>The facts about \<open>fs_delete\<close>, in the form of the contract.\<close>

lemma fs_tier_delete_facts:
  assumes "deletion_ready mapper t" "fs_tier_delete mapper env keys t = (r, t')"
  shows "deletion_ready mapper t'"
    "r = Inl e \<Longrightarrow> tier_block mapper t' k = tier_block mapper t k"
    "r = Inr res \<Longrightarrow> removed_keys res \<subseteq> set keys \<and> deleted_count res \<le> card (set keys) \<and>
       (k \<notin> set keys \<longrightarrow> tier_block mapper t' k = tier_block mapper t k) \<and>
       (k \<in> removed_keys res \<longrightarrow> tier_block mapper t' k = None) \<and>
       (tier_block mapper t k = None \<longrightarrow> tier_block mapper t' k = None)"
proof -
  obtain m w where t: "t = (m, w)" by fastforce
  obtain r1 m' w' where d: "fs_delete (fst env) (snd env) mapper keys (m, w) = (r1, m', w')" by (metis prod_cases3)
  have e: "t' = (m', w')" "r = bind_result r1 (\<lambda>(removed, n). Inr \<lparr>removed_keys = removed, deleted_count = n\<rparr>)"
    using assms(2) d t by (auto simp: fs_tier_delete_def)
  show "deletion_ready mapper t'" using fs_delete_ready [OF assms(1) d [folded t]] e by simp
  have ok: "\<forall>s. fm_segment m = Some s \<longrightarrow> keys_distinct (w_shared w) \<and> cache_current (w_shared w) s" "inj mapper"
    using assms(1) t by (auto simp: deletion_ready_def)
  note o = fs_delete_outcome [OF ok d]
  show "tier_block mapper t' k = tier_block mapper t k" if "r = Inl e"
    using that o e t by (auto simp: bind_result_def split: sum.splits)
  assume r: "r = Inr res"
  then obtain removed n where r1: "r1 = Inr (removed, n)" "res = \<lparr>removed_keys = removed, deleted_count = n\<rparr>"
    using e by (auto simp: bind_result_def split: sum.splits)
  have miss: "map_of (w_files w) (mapper k) = None" if "tier_block mapper (m, w) k = None"
    using that by (auto simp: tier_block_def split: option.splits)
  show "removed_keys res \<subseteq> set keys \<and> deleted_count res \<le> card (set keys) \<and>
       (k \<notin> set keys \<longrightarrow> tier_block mapper t' k = tier_block mapper t k) \<and>
       (k \<in> removed_keys res \<longrightarrow> tier_block mapper t' k = None) \<and>
       (tier_block mapper t k = None \<longrightarrow> tier_block mapper t' k = None)"
    using o miss unfolding r1 e(1) t by (auto intro: card_mono)
qed

interpretation fs_deletion: deleting_tier "deletion_ready mapper" "fs_tier_delete mapper" "tier_block mapper" for mapper
proof (unfold_locales, goal_cases)
  case 1 then show ?case by (rule fs_tier_delete_facts(1))
next
  case 2 then show ?case by (rule fs_tier_delete_facts(2) [OF _ _ refl])
qed (use fs_tier_delete_facts(3) [OF _ _ refl] in blast)+

end
