(* ===== verification/Ascend_Worker.thy ===== *)
theory Ascend_Worker
  imports Tiering_Prelude
begin

text \<open>
  \<open>ascend_worker.py\<close>: copies between device and CPU memory. A tensor of bytes with two
  dimensions is the list of its rows. \<open>copy_plan\<close> resolves a transfer to block positions,
  \<open>_spans\<close> checks them and turns them into slices. The copies that a submission issues on
  the stream are returned, in order; whether a job's event is complete, or raises, is an
  argument of the polling operations, as the device runtime is not part of the program.
  Block identifiers, sizes and offsets are Python integers.
\<close>

section \<open>The plan of a transfer\<close>

record gpu_spec =
  group_sizes :: "int list"
  block_indices :: "int list"
  gpu_block_ids :: "int list"

record cache_ref =
  tensor_idx :: int
  page_size_bytes :: int

record plan_entry =
  pe_tensor :: int
  pe_device :: int
  pe_cpu :: int
  pe_sub :: int
  pe_size :: int

text \<open>The entries of one group: for each reference, all its blocks.\<close>

definition group_entries :: "int \<Rightarrow> int list \<Rightarrow> int list \<Rightarrow> int \<Rightarrow> int \<Rightarrow> int \<Rightarrow> int \<Rightarrow> cache_ref list \<Rightarrow> plan_entry list" where
  "group_entries factor gpu_ids cpu_ids gpu_offset cpu_offset sz skip grp =
     concat (map (\<lambda>r. map (\<lambda>index.
        \<lparr>pe_tensor = tensor_idx r, pe_device = gpu_ids ! nat (gpu_offset + index),
         pe_cpu = cpu_ids ! nat (cpu_offset + (skip + index) div factor), pe_sub = (skip + index) mod factor,
         pe_size = page_size_bytes r\<rparr>) [0..sz - 1]) grp)"

text \<open>The loop over \<open>zip(..., strict=True)\<close>.\<close>

fun plan_groups :: "int \<Rightarrow> int list \<Rightarrow> int list \<Rightarrow> int list \<Rightarrow> int list \<Rightarrow> cache_ref list list \<Rightarrow> int \<Rightarrow> int \<Rightarrow>
    plan_entry list \<Rightarrow> (plan_entry list \<times> int \<times> int) result" where
  "plan_groups factor gpu_ids cpu_ids [] [] [] go co plan = Inr (plan, go, co)"
| "plan_groups factor gpu_ids cpu_ids (sz # szs) (logical # logicals) (grp # grps) go co plan =
     (if sz < 0 \<or> logical < 0 then Inl (ValueError ''negative group size or logical block index'')
      else if sz = 0 then plan_groups factor gpu_ids cpu_ids szs logicals grps go co plan
      else
        let skip = logical mod factor;
            n = (sz + skip + factor - 1) div factor
        in if int (length gpu_ids) < go + sz \<or> int (length cpu_ids) < co + n
           then Inl (ValueError ''block list is shorter than its group metadata'')
           else plan_groups factor gpu_ids cpu_ids szs logicals grps (go + sz) (co + n)
                  (plan @ group_entries factor gpu_ids cpu_ids go co sz skip grp))"
| "plan_groups factor gpu_ids cpu_ids _ _ _ go co plan = Inl (ValueError ''zip() arguments of different lengths'')"

definition copy_plan :: "gpu_spec \<Rightarrow> int list \<Rightarrow> cache_ref list list \<Rightarrow> int \<Rightarrow> plan_entry list result" where
  "copy_plan gpu cpu_ids refs factor =
     (if factor < 1 \<or> length (group_sizes gpu) \<noteq> length refs
      then Inl (ValueError ''invalid block factor or KV group count'')
      else bind_result
        (plan_groups factor (gpu_block_ids gpu) cpu_ids (group_sizes gpu) (block_indices gpu) refs 0 0 [])
        (\<lambda>(plan, go, co).
           if go \<noteq> int (length (gpu_block_ids gpu)) \<or> co \<noteq> int (length cpu_ids)
           then Inl (ValueError ''unused blocks in transfer metadata'') else Inr plan))"

section \<open>The worker\<close>

text \<open>The dimensions of a tensor, and a slice of one of its rows.\<close>

record tensor_shape =
  dim_rows :: int
  dim_cols :: int

record row_slice =
  rs_tensor :: nat
  rs_row :: nat
  rs_start :: nat
  rs_len :: nat

type_synonym span = "row_slice \<times> row_slice"

record transfer_result =
  tr_job_id :: int
  tr_success :: bool
  tr_size :: int
  tr_time :: rat

record copy_worker =
  cw_refs :: "cache_ref list list"
  cw_factor :: int
  device_tensors :: "tensor_shape list"
  cpu_tensors :: "tensor_shape list"
  completed_results :: "transfer_result list"
  pending :: "int set"
  inflight :: "(int \<times> rat \<times> int \<times> plan_entry list) list"

text \<open>Python's list indexing: negative indices count from the end.\<close>

definition py_nth :: "'a list \<Rightarrow> int \<Rightarrow> (nat \<times> 'a) result" where
  "py_nth xs i =
     (let j = (if i < 0 then i + int (length xs) else i)
      in if 0 \<le> j \<and> j < int (length xs) then Inr (nat j, xs ! nat j) else Inl IndexError)"

text \<open>
  \<open>__init__\<close>: the byte views of the cache tensors (device kind, number of rows, page
  size); \<open>next_view\<close> is the shape of the CPU view that the shared region (another
  package) hands out for a row length.
\<close>

definition make_copy_worker :: "(int \<Rightarrow> tensor_shape) \<Rightarrow> (bool \<times> int \<times> int) list \<Rightarrow> cache_ref list list \<Rightarrow> int \<Rightarrow> copy_worker result" where
  "make_copy_worker next_view tensors refs factor =
     (if \<exists>t \<in> set tensors. \<not> fst t then Inl (ValueError ''AscendCopyWorker requires NPU tensors'')
      else if tensors = [] then Inl IndexError
      else Inr \<lparr>cw_refs = refs, cw_factor = factor,
        device_tensors = map (\<lambda>(_, rows, page). \<lparr>dim_rows = rows, dim_cols = page\<rparr>) tensors,
        cpu_tensors = map (\<lambda>(_, _, page). next_view (page * factor)) tensors,
        completed_results = [], pending = {}, inflight = []\<rparr>)"

text \<open>The slice \<open>row[start:start+len]\<close> of a row with \<open>cols\<close> entries, for \<open>start \<ge> 0\<close>.\<close>

definition slice_of :: "nat \<Rightarrow> int \<Rightarrow> int \<Rightarrow> int \<Rightarrow> int \<Rightarrow> row_slice" where
  "slice_of tensor row start len cols =
     \<lparr>rs_tensor = tensor, rs_row = nat row, rs_start = nat (min start cols), rs_len = nat (min (start + len) cols - min start cols)\<rparr>"

definition entry_span :: "copy_worker \<Rightarrow> plan_entry \<Rightarrow> span result" where
  "entry_span cw e =
     bind_result (py_nth (device_tensors cw) (pe_tensor e)) (\<lambda>(t, device).
     bind_result (py_nth (cpu_tensors cw) (pe_tensor e)) (\<lambda>(u, cpu).
       if \<not> (0 \<le> pe_device e \<and> pe_device e < dim_rows device \<and> 0 \<le> pe_cpu e \<and> pe_cpu e < dim_rows cpu)
       then Inl (ValueError ''transfer block outside allocated cache'')
       else if \<not> (0 < pe_size e \<and> pe_size e \<le> dim_cols device) then Inl (ValueError ''invalid canonical page size'')
       else Inr (slice_of t (pe_device e) 0 (pe_size e) (dim_cols device),
                 slice_of u (pe_cpu e) (pe_sub e * dim_cols device) (pe_size e) (dim_cols cpu))))"

fun map_result :: "('a \<Rightarrow> 'b result) \<Rightarrow> 'a list \<Rightarrow> 'b list result" where
  "map_result f [] = Inr []"
| "map_result f (x # xs) = bind_result (f x) (\<lambda>y. bind_result (map_result f xs) (\<lambda>ys. Inr (y # ys)))"

definition spans_of :: "copy_worker \<Rightarrow> plan_entry list \<Rightarrow> span list result" where
  "spans_of cw plan = map_result (entry_span cw) plan"

text \<open>
  \<open>_submit\<close>, from \<open>spans\<close> on the same for both kinds of workers: the copies that are issued
  (source and destination) and the new state.
\<close>

definition submit_with :: "(copy_worker \<Rightarrow> plan_entry list \<Rightarrow> span list result) \<Rightarrow> rat \<Rightarrow> int \<Rightarrow> gpu_spec \<Rightarrow> int list \<Rightarrow> bool \<Rightarrow>
    copy_worker \<Rightarrow> (span list \<times> copy_worker) result" where
  "submit_with spans now job_id gpu cpu_ids store cw =
     (if job_id \<in> pending cw then Inl (ValueError ''transfer job ID is already pending'')
      else bind_result (copy_plan gpu cpu_ids (cw_refs cw) (cw_factor cw)) (\<lambda>plan.
           bind_result (spans cw plan) (\<lambda>sp.
             Inr (map (\<lambda>(device, cpu). if store then (device, cpu) else (cpu, device)) sp,
                  cw\<lparr>inflight := AList.update job_id (now, sum_list (map (\<lambda>(device, _). int (rs_len device)) sp), plan) (inflight cw),
                     pending := insert job_id (pending cw)\<rparr>))))"

definition submit :: "rat \<Rightarrow> int \<Rightarrow> gpu_spec \<Rightarrow> int list \<Rightarrow> bool \<Rightarrow> copy_worker \<Rightarrow> (span list \<times> copy_worker) result" where
  "submit = submit_with spans_of"

definition submit_store :: "rat \<Rightarrow> int \<Rightarrow> gpu_spec \<Rightarrow> int list \<Rightarrow> copy_worker \<Rightarrow> (span list \<times> copy_worker) result" where
  "submit_store now job_id src dst cw = submit now job_id src dst True cw"

definition submit_load :: "rat \<Rightarrow> int \<Rightarrow> int list \<Rightarrow> gpu_spec \<Rightarrow> copy_worker \<Rightarrow> (span list \<times> copy_worker) result" where
  "submit_load now job_id src dst cw = submit now job_id dst src False cw"

section \<open>Completion\<close>

text \<open>\<open>_finalize\<close>, without the diagnostics that an environment variable turns on (\<open>Ascend_Diagnostics\<close>).\<close>

definition finalize :: "rat \<Rightarrow> int \<Rightarrow> bool \<Rightarrow> rat \<Rightarrow> int \<Rightarrow> copy_worker \<Rightarrow> transfer_result \<times> copy_worker" where
  "finalize now job_id success start sz cw =
     (\<lparr>tr_job_id = job_id, tr_success = success, tr_size = sz, tr_time = now - start\<rparr>,
      cw\<lparr>pending := pending cw - {job_id}\<rparr>)"

text \<open>What \<open>event.query()\<close> does: it is complete, it is not, or it raises.\<close>

datatype event_state = Complete | Running_Event | Failed_Event

definition poll_job :: "rat \<Rightarrow> (int \<Rightarrow> event_state) \<Rightarrow> int \<Rightarrow> transfer_result list \<times> copy_worker \<Rightarrow> transfer_result list \<times> copy_worker" where
  "poll_job now query job_id = (\<lambda>(finished, cw).
     (case map_of (inflight cw) job_id of
        None \<Rightarrow> (finished, cw)
      | Some (start, sz, plan) \<Rightarrow>
          if query job_id = Running_Event then (finished, cw)
          else let (r, cw) = finalize now job_id (query job_id = Complete) start sz
                               (cw\<lparr>inflight := AList.delete job_id (inflight cw)\<rparr>)
               in (finished @ [r], cw)))"

definition worker_get_finished :: "rat \<Rightarrow> (int \<Rightarrow> event_state) \<Rightarrow> copy_worker \<Rightarrow> transfer_result list \<times> copy_worker" where
  "worker_get_finished now query cw =
     (let (finished, cw) = fold (poll_job now query) (map fst (inflight cw)) ([], cw)
      in (completed_results cw @ finished, cw\<lparr>completed_results := []\<rparr>))"

definition wait_job :: "rat \<Rightarrow> (int \<Rightarrow> bool) \<Rightarrow> int \<Rightarrow> copy_worker \<Rightarrow> copy_worker" where
  "wait_job now sync job_id cw =
     (case map_of (inflight cw) job_id of
        None \<Rightarrow> cw
      | Some (start, sz, plan) \<Rightarrow>
          let (r, cw) = finalize now job_id (sync job_id) start sz (cw\<lparr>inflight := AList.delete job_id (inflight cw)\<rparr>)
          in cw\<lparr>completed_results := completed_results cw @ [r], pending := pending cw - {job_id}\<rparr>)"

definition worker_wait :: "rat \<Rightarrow> (int \<Rightarrow> bool) \<Rightarrow> int list \<Rightarrow> copy_worker \<Rightarrow> copy_worker" where
  "worker_wait now sync job_ids cw = fold (wait_job now sync) job_ids cw"

definition worker_shutdown :: "copy_worker \<Rightarrow> copy_worker" where
  "worker_shutdown cw =
     cw\<lparr>inflight := [], device_tensors := [], cpu_tensors := [], completed_results := [], pending := {}\<rparr>"

section \<open>Memory\<close>

text \<open>The bytes of the device and of the CPU tensors, and what executing a copy does.\<close>

record copy_memory =
  device_mem :: "string list list"
  cpu_mem :: "string list list"

definition read_slice :: "string list list \<Rightarrow> row_slice \<Rightarrow> string" where
  "read_slice mem sl = take (rs_len sl) (drop (rs_start sl) (mem ! rs_tensor sl ! rs_row sl))"

definition write_slice :: "string \<Rightarrow> row_slice \<Rightarrow> string list list \<Rightarrow> string list list" where
  "write_slice data sl mem =
     (let row = mem ! rs_tensor sl ! rs_row sl;
          row = take (rs_start sl) row @ data @ drop (rs_start sl + length data) row
      in mem[rs_tensor sl := (mem ! rs_tensor sl)[rs_row sl := row]])"

text \<open>\<open>destination.copy_(source)\<close> on slices of the same length.\<close>

definition store_copy :: "span \<Rightarrow> copy_memory \<Rightarrow> copy_memory" where
  "store_copy = (\<lambda>(device, cpu) mem. mem\<lparr>cpu_mem := write_slice (read_slice (device_mem mem) device) cpu (cpu_mem mem)\<rparr>)"

definition load_copy :: "span \<Rightarrow> copy_memory \<Rightarrow> copy_memory" where
  "load_copy = (\<lambda>(cpu, device) mem. mem\<lparr>device_mem := write_slice (read_slice (cpu_mem mem) cpu) device (device_mem mem)\<rparr>)"

end
