(* ===== verification/Ascend_Worker_Props.thy ===== *)
theory Ascend_Worker_Props
  imports Ascend_Worker "HOL-Library.Multiset"
begin

text \<open>
  Transfer plans stay within their block lists and never alias, what is stored is loaded
  back, and every transfer is reported exactly once.
\<close>

section \<open>Plans\<close>

text \<open>An entry by its reference and its positions in the two block lists.\<close>

type_synonym plan_pos = "cache_ref \<times> int \<times> int \<times> int"

definition entry_at :: "int list \<Rightarrow> int list \<Rightarrow> plan_pos \<Rightarrow> plan_entry" where
  "entry_at gpu_ids cpu_ids = (\<lambda>(r, g, c, s).
     \<lparr>pe_tensor = tensor_idx r, pe_device = gpu_ids ! nat g, pe_cpu = cpu_ids ! nat c, pe_sub = s, pe_size = page_size_bytes r\<rparr>)"

definition group_pos :: "int \<Rightarrow> int \<Rightarrow> int \<Rightarrow> int \<Rightarrow> int \<Rightarrow> cache_ref list \<Rightarrow> plan_pos list" where
  "group_pos factor go co n skip grp =
     concat (map (\<lambda>r. map (\<lambda>i. (r, go + i, co + (skip + i) div factor, (skip + i) mod factor)) [0..n - 1]) grp)"

lemma group_entries_pos:
  "group_entries factor gpu_ids cpu_ids go co n skip grp = map (entry_at gpu_ids cpu_ids) (group_pos factor go co n skip grp)"
  by (simp add: group_entries_def group_pos_def entry_at_def map_concat comp_def)

lemma group_pos_range:
  assumes "1 \<le> factor" "0 \<le> skip" "(r, g, c, s) \<in> set (group_pos factor go co n skip grp)"
  shows "r \<in> set grp \<and> go \<le> g \<and> g < go + n \<and> co \<le> c \<and> c < co + (n + skip + factor - 1) div factor \<and> 0 \<le> s \<and> s < factor"
proof -
  obtain i where i: "0 \<le> i" "i < n" "r \<in> set grp" "g = go + i" "c = co + (skip + i) div factor" "s = (skip + i) mod factor"
    using assms(3) by (auto simp: group_pos_def)
  have "0 \<le> (skip + i) div factor" using assms i by (simp add: pos_imp_zdiv_nonneg_iff)
  moreover have "(skip + i) div factor < (n + skip + factor - 1) div factor"
  proof -
    have "(skip + i) div factor + 1 = (skip + i + factor) div factor" using assms(1) by simp
    also have "\<dots> \<le> (n + skip + factor - 1) div factor" using i(2) assms(1) by (intro zdiv_mono1) simp_all
    finally show ?thesis by simp
  qed
  ultimately show ?thesis using i assms(1) by simp
qed

text \<open>Entries of one group differ in their tensor or in their position.\<close>

lemma group_pos_distinct:
  assumes "distinct (map tensor_idx grp)" "1 \<le> factor"
  shows "distinct (map (\<lambda>(r, g, c, s). (tensor_idx r, g)) (group_pos factor go co n skip grp))"
    and "distinct (map (\<lambda>(r, g, c, s). (tensor_idx r, c, s)) (group_pos factor go co n skip grp))"
proof -
  have d: "distinct (map (\<lambda>(r, g, c, s). (tensor_idx r, h g c s)) (group_pos factor go co n skip grp))"
    if inj: "inj_on (\<lambda>i. h (go + i) (co + (skip + i) div factor) ((skip + i) mod factor)) {0..n - 1}" for h :: "int \<Rightarrow> int \<Rightarrow> int \<Rightarrow> 'a"
    using assms(1)
  proof (induction grp)
    case (Cons r grp)
    have "distinct (map (\<lambda>i. (tensor_idx r, h (go + i) (co + (skip + i) div factor) ((skip + i) mod factor))) [0..n - 1])"
      using inj by (auto simp: distinct_map inj_on_def)
    with Cons show ?case by (auto simp: group_pos_def comp_def)
  qed (simp add: group_pos_def)
  show "distinct (map (\<lambda>(r, g, c, s). (tensor_idx r, g)) (group_pos factor go co n skip grp))"
    using d [of "\<lambda>g c s. g"] by (simp add: inj_on_def)
  have "inj_on (\<lambda>i. (co + (skip + i) div factor, (skip + i) mod factor)) {0..n - 1}"
  proof (rule inj_onI)
    fix i j assume "(co + (skip + i) div factor, (skip + i) mod factor) = (co + (skip + j) div factor, (skip + j) mod factor)"
    then have "(skip + i) div factor * factor + (skip + i) mod factor = (skip + j) div factor * factor + (skip + j) mod factor" by simp
    then show "i = j" by simp
  qed
  then show "distinct (map (\<lambda>(r, g, c, s). (tensor_idx r, c, s)) (group_pos factor go co n skip grp))"
    using d [of "\<lambda>g c s. (c, s)"] by simp
qed

lemma length_group_pos: "0 \<le> n \<Longrightarrow> int (length (group_pos factor go co n skip grp)) = n * int (length grp)"
  by (induction grp) (simp_all add: group_pos_def algebra_simps)

definition pos_ok :: "int \<Rightarrow> cache_ref list list \<Rightarrow> int \<Rightarrow> int \<Rightarrow> int \<Rightarrow> int \<Rightarrow> plan_pos list \<Rightarrow> bool" where
  "pos_ok factor grps go co go' co' ps \<longleftrightarrow>
     (\<forall>(r, g, c, s) \<in> set ps. r \<in> set (concat grps) \<and> go \<le> g \<and> g < go' \<and> co \<le> c \<and> c < co' \<and> 0 \<le> s \<and> s < factor) \<and>
     ((\<forall>grp \<in> set grps. distinct (map tensor_idx grp)) \<longrightarrow>
        distinct (map (\<lambda>(r, g, c, s). (tensor_idx r, g)) ps) \<and> distinct (map (\<lambda>(r, g, c, s). (tensor_idx r, c, s)) ps))"

lemma pos_ok_append:
  assumes "pos_ok factor [grp] go co go1 co1 ps" "pos_ok factor grps go1 co1 go2 co2 qs" "go \<le> go1" "go1 \<le> go2" "co \<le> co1" "co1 \<le> co2"
  shows "pos_ok factor (grp # grps) go co go2 co2 (ps @ qs)"
proof -
  have "g < go1" "c < co1" if "(r, g, c, s) \<in> set ps" for r g c s using assms(1) that by (auto simp: pos_ok_def)
  moreover have "go1 \<le> g" "co1 \<le> c" if "(r, g, c, s) \<in> set qs" for r g c s using assms(2) that by (auto simp: pos_ok_def)
  ultimately have "(\<lambda>(r, g, c, s). (tensor_idx r, g)) ` set ps \<inter> (\<lambda>(r, g, c, s). (tensor_idx r, g)) ` set qs = {}"
    "(\<lambda>(r, g, c, s). (tensor_idx r, c, s)) ` set ps \<inter> (\<lambda>(r, g, c, s). (tensor_idx r, c, s)) ` set qs = {}" by fastforce+
  with assms show ?thesis unfolding pos_ok_def by fastforce
qed

text \<open>Every position of the two block lists is used, when each group has a reference.\<close>

definition covers :: "int \<Rightarrow> int \<Rightarrow> int \<Rightarrow> int \<Rightarrow> plan_pos list \<Rightarrow> bool" where
  "covers go co go' co' ps \<longleftrightarrow>
     (\<forall>g. go \<le> g \<and> g < go' \<longrightarrow> g \<in> (\<lambda>(r, g, c, s). g) ` set ps) \<and> (\<forall>c. co \<le> c \<and> c < co' \<longrightarrow> c \<in> (\<lambda>(r, g, c, s). c) ` set ps)"

lemma covers_append: "covers go co go1 co1 ps \<Longrightarrow> covers go1 co1 go2 co2 qs \<Longrightarrow> covers go co go2 co2 (ps @ qs)"
  unfolding covers_def by (metis (no_types, lifting) UnI1 UnI2 image_Un linorder_not_le set_append)

lemma group_pos_covers:
  assumes "1 \<le> factor" "0 \<le> skip" "skip < factor" "0 < n" "grp \<noteq> []"
  shows "covers go co (go + n) (co + (n + skip + factor - 1) div factor) (group_pos factor go co n skip grp)"
proof -
  obtain r where r: "r \<in> set grp" using assms(5) by (cases grp) auto
  have mem: "(r, go + i, co + (skip + i) div factor, (skip + i) mod factor) \<in> set (group_pos factor go co n skip grp)"
    if "0 \<le> i" "i < n" for i
    using r that by (auto simp: group_pos_def intro!: bexI [of _ r])
  have "g \<in> (\<lambda>(r, g, c, s). g) ` set (group_pos factor go co n skip grp)" if "go \<le> g" "g < go + n" for g
    using mem [of "g - go"] that by force
  moreover have "c \<in> (\<lambda>(r, g, c, s). c) ` set (group_pos factor go co n skip grp)"
    if c: "co \<le> c" "c < co + (n + skip + factor - 1) div factor" for c
  proof -
    define q where "q = c - co"
    have q: "0 \<le> q" "q + 1 \<le> (n + skip + factor - 1) div factor" using c by (simp_all add: q_def)
    have "(q + 1) * factor \<le> n + skip + factor - 1"
    proof -
      have "(q + 1) * factor \<le> (n + skip + factor - 1) div factor * factor" using q(2) assms(1) by (intro mult_right_mono) simp_all
      also have "\<dots> \<le> n + skip + factor - 1" using assms(1) pos_mod_sign [of factor "n + skip + factor - 1"] by (simp only: minus_mod_eq_div_mult [symmetric]) linarith
      finally show ?thesis .
    qed
    then have qn: "q * factor < n + skip" by (simp add: algebra_simps)
    define i where "i = max 0 (q * factor - skip)"
    have "0 \<le> i" "i < n" using qn assms(4) by (auto simp: i_def)
    moreover have "(skip + i) div factor = q"
    proof (cases "skip \<le> q * factor")
      case True then show ?thesis using assms(1) by (simp add: i_def)
    next
      case False
      then have "q * factor < 1 * factor" using assms(3) by simp
      then have "q = 0" using q(1) assms(1) by (simp add: mult_less_cancel_right)
      then show ?thesis using False assms by (simp add: i_def)
    qed
    ultimately show ?thesis using mem [of i] by (force simp: q_def)
  qed
  ultimately show ?thesis by (auto simp: covers_def)
qed

lemma plan_groups_positions:
  assumes "plan_groups factor gi ci szs lgs grps go co plan = Inr (plan', go', co')" "1 \<le> factor"
    "0 \<le> go" "0 \<le> co" "go \<le> int (length gi)" "co \<le> int (length ci)"
  shows "\<exists>ps. plan' = plan @ map (entry_at gi ci) ps \<and> pos_ok factor grps go co go' co' ps \<and>
           ([] \<notin> set grps \<longrightarrow> covers go co go' co' ps) \<and>
           go \<le> go' \<and> go' \<le> int (length gi) \<and> co \<le> co' \<and> co' \<le> int (length ci)"
  using assms
proof (induction factor gi ci szs lgs grps go co plan rule: plan_groups.induct)
  case (1 factor gi ci go co plan)
  then show ?case by (intro exI [of _ "[]"]) (auto simp: pos_ok_def covers_def)
next
  case (2 factor gi ci sz szs logical logicals grp grps go co plan)
  have neg: "0 \<le> sz" "0 \<le> logical" using "2.prems"(1) by (auto split: if_splits)
  show ?case
  proof (cases "sz = 0")
    case True
    with "2.prems" neg obtain ps where "plan' = plan @ map (entry_at gi ci) ps" "pos_ok factor grps go co go' co' ps"
      "[] \<notin> set grps \<longrightarrow> covers go co go' co' ps" "go \<le> go' \<and> go' \<le> int (length gi) \<and> co \<le> co' \<and> co' \<le> int (length ci)"
      using "2.IH"(1) by auto
    then show ?thesis by (intro exI [of _ ps]) (auto simp: pos_ok_def)
  next
    case False
    define skip where "skip = logical mod factor"
    define n where "n = (sz + skip + factor - 1) div factor"
    have sk: "0 \<le> skip" "skip < factor" using "2.prems"(2) by (simp_all add: skip_def)
    have n0: "0 \<le> n" using neg sk "2.prems"(2) by (simp add: n_def pos_imp_zdiv_nonneg_iff)
    have fit: "go + sz \<le> int (length gi)" "co + n \<le> int (length ci)"
      and rec: "plan_groups factor gi ci szs logicals grps (go + sz) (co + n)
         (plan @ group_entries factor gi ci go co sz skip grp) = Inr (plan', go', co')"
      using "2.prems"(1) neg False by (auto simp: Let_def skip_def n_def split: if_splits)
    have "\<exists>ps. plan' = (plan @ group_entries factor gi ci go co sz skip grp) @ map (entry_at gi ci) ps \<and> pos_ok factor grps (go + sz) (co + n) go' co' ps \<and>
           ([] \<notin> set grps \<longrightarrow> covers (go + sz) (co + n) go' co' ps) \<and>
           go + sz \<le> go' \<and> go' \<le> int (length gi) \<and> co + n \<le> co' \<and> co' \<le> int (length ci)"
      using "2.IH"(2) [OF _ False skip_def n_def] "2.prems" neg n0 fit rec by (simp add: skip_def n_def)
    then obtain qs where qs: "plan' = (plan @ group_entries factor gi ci go co sz skip grp) @ map (entry_at gi ci) qs"
      "pos_ok factor grps (go + sz) (co + n) go' co' qs" "[] \<notin> set grps \<longrightarrow> covers (go + sz) (co + n) go' co' qs"
      "go + sz \<le> go'" "go' \<le> int (length gi)" "co + n \<le> co'" "co' \<le> int (length ci)" by blast
    define ps where "ps = group_pos factor go co sz skip grp"
    have "pos_ok factor [grp] go co (go + sz) (co + n) ps"
      unfolding pos_ok_def ps_def
      using group_pos_range [OF "2.prems"(2) sk(1), of _ _ _ _ go co sz grp] group_pos_distinct [OF _ "2.prems"(2), of grp go co sz skip]
      by (fastforce simp: n_def)
    then have "pos_ok factor (grp # grps) go co go' co' (ps @ qs)"
      using pos_ok_append qs n0 neg by simp
    moreover have "covers go co go' co' (ps @ qs)" if "[] \<notin> set (grp # grps)"
      using covers_append [OF group_pos_covers [OF "2.prems"(2) sk, of sz grp go co]] qs(3) that neg False
      by (force simp: ps_def n_def)
    ultimately show ?thesis
      using qs n0 neg by (intro exI [of _ "ps @ qs"]) (auto simp: ps_def group_entries_pos)
  qed
qed simp_all

definition entry_ok :: "gpu_spec \<Rightarrow> int list \<Rightarrow> cache_ref list list \<Rightarrow> int \<Rightarrow> plan_entry \<Rightarrow> bool" where
  "entry_ok gpu cpu_ids refs factor e \<longleftrightarrow>
     pe_device e \<in> set (gpu_block_ids gpu) \<and> pe_cpu e \<in> set cpu_ids \<and> 0 \<le> pe_sub e \<and> pe_sub e < factor \<and>
     (\<exists>r \<in> set (concat refs). pe_tensor e = tensor_idx r \<and> pe_size e = page_size_bytes r)"

lemma copy_plan_positions:
  assumes "copy_plan gpu cpu_ids refs factor = Inr plan"
  shows "1 \<le> factor"
    and "\<exists>ps. plan = map (entry_at (gpu_block_ids gpu) cpu_ids) ps \<and>
           pos_ok factor refs 0 0 (int (length (gpu_block_ids gpu))) (int (length cpu_ids)) ps \<and>
           ([] \<notin> set refs \<longrightarrow> covers 0 0 (int (length (gpu_block_ids gpu))) (int (length cpu_ids)) ps)"
proof -
  show f: "1 \<le> factor" using assms by (auto simp: copy_plan_def split: if_splits)
  obtain go co where "plan_groups factor (gpu_block_ids gpu) cpu_ids (group_sizes gpu) (block_indices gpu) refs 0 0 [] = Inr (plan, go, co)"
    "go = int (length (gpu_block_ids gpu))" "co = int (length cpu_ids)"
    using assms by (auto simp: copy_plan_def bind_result_def split: if_splits sum.splits)
  then show "\<exists>ps. plan = map (entry_at (gpu_block_ids gpu) cpu_ids) ps \<and>
           pos_ok factor refs 0 0 (int (length (gpu_block_ids gpu))) (int (length cpu_ids)) ps \<and>
           ([] \<notin> set refs \<longrightarrow> covers 0 0 (int (length (gpu_block_ids gpu))) (int (length cpu_ids)) ps)"
    using plan_groups_positions [OF _ f, of _ _ _ _ _ 0 0 "[]"] by fastforce
qed

lemma entry_at_distinct:
  assumes ps: "pos_ok factor refs 0 0 (int (length gi)) (int (length ci)) ps" and ref: "\<forall>grp \<in> set refs. distinct (map tensor_idx grp)"
  shows "distinct gi \<Longrightarrow> distinct (map (\<lambda>e. (pe_tensor e, pe_device e)) (map (entry_at gi ci) ps))"
    and "distinct ci \<Longrightarrow> distinct (map (\<lambda>e. (pe_tensor e, pe_cpu e, pe_sub e)) (map (entry_at gi ci) ps))"
proof -
  have d: "distinct (map (\<lambda>(r, g, c, s). (tensor_idx r, g)) ps)" "distinct (map (\<lambda>(r, g, c, s). (tensor_idx r, c, s)) ps)"
    using ps ref by (auto simp: pos_ok_def)
  have rng: "0 \<le> g \<and> g < int (length gi) \<and> 0 \<le> c \<and> c < int (length ci)" if "(r, g, c, s) \<in> set ps" for r g c s
    using ps that by (auto simp: pos_ok_def)
  have idx: "a = b" if "distinct xs" "xs ! nat a = xs ! nat b" "0 \<le> a" "a < int (length xs)" "0 \<le> b" "b < int (length xs)" for a b and xs :: "int list"
    using that nth_eq_iff_index_eq [of xs "nat a" "nat b"] by auto
  have inj: "p = q" if "p \<in> set ps" "q \<in> set ps" "f p = f q" "distinct (map f ps)" for f :: "plan_pos \<Rightarrow> 'a" and p q
    using that by (simp add: distinct_map inj_on_def)
  show "distinct (map (\<lambda>e. (pe_tensor e, pe_device e)) (map (entry_at gi ci) ps))" if "distinct gi"
    unfolding distinct_map map_map
  proof (intro conjI inj_onI)
    show "distinct ps" using d(1) by (simp add: distinct_map)
    fix p q assume pq: "p \<in> set ps" "q \<in> set ps" "((\<lambda>e. (pe_tensor e, pe_device e)) \<circ> entry_at gi ci) p = ((\<lambda>e. (pe_tensor e, pe_device e)) \<circ> entry_at gi ci) q"
    obtain r g c s r' g' c' s' where [simp]: "p = (r, g, c, s)" "q = (r', g', c', s')" by (cases p, cases q)
    have "g = g'" using idx [OF that, of g g'] rng pq by (auto simp: entry_at_def)
    then show "p = q" using inj [OF pq(1,2) _ d(1)] pq(3) by (simp add: entry_at_def)
  qed
  show "distinct (map (\<lambda>e. (pe_tensor e, pe_cpu e, pe_sub e)) (map (entry_at gi ci) ps))" if "distinct ci"
    unfolding distinct_map map_map
  proof (intro conjI inj_onI)
    show "distinct ps" using d(1) by (simp add: distinct_map)
    fix p q assume pq: "p \<in> set ps" "q \<in> set ps" "((\<lambda>e. (pe_tensor e, pe_cpu e, pe_sub e)) \<circ> entry_at gi ci) p = ((\<lambda>e. (pe_tensor e, pe_cpu e, pe_sub e)) \<circ> entry_at gi ci) q"
    obtain r g c s r' g' c' s' where [simp]: "p = (r, g, c, s)" "q = (r', g', c', s')" by (cases p, cases q)
    have "c = c'" using idx [OF that, of c c'] rng pq by (auto simp: entry_at_def)
    then show "p = q" using inj [OF pq(1,2) _ d(2)] pq(3) by (simp add: entry_at_def)
  qed
qed

lemma copy_plan_correct_parts:
  assumes "copy_plan gpu cpu_ids refs factor = Inr plan"
  shows "list_all (entry_ok gpu cpu_ids refs factor) plan"
    and "distinct (gpu_block_ids gpu) \<and> (\<forall>grp \<in> set refs. distinct (map tensor_idx grp)) \<Longrightarrow>
           distinct (map (\<lambda>e. (pe_tensor e, pe_device e)) plan)"
    and "distinct cpu_ids \<and> (\<forall>grp \<in> set refs. distinct (map tensor_idx grp)) \<Longrightarrow>
           distinct (map (\<lambda>e. (pe_tensor e, pe_cpu e, pe_sub e)) plan)"
    and "[] \<notin> set refs \<Longrightarrow> pe_device ` set plan = set (gpu_block_ids gpu) \<and> pe_cpu ` set plan = set cpu_ids"
proof -
  let ?gi = "gpu_block_ids gpu"
  obtain ps where ps: "plan = map (entry_at ?gi cpu_ids) ps" "pos_ok factor refs 0 0 (int (length ?gi)) (int (length cpu_ids)) ps"
    "[] \<notin> set refs \<longrightarrow> covers 0 0 (int (length ?gi)) (int (length cpu_ids)) ps"
    using copy_plan_positions(2) [OF assms] by blast
  show ok: "list_all (entry_ok gpu cpu_ids refs factor) plan"
    using ps(2) unfolding ps(1) list_all_iff by (fastforce simp: entry_at_def entry_ok_def pos_ok_def)
  show "distinct ?gi \<and> (\<forall>grp \<in> set refs. distinct (map tensor_idx grp)) \<Longrightarrow> distinct (map (\<lambda>e. (pe_tensor e, pe_device e)) plan)"
    "distinct cpu_ids \<and> (\<forall>grp \<in> set refs. distinct (map tensor_idx grp)) \<Longrightarrow> distinct (map (\<lambda>e. (pe_tensor e, pe_cpu e, pe_sub e)) plan)"
    using entry_at_distinct [OF ps(2)] unfolding ps(1) by simp_all
  show "pe_device ` set plan = set ?gi \<and> pe_cpu ` set plan = set cpu_ids" if "[] \<notin> set refs"
  proof -
    have cov: "covers 0 0 (int (length ?gi)) (int (length cpu_ids)) ps" using ps(3) that by blast
    have "x \<in> pe_device ` set plan" if x: "x \<in> set ?gi" for x
    proof -
      obtain i where i: "i < length ?gi" "x = ?gi ! i" using x by (auto simp: in_set_conv_nth)
      then have "int i \<in> (\<lambda>(r, g, c, s). g) ` set ps" using cov by (simp add: covers_def)
      then obtain r c s where p: "(r, int i, c, s) \<in> set ps" by auto
      have "x = pe_device (entry_at ?gi cpu_ids (r, int i, c, s))" using i by (simp add: entry_at_def)
      then show ?thesis unfolding ps(1) set_map using p by blast
    qed
    moreover have "x \<in> pe_cpu ` set plan" if x: "x \<in> set cpu_ids" for x
    proof -
      obtain i where i: "i < length cpu_ids" "x = cpu_ids ! i" using x by (auto simp: in_set_conv_nth)
      then have "int i \<in> (\<lambda>(r, g, c, s). c) ` set ps" using cov by (simp add: covers_def)
      then obtain r g s where p: "(r, g, int i, s) \<in> set ps" by auto
      have "x = pe_cpu (entry_at ?gi cpu_ids (r, g, int i, s))" using i by (simp add: entry_at_def)
      then show ?thesis unfolding ps(1) set_map using p by blast
    qed
    ultimately show ?thesis using ok by (auto simp: list_all_iff entry_ok_def)
  qed
qed

text \<open>C20: a plan of \<open>copy_plan\<close> names only blocks of its two lists, at sub-blocks below the
block factor, with the tensor and size of a reference; it never names a device block of a tensor
twice, nor a sub-block of a CPU block, when the block lists and the tensors of each group are
distinct; and with a reference in each group it uses every block of both lists.\<close>

theorem copy_plan_correct:
  assumes "copy_plan gpu cpu_ids refs factor = Inr plan"
  shows "list_all (entry_ok gpu cpu_ids refs factor) plan \<and>
    (distinct (gpu_block_ids gpu) \<and> (\<forall>grp \<in> set refs. distinct (map tensor_idx grp)) \<longrightarrow>
       distinct (map (\<lambda>e. (pe_tensor e, pe_device e)) plan)) \<and>
    (distinct cpu_ids \<and> (\<forall>grp \<in> set refs. distinct (map tensor_idx grp)) \<longrightarrow>
       distinct (map (\<lambda>e. (pe_tensor e, pe_cpu e, pe_sub e)) plan)) \<and>
    ([] \<notin> set refs \<longrightarrow> pe_device ` set plan = set (gpu_block_ids gpu) \<and> pe_cpu ` set plan = set cpu_ids)"
  using copy_plan_correct_parts [OF assms] by blast

text \<open>Five blocks, of which the first starts at sub-block 1 of a CPU block of 2, for two tensors.\<close>

definition plan_gpu :: gpu_spec where
  "plan_gpu = \<lparr>group_sizes = [3, 2], block_indices = [1, 4], gpu_block_ids = [7, 3, 5, 0, 2]\<rparr>"

definition plan_refs :: "cache_ref list list" where
  "plan_refs = [[\<lparr>tensor_idx = 0, page_size_bytes = 2\<rparr>, \<lparr>tensor_idx = 1, page_size_bytes = 3\<rparr>], [\<lparr>tensor_idx = 0, page_size_bytes = 2\<rparr>]]"

definition plan_witness :: "plan_entry list" where
  "plan_witness = (case copy_plan plan_gpu [4, 9, 6] plan_refs 2 of Inr p \<Rightarrow> p | Inl _ \<Rightarrow> [])"

lemma plan_witness_ok: "copy_plan plan_gpu [4, 9, 6] plan_refs 2 = Inr plan_witness"
  by code_simp

theorem copy_plan_correct_witness:
  "length plan_witness = 8 \<and> list_all (entry_ok plan_gpu [4, 9, 6] plan_refs 2) plan_witness \<and>
   distinct (map (\<lambda>e. (pe_tensor e, pe_device e)) plan_witness) \<and>
   distinct (map (\<lambda>e. (pe_tensor e, pe_cpu e, pe_sub e)) plan_witness) \<and>
   pe_device ` set plan_witness = {7, 3, 5, 0, 2} \<and> pe_cpu ` set plan_witness = {4, 9, 6}"
proof -
  note ok = copy_plan_correct [OF plan_witness_ok]
  have "length plan_witness = 8" by code_simp
  moreover have "distinct (gpu_block_ids plan_gpu) \<and> list_all (\<lambda>grp. distinct (map tensor_idx grp)) plan_refs" by code_simp
  ultimately show ?thesis using ok by (simp add: list_all_iff) (simp add: plan_gpu_def plan_refs_def)
qed

section \<open>Jobs\<close>

text \<open>The operations of a worker, with the jobs accepted and the results handed out so far.\<close>

datatype worker_op =
  Submit_Transfer rat int gpu_spec "int list" bool
| Poll rat "int \<Rightarrow> event_state"
| Await rat "int \<Rightarrow> bool" "int list"

type_synonym worker_log = "copy_worker \<times> int list \<times> transfer_result list"

fun worker_step :: "(copy_worker \<Rightarrow> plan_entry list \<Rightarrow> span list result) \<Rightarrow> worker_op \<Rightarrow> worker_log \<Rightarrow> worker_log" where
  "worker_step spans (Submit_Transfer now job_id gpu cpu_ids store) (cw, subs, reps) =
     (case submit_with spans now job_id gpu cpu_ids store cw of
        Inl _ \<Rightarrow> (cw, subs, reps)
      | Inr (_, cw) \<Rightarrow> (cw, subs @ [job_id], reps))"
| "worker_step spans (Poll now query) (cw, subs, reps) =
     (let (rs, cw) = worker_get_finished now query cw in (cw, subs, reps @ rs))"
| "worker_step spans (Await now sync ids) (cw, subs, reps) = (worker_wait now sync ids cw, subs, reps)"

definition job_ids :: "copy_worker \<Rightarrow> int list" where
  "job_ids cw = map fst (inflight cw)"

definition jobs_ok :: "copy_worker \<Rightarrow> bool" where
  "jobs_ok cw \<longleftrightarrow> distinct (job_ids cw) \<and> pending cw = set (job_ids cw)"

definition log_ok :: "worker_log \<Rightarrow> bool" where
  "log_ok = (\<lambda>(cw, subs, reps). jobs_ok cw \<and>
     mset subs = mset (map tr_job_id (reps @ completed_results cw)) + mset (job_ids cw))"

lemma map_of_job: "map_of (inflight cw) j = Some v \<Longrightarrow> j \<in> set (job_ids cw)"
  by (force simp: job_ids_def dest: map_of_SomeD)

lemma job_ids_delete: "job_ids (cw\<lparr>inflight := AList.delete j (inflight cw)\<rparr>) = removeAll j (job_ids cw)"
  by (simp add: job_ids_def AList.delete_keys)

lemma job_ids_simps [simp]:
  "job_ids (cw\<lparr>pending := P\<rparr>) = job_ids cw" "job_ids (cw\<lparr>completed_results := R\<rparr>) = job_ids cw"
  by (simp_all add: job_ids_def)

lemma mset_take_job: "distinct js \<Longrightarrow> j \<in> set js \<Longrightarrow> mset js = add_mset j (mset (removeAll j js))"
  by (simp add: distinct_remove1_removeAll [symmetric])

text \<open>Each step moves jobs between the in-flight table, the completed results and the report.\<close>

definition balanced :: "int multiset \<Rightarrow> transfer_result list \<times> copy_worker \<Rightarrow> bool" where
  "balanced m = (\<lambda>(finished, cw). jobs_ok cw \<and>
     m = mset (map tr_job_id (completed_results cw @ finished)) + mset (job_ids cw))"

lemma balanced_take:
  assumes "jobs_ok cw" "map_of (inflight cw) j = Some v"
  shows "jobs_ok (cw\<lparr>inflight := AList.delete j (inflight cw), pending := pending cw - {j}\<rparr>)"
    and "mset (job_ids cw) = add_mset j (mset (removeAll j (job_ids cw)))"
  using assms map_of_job [OF assms(2)] mset_take_job [of "job_ids cw" j]
  by (auto simp: jobs_ok_def job_ids_delete distinct_removeAll)

lemma poll_job_balanced:
  assumes "balanced m fc" shows "balanced m (poll_job now query j fc)"
proof (cases "map_of (inflight (snd fc)) j")
  case None then show ?thesis using assms by (cases fc) (simp add: poll_job_def)
next
  case (Some v)
  show ?thesis
    using assms Some balanced_take [OF _ Some]
    by (cases fc; cases v) (auto simp: balanced_def poll_job_def finalize_def job_ids_delete)
qed

lemma poll_balanced: "balanced m fc \<Longrightarrow> balanced m (fold (poll_job now query) js fc)"
  by (induction js arbitrary: fc) (simp_all add: poll_job_balanced del: split_paired_All)

lemma wait_job_balanced:
  assumes "balanced m ([], cw)" shows "balanced m ([], wait_job now sync j cw)"
proof (cases "map_of (inflight cw) j")
  case None then show ?thesis using assms by (simp add: wait_job_def)
next
  case (Some v)
  have "jobs_ok (cw\<lparr>inflight := AList.delete j (inflight cw), completed_results := R, pending := pending cw - {j}\<rparr>)" for R
    using balanced_take(1) [OF _ Some] assms by (simp add: balanced_def jobs_ok_def job_ids_def)
  then show ?thesis
    using assms Some balanced_take(2) [OF _ Some]
    by (cases v) (auto simp: balanced_def wait_job_def finalize_def job_ids_delete)
qed

lemma worker_wait_balanced: "balanced m ([], cw) \<Longrightarrow> balanced m ([], worker_wait now sync js cw)"
  unfolding worker_wait_def by (induction js arbitrary: cw) (auto intro: wait_job_balanced)

lemma get_finished_balanced:
  assumes "balanced m ([], cw)" "worker_get_finished now query cw = (rs, cw')"
  shows "balanced (m - mset (map tr_job_id rs)) ([], cw') \<and> mset (map tr_job_id rs) \<subseteq># m \<and> completed_results cw' = []"
proof -
  obtain fin cw1 where f: "fold (poll_job now query) (map fst (inflight cw)) ([], cw) = (fin, cw1)" by fastforce
  have "balanced m (fin, cw1)" using poll_balanced [OF assms(1)] f by metis
  then show ?thesis using assms(2) f by (auto simp: worker_get_finished_def balanced_def jobs_ok_def)
qed

lemma log_ok_balanced: "log_ok (cw, subs, reps) \<longleftrightarrow> (\<exists>m. balanced m ([], cw) \<and> mset subs = mset (map tr_job_id reps) + m)"
  by (auto simp: log_ok_def balanced_def)

lemma submit_log_ok:
  assumes "log_ok (cw, subs, reps)" "submit_with spans now j gpu cpu_ids store cw = Inr (copies, cw')"
  shows "log_ok (cw', subs @ [j], reps)"
proof -
  have j: "j \<notin> set (job_ids cw)" using assms by (auto simp: submit_with_def log_ok_def jobs_ok_def split: if_splits)
  then have up: "map fst (AList.update j v (inflight cw)) = job_ids cw @ [j]" for v
    by (simp add: AList.update_keys job_ids_def del: set_map)
  obtain w where "cw' = cw\<lparr>inflight := AList.update j w (inflight cw), pending := insert j (pending cw)\<rparr>"
    using assms(2) by (auto simp: submit_with_def bind_result_def split: if_splits sum.splits)
  then have "job_ids cw' = job_ids cw @ [j]" "pending cw' = insert j (pending cw)" "completed_results cw' = completed_results cw"
    using up by (simp_all add: job_ids_def)
  then show ?thesis using assms(1) j by (auto simp: log_ok_def jobs_ok_def)
qed

interpretation worker_run: guarded_component "worker_step spans" log_ok "\<lambda>_. True" for spans
proof unfold_locales
  fix op :: worker_op and s :: worker_log
  obtain cw subs reps where [simp]: "s = (cw, subs, reps)" by (cases s)
  assume ok: "log_ok s"
  then obtain m where m: "balanced m ([], cw)" "mset subs = mset (map tr_job_id reps) + m" by (auto simp: log_ok_balanced)
  show "log_ok (worker_step spans op s)"
  proof (cases op)
    case (Submit_Transfer now j gpu cpu_ids store)
    then show ?thesis using ok submit_log_ok [of cw subs reps spans] by (auto split: sum.splits)
  next
    case (Poll now query)
    obtain rs cw' where r: "worker_get_finished now query cw = (rs, cw')" by fastforce
    have "mset subs = mset (map tr_job_id (reps @ rs)) + (m - mset (map tr_job_id rs))"
      using m(2) get_finished_balanced [OF m(1) r] by (simp add: subset_mset.add_diff_inverse union_assoc)
    then show ?thesis using Poll r get_finished_balanced [OF m(1) r] by (auto simp: log_ok_balanced)
  next
    case (Await now sync ids)
    then show ?thesis using m worker_wait_balanced [OF m(1)] by (auto simp: log_ok_balanced)
  qed
qed

definition fresh_worker :: "copy_worker \<Rightarrow> bool" where
  "fresh_worker cw \<longleftrightarrow> inflight cw = [] \<and> pending cw = {} \<and> completed_results cw = []"

lemma make_copy_worker_fresh: "make_copy_worker next_view tensors refs factor = Inr cw \<Longrightarrow> fresh_worker cw"
  by (auto simp: make_copy_worker_def fresh_worker_def split: if_splits)

lemma wait_removes:
  "job_ids (worker_wait now sync ids cw) = filter (\<lambda>j. j \<notin> set ids) (job_ids cw)"
proof -
  have w: "job_ids (wait_job now sync j cw) = removeAll j (job_ids cw)" for j cw
  proof (cases "map_of (inflight cw) j")
    case None
    then have "j \<notin> set (job_ids cw)" by (auto simp: job_ids_def map_of_eq_None_iff)
    then show ?thesis using None by (simp add: wait_job_def)
  qed (auto simp: wait_job_def finalize_def job_ids_delete)
  show ?thesis unfolding worker_wait_def
    by (induction ids arbitrary: cw) (auto simp: w removeAll_filter_not_eq intro: filter_cong)
qed

lemma transfers_reported_once_parts:
  assumes "fresh_worker cw0" "fold (worker_step spans) ops (cw0, [], []) = (cw, subs, reps)"
  shows "mset subs = mset (map tr_job_id reps) + mset (map tr_job_id (completed_results cw)) + mset_set (pending cw)"
    and "pending cw \<subseteq> set ids \<and> worker_get_finished now query (worker_wait now' sync ids cw) = (rs, cw') \<Longrightarrow>
           mset (map tr_job_id (reps @ rs)) = mset subs \<and> fresh_worker cw'"
proof -
  have "log_ok (cw0, [], [])" using assms(1) by (auto simp: fresh_worker_def log_ok_def jobs_ok_def job_ids_def)
  from worker_run.run_inv [OF this, of ops spans] have ok: "log_ok (cw, subs, reps)" by (simp add: assms(2) list_all_iff)
  then show "mset subs = mset (map tr_job_id reps) + mset (map tr_job_id (completed_results cw)) + mset_set (pending cw)"
    by (auto simp: log_ok_def jobs_ok_def mset_set_set)
  assume a: "pending cw \<subseteq> set ids \<and> worker_get_finished now query (worker_wait now' sync ids cw) = (rs, cw')"
  obtain m where m: "balanced m ([], worker_wait now' sync ids cw)" "mset subs = mset (map tr_job_id reps) + m"
    using ok worker_wait_balanced unfolding log_ok_balanced by blast
  have none: "job_ids (worker_wait now' sync ids cw) = []"
    using a ok by (auto simp: wait_removes filter_empty_conv log_ok_def jobs_ok_def)
  then have "inflight (worker_wait now' sync ids cw) = []" by (simp add: job_ids_def)
  then have "rs = completed_results (worker_wait now' sync ids cw)" "inflight cw' = []" "completed_results cw' = []"
    "pending cw' = pending (worker_wait now' sync ids cw)"
    using a by (auto simp: worker_get_finished_def)
  then show "mset (map tr_job_id (reps @ rs)) = mset subs \<and> fresh_worker cw'"
    using m none by (auto simp: balanced_def jobs_ok_def fresh_worker_def)
qed

text \<open>C19: Whatever the sequence of submissions, polls and waits (and whatever the events do),
each accepted job is in exactly one place, once per acceptance: reported, waiting in the
completed results, or pending; and when the pending jobs are waited for, the next poll has
reported every accepted job exactly as often as it was accepted, and leaves nothing behind.\<close>

theorem transfers_reported_once:
  assumes "fresh_worker cw0" "fold (worker_step spans) ops (cw0, [], []) = (cw, subs, reps)"
  shows "mset subs = mset (map tr_job_id reps) + mset (map tr_job_id (completed_results cw)) + mset_set (pending cw) \<and>
    (pending cw \<subseteq> set ids \<and> worker_get_finished now query (worker_wait now' sync ids cw) = (rs, cw') \<longrightarrow>
       mset (map tr_job_id (reps @ rs)) = mset subs \<and> fresh_worker cw')"
  using transfers_reported_once_parts [OF assms] by blast

definition small_worker :: copy_worker where
  "small_worker = (case make_copy_worker (\<lambda>n. \<lparr>dim_rows = 10, dim_cols = n\<rparr>) [(True, 8, 2), (True, 8, 3)] plan_refs 2 of
     Inr cw \<Rightarrow> cw | Inl _ \<Rightarrow> undefined)"

lemma small_worker_ok:
  "make_copy_worker (\<lambda>n. \<lparr>dim_rows = 10, dim_cols = n\<rparr>) [(True, 8, 2), (True, 8, 3)] plan_refs 2 = Inr small_worker"
  by (simp add: small_worker_def make_copy_worker_def)

definition small_ops :: "worker_op list" where
  "small_ops = [Submit_Transfer 0 1 plan_gpu [4, 9, 6] True, Submit_Transfer 1 2 plan_gpu [4, 9, 6] False,
     Submit_Transfer 2 1 plan_gpu [4, 9, 6] True, Poll 3 (\<lambda>j. if j = 1 then Failed_Event else Running_Event)]"

definition small_log :: worker_log where
  "small_log = fold (worker_step spans_of) small_ops (small_worker, [], [])"

theorem transfers_reported_once_witness:
  "fst (snd small_log) = [1, 2] \<and> map tr_job_id (snd (snd small_log)) = [1] \<and> map tr_success (snd (snd small_log)) = [False] \<and>
   pending (fst small_log) = {2} \<and>
   mset (map tr_job_id (snd (snd small_log) @
     fst (worker_get_finished 5 (\<lambda>_. Complete) (worker_wait 4 (\<lambda>_. True) [2] (fst small_log))))) = {#1, 2#}"
proof -
  let ?w = "worker_wait 4 (\<lambda>_. True) [2] (fst small_log)"
  have run: "fold (worker_step spans_of) small_ops (small_worker, [], []) = (fst small_log, fst (snd small_log), snd (snd small_log))"
    by (simp add: small_log_def)
  note t = transfers_reported_once [OF make_copy_worker_fresh [OF small_worker_ok] run]
  have v: "fst (snd small_log) = [1, 2]" "map tr_job_id (snd (snd small_log)) = [1]" "map tr_success (snd (snd small_log)) = [False]"
    "pending (fst small_log) = {2}" by code_simp+
  have "mset (map tr_job_id (snd (snd small_log) @ fst (worker_get_finished 5 (\<lambda>_. Complete) ?w))) = mset (fst (snd small_log))"
    using t [of "[2]" 5 "\<lambda>_. Complete" 4 "\<lambda>_. True" "fst (worker_get_finished 5 (\<lambda>_. Complete) ?w)" "snd (worker_get_finished 5 (\<lambda>_. Complete) ?w)", THEN conjunct2]
    by (simp add: v)
  with v show ?thesis by simp
qed

end
