(* ===== verification/Ascend_Transfer.thy ===== *)
theory Ascend_Transfer
  imports Ascend_Worker_Props
begin

text \<open>
  What executing the copies of a transfer does to the memories: stored blocks are loaded back
  byte for byte, into the same or into other device blocks, and nothing else is written.
\<close>

section \<open>Slices\<close>

definition slice_fits :: "string list list \<Rightarrow> row_slice \<Rightarrow> bool" where
  "slice_fits mem sl \<longleftrightarrow> rs_tensor sl < length mem \<and> rs_row sl < length (mem ! rs_tensor sl) \<and>
     rs_start sl + rs_len sl \<le> length (mem ! rs_tensor sl ! rs_row sl)"

definition apart :: "row_slice \<Rightarrow> row_slice \<Rightarrow> bool" where
  "apart a b \<longleftrightarrow> rs_tensor a \<noteq> rs_tensor b \<or> rs_row a \<noteq> rs_row b \<or>
     rs_start a + rs_len a \<le> rs_start b \<or> rs_start b + rs_len b \<le> rs_start a"

lemma read_write_same:
  assumes "slice_fits mem sl" "length data = rs_len sl" shows "read_slice (write_slice data sl mem) sl = data"
  using assms by (simp add: slice_fits_def read_slice_def write_slice_def Let_def)

lemma overwrite_other:
  assumes "s + l \<le> length row" "t + length data \<le> length row" "s + l \<le> t \<or> t + length data \<le> s"
  shows "take l (drop s (take t row @ data @ drop (t + length data) row)) = take l (drop s row)"
proof (rule nth_equalityI)
  fix i assume "i < length (take l (drop s (take t row @ data @ drop (t + length data) row)))"
  then have "i < l" by (simp only: length_take min_less_iff_conj)
  then show "take l (drop s (take t row @ data @ drop (t + length data) row)) ! i = take l (drop s row) ! i"
    using assms by (auto simp: nth_append)
qed (use assms in auto)

lemma read_write_apart:
  assumes "slice_fits mem a" "slice_fits mem b" "length data = rs_len b" "apart a b"
  shows "read_slice (write_slice data b mem) a = read_slice mem a"
  using assms overwrite_other [of "rs_start a" "rs_len a" "mem ! rs_tensor a ! rs_row a" "rs_start b" data]
  by (auto simp: read_slice_def write_slice_def Let_def slice_fits_def apart_def nth_list_update)

lemma fits_write:
  assumes "slice_fits mem b" "length data = rs_len b"
  shows "slice_fits (write_slice data b mem) a \<longleftrightarrow> slice_fits mem a"
  using assms by (auto simp: write_slice_def Let_def slice_fits_def nth_list_update split: if_splits)

section \<open>Sequences of copies\<close>

definition copy_all :: "string list list \<Rightarrow> span list \<Rightarrow> string list list \<Rightarrow> string list list" where
  "copy_all src sp dst = fold (\<lambda>(a, b) mem. write_slice (read_slice src a) b mem) sp dst"

lemma store_copies: "fold store_copy sp mem = mem\<lparr>cpu_mem := copy_all (device_mem mem) sp (cpu_mem mem)\<rparr>"
  unfolding copy_all_def by (induction sp arbitrary: mem) (auto simp: store_copy_def)

lemma load_copies: "fold load_copy sp mem = mem\<lparr>device_mem := copy_all (cpu_mem mem) sp (device_mem mem)\<rparr>"
  unfolding copy_all_def by (induction sp arbitrary: mem) (auto simp: load_copy_def)

definition span_ok :: "string list list \<Rightarrow> string list list \<Rightarrow> span \<Rightarrow> bool" where
  "span_ok src dst = (\<lambda>(a, b). slice_fits src a \<and> slice_fits dst b \<and> rs_len a = rs_len b)"

lemma length_read: "slice_fits mem a \<Longrightarrow> length (read_slice mem a) = rs_len a"
  by (auto simp: slice_fits_def read_slice_def)

lemma copy_all_frame:
  assumes "list_all (span_ok src dst) sp" "list_all (\<lambda>(_, b). apart c b) sp" "slice_fits dst c"
  shows "read_slice (copy_all src sp dst) c = read_slice dst c \<and> (\<forall>d. slice_fits (copy_all src sp dst) d = slice_fits dst d)"
  using assms
proof (induction sp arbitrary: dst)
  case (Cons ab sp)
  obtain a b where [simp]: "ab = (a, b)" by (cases ab)
  let ?d = "write_slice (read_slice src a) b dst"
  have ok: "slice_fits src a" "slice_fits dst b" "length (read_slice src a) = rs_len b" "apart c b"
    using Cons.prems by (auto simp: span_ok_def length_read)
  note f = fits_write [OF ok(2,3)]
  have "read_slice ?d c = read_slice dst c" using read_write_apart [OF Cons.prems(3) ok(2,3,4)] .
  moreover have "list_all (span_ok src ?d) sp" using Cons.prems(1) by (auto simp: list_all_iff span_ok_def f)
  ultimately show ?case
    using Cons.IH [of ?d] Cons.prems f by (simp add: copy_all_def)
qed (simp add: copy_all_def)

lemma copy_all_copies:
  assumes "list_all (span_ok src dst) sp" "sorted_wrt (\<lambda>x y. apart (snd x) (snd y)) sp" "(a, b) \<in> set sp"
  shows "read_slice (copy_all src sp dst) b = read_slice src a"
  using assms
proof (induction sp arbitrary: dst)
  case (Cons ab sp)
  obtain a' b' where [simp]: "ab = (a', b')" by (cases ab)
  let ?d = "write_slice (read_slice src a') b' dst"
  have ok: "slice_fits src a'" "slice_fits dst b'" "length (read_slice src a') = rs_len b'"
    using Cons.prems by (auto simp: span_ok_def length_read)
  note f = fits_write [OF ok(2,3)]
  have sp: "list_all (span_ok src ?d) sp" using Cons.prems(1) by (auto simp: list_all_iff span_ok_def f)
  show ?case
  proof (cases "(a, b) \<in> set sp")
    case True then show ?thesis using Cons.IH [OF sp] Cons.prems(2) by (simp add: copy_all_def)
  next
    case False
    then have [simp]: "a = a'" "b = b'" using Cons.prems(3) by auto
    have "list_all (\<lambda>(_, c). apart b c) sp" using Cons.prems(2) by (auto simp: list_all_iff)
    then show ?thesis using copy_all_frame [OF sp, of b] read_write_same [OF ok(2,3)] ok(2) f by (simp add: copy_all_def)
  qed
qed simp

lemma copy_all_fits:
  assumes "list_all (span_ok src dst) sp" shows "slice_fits (copy_all src sp dst) d = slice_fits dst d"
  using assms
proof (induction sp arbitrary: dst)
  case (Cons ab sp)
  obtain a b where [simp]: "ab = (a, b)" by (cases ab)
  have ok: "slice_fits dst b" "length (read_slice src a) = rs_len b" using Cons.prems by (auto simp: span_ok_def length_read)
  have "list_all (span_ok src (write_slice (read_slice src a) b dst)) sp"
    using Cons.prems by (auto simp: list_all_iff span_ok_def fits_write [OF ok])
  then show ?case using Cons.IH fits_write [OF ok] by (simp add: copy_all_def)
qed (simp add: copy_all_def)

text \<open>A row that no destination names keeps its bytes.\<close>

lemma copy_all_row:
  assumes "\<forall>(a, b) \<in> set sp. rs_tensor b \<noteq> t \<or> rs_row b \<noteq> r"
  shows "copy_all src sp dst ! t ! r = dst ! t ! r"
  using assms
proof (induction sp arbitrary: dst)
  case (Cons ab sp)
  obtain a b where [simp]: "ab = (a, b)" by (cases ab)
  have "write_slice x b dst ! t ! r = dst ! t ! r" for x
    using Cons.prems by (cases "rs_tensor b < length dst") (auto simp: write_slice_def Let_def nth_list_update list_update_beyond)
  then show ?case using Cons.IH Cons.prems by (simp add: copy_all_def)
qed (simp add: copy_all_def)

text \<open>Nor does a byte that no destination covers, in any row.\<close>

definition slice_covers :: "row_slice \<Rightarrow> nat \<Rightarrow> nat \<Rightarrow> nat \<Rightarrow> bool" where
  "slice_covers sl t r i \<longleftrightarrow> rs_tensor sl = t \<and> rs_row sl = r \<and> rs_start sl \<le> i \<and> i < rs_start sl + rs_len sl"

lemma write_slice_byte:
  assumes "slice_fits mem sl" "length data = rs_len sl"
  shows "length (write_slice data sl mem ! t ! r) = length (mem ! t ! r)"
    "\<not> slice_covers sl t r i \<Longrightarrow> write_slice data sl mem ! t ! r ! i = mem ! t ! r ! i"
  using assms by (auto simp: slice_fits_def slice_covers_def write_slice_def Let_def nth_list_update nth_append)

lemma copy_all_byte:
  assumes "list_all (span_ok src dst) sp"
  shows "length (copy_all src sp dst ! t ! r) = length (dst ! t ! r)"
    "\<forall>(a, b) \<in> set sp. \<not> slice_covers b t r i \<Longrightarrow> copy_all src sp dst ! t ! r ! i = dst ! t ! r ! i"
proof -
  have "length (copy_all src sp dst ! t ! r) = length (dst ! t ! r) \<and>
    ((\<forall>(a, b) \<in> set sp. \<not> slice_covers b t r i) \<longrightarrow> copy_all src sp dst ! t ! r ! i = dst ! t ! r ! i)"
    using assms
  proof (induction sp arbitrary: dst)
    case (Cons ab sp)
    obtain a b where [simp]: "ab = (a, b)" by (cases ab)
    have ok: "slice_fits dst b" "length (read_slice src a) = rs_len b" using Cons.prems by (auto simp: span_ok_def length_read)
    have "list_all (span_ok src (write_slice (read_slice src a) b dst)) sp"
      using Cons.prems by (auto simp: list_all_iff span_ok_def fits_write [OF ok])
    from Cons.IH [OF this] write_slice_byte [OF ok, of t r] show ?case by (simp add: copy_all_def)
  qed (simp add: copy_all_def)
  then show "length (copy_all src sp dst ! t ! r) = length (dst ! t ! r)"
    "\<forall>(a, b) \<in> set sp. \<not> slice_covers b t r i \<Longrightarrow> copy_all src sp dst ! t ! r ! i = dst ! t ! r ! i" by blast+
qed

section \<open>The spans of a plan\<close>

definition dev_slice :: "plan_entry \<Rightarrow> row_slice" where
  "dev_slice e = \<lparr>rs_tensor = nat (pe_tensor e), rs_row = nat (pe_device e), rs_start = 0, rs_len = nat (pe_size e)\<rparr>"

definition cpu_slice :: "copy_worker \<Rightarrow> plan_entry \<Rightarrow> row_slice" where
  "cpu_slice cw e = \<lparr>rs_tensor = nat (pe_tensor e), rs_row = nat (pe_cpu e),
     rs_start = nat (pe_sub e * dim_cols (device_tensors cw ! nat (pe_tensor e))), rs_len = nat (pe_size e)\<rparr>"

text \<open>The CPU rows hold \<open>factor\<close> device pages, as \<open>__init__\<close> asks the region for.\<close>

definition worker_ok :: "copy_worker \<Rightarrow> bool" where
  "worker_ok cw \<longleftrightarrow> length (cpu_tensors cw) = length (device_tensors cw) \<and>
     (\<forall>i < length (device_tensors cw). dim_cols (cpu_tensors cw ! i) = dim_cols (device_tensors cw ! i) * cw_factor cw)"

lemma make_copy_worker_ok:
  "make_copy_worker next_view tensors refs factor = Inr cw \<Longrightarrow> (\<And>n. dim_cols (next_view n) = n) \<Longrightarrow> worker_ok cw"
  by (auto simp: make_copy_worker_def worker_ok_def split: if_splits prod.splits)

definition refs_ok :: "cache_ref list list \<Rightarrow> bool" where
  "refs_ok refs \<longleftrightarrow> (\<forall>grp \<in> set refs. distinct (map tensor_idx grp) \<and> (\<forall>r \<in> set grp. 0 \<le> tensor_idx r))"

definition in_range :: "copy_worker \<Rightarrow> plan_entry \<Rightarrow> bool" where
  "in_range cw e \<longleftrightarrow> (let t = nat (pe_tensor e) in
     0 \<le> pe_tensor e \<and> t < length (device_tensors cw) \<and> 0 \<le> pe_device e \<and> pe_device e < dim_rows (device_tensors cw ! t) \<and>
     0 \<le> pe_cpu e \<and> pe_cpu e < dim_rows (cpu_tensors cw ! t) \<and> 0 < pe_size e \<and> pe_size e \<le> dim_cols (device_tensors cw ! t) \<and>
     0 \<le> pe_sub e \<and> pe_sub e < cw_factor cw)"

lemma sub_page_fits: "pe_sub e < factor \<Longrightarrow> pe_size e \<le> page \<Longrightarrow> 0 < pe_size e \<Longrightarrow> pe_sub e * page + pe_size e \<le> page * factor"
proof -
  assume a: "pe_sub e < factor" "pe_size e \<le> page" "0 < pe_size e"
  have "(pe_sub e + 1) * page \<le> factor * page" using a by (intro mult_right_mono) auto
  with a(2) show ?thesis by (simp add: algebra_simps)
qed

lemma entry_span_slices:
  assumes "worker_ok cw" "0 \<le> pe_tensor e" "0 \<le> pe_sub e" "pe_sub e < cw_factor cw" "entry_span cw e = Inr sp"
  shows "sp = (dev_slice e, cpu_slice cw e) \<and> in_range cw e"
proof -
  have t: "nat (pe_tensor e) < length (device_tensors cw)"
    using assms(2,5) by (auto simp: entry_span_def py_nth_def bind_result_def Let_def split: if_splits)
  then have d: "py_nth (device_tensors cw) (pe_tensor e) = Inr (nat (pe_tensor e), device_tensors cw ! nat (pe_tensor e))"
    "py_nth (cpu_tensors cw) (pe_tensor e) = Inr (nat (pe_tensor e), cpu_tensors cw ! nat (pe_tensor e))"
    using assms(1,2) by (auto simp: py_nth_def worker_ok_def Let_def)
  note sp = assms(5) [unfolded entry_span_def d bind_result_def sum.case prod.case]
  have r: "in_range cw e" using sp t assms(2,3,4) by (auto simp: in_range_def Let_def split: if_splits)
  have cols: "dim_cols (cpu_tensors cw ! nat (pe_tensor e)) = dim_cols (device_tensors cw ! nat (pe_tensor e)) * cw_factor cw"
    using assms(1) t by (simp add: worker_ok_def)
  have "pe_sub e * dim_cols (device_tensors cw ! nat (pe_tensor e)) + pe_size e \<le> dim_cols (device_tensors cw ! nat (pe_tensor e)) * cw_factor cw"
    using r by (intro sub_page_fits) (auto simp: in_range_def Let_def)
  then have "sp = (dev_slice e, cpu_slice cw e)"
    using sp r unfolding cols by (auto simp: in_range_def Let_def slice_of_def dev_slice_def cpu_slice_def split: if_splits)
  with r show ?thesis by simp
qed

lemma map_result_Inr: "map_result f xs = Inr ys \<Longrightarrow> list_all2 (\<lambda>x y. f x = Inr y) xs ys"
  by (induction xs arbitrary: ys) (auto simp: bind_result_def split: sum.splits)

definition plan_ok :: "copy_worker \<Rightarrow> plan_entry list \<Rightarrow> bool" where
  "plan_ok cw plan \<longleftrightarrow> list_all (\<lambda>e. 0 \<le> pe_tensor e \<and> 0 \<le> pe_sub e \<and> pe_sub e < cw_factor cw) plan"

lemma spans_of_slices:
  assumes "worker_ok cw" "plan_ok cw plan" "spans_of cw plan = Inr sp"
  shows "sp = map (\<lambda>e. (dev_slice e, cpu_slice cw e)) plan \<and> list_all (in_range cw) plan"
proof -
  have "list_all2 (\<lambda>e s. entry_span cw e = Inr s) plan sp" using map_result_Inr assms(3) by (simp add: spans_of_def)
  then show ?thesis using assms(2)
  proof (induction plan arbitrary: sp)
    case (Cons e plan)
    then obtain s sp' where [simp]: "sp = s # sp'" and "entry_span cw e = Inr s" by (auto simp: list_all2_Cons1)
    then show ?case using Cons entry_span_slices [OF assms(1), of e s] by (auto simp: plan_ok_def)
  qed simp
qed

section \<open>Round trip\<close>

definition mem_fits :: "string list list \<Rightarrow> tensor_shape list \<Rightarrow> bool" where
  "mem_fits mem shapes \<longleftrightarrow> list_all2 (\<lambda>rows sh. int (length rows) = dim_rows sh \<and> list_all (\<lambda>row. int (length row) = dim_cols sh) rows) mem shapes"

lemma mem_fitsD:
  assumes "mem_fits mem shapes" "t < length shapes"
  shows "t < length mem" "int (length (mem ! t)) = dim_rows (shapes ! t)"
    "0 \<le> r \<Longrightarrow> r < dim_rows (shapes ! t) \<Longrightarrow> int (length (mem ! t ! nat r)) = dim_cols (shapes ! t)"
proof -
  show l: "t < length mem" using assms by (auto simp: mem_fits_def dest: list_all2_lengthD)
  show "int (length (mem ! t)) = dim_rows (shapes ! t)"
    using assms l list_all2_nthD [of _ mem shapes t] unfolding mem_fits_def by blast
  moreover have "list_all (\<lambda>row. int (length row) = dim_cols (shapes ! t)) (mem ! t)"
    using assms l list_all2_nthD [of _ mem shapes t] unfolding mem_fits_def by blast
  ultimately show "0 \<le> r \<Longrightarrow> r < dim_rows (shapes ! t) \<Longrightarrow> int (length (mem ! t ! nat r)) = dim_cols (shapes ! t)"
    by (simp add: list_all_length)
qed

lemma mem_fits_write:
  assumes "mem_fits mem shapes" "slice_fits mem b" "length data = rs_len b"
  shows "mem_fits (write_slice data b mem) shapes"
proof -
  let ?row = "mem ! rs_tensor b ! rs_row b"
  let ?new = "take (rs_start b) ?row @ data @ drop (rs_start b + length data) ?row"
  have len: "length ?new = length ?row" using assms(2,3) by (auto simp: slice_fits_def)
  have "list_all2 (\<lambda>rows sh. int (length rows) = dim_rows sh \<and> list_all (\<lambda>row. int (length row) = dim_cols sh) rows)
      (mem[rs_tensor b := (mem ! rs_tensor b)[rs_row b := ?new]]) shapes"
    using assms(1,2) len unfolding mem_fits_def list_all2_conv_all_nth slice_fits_def
    by (auto simp: nth_list_update list_all_length simp del: length_append)
  then show ?thesis by (simp add: mem_fits_def write_slice_def Let_def)
qed

lemma copy_all_mem_fits:
  assumes "list_all (span_ok src dst) sp" "mem_fits dst shapes" shows "mem_fits (copy_all src sp dst) shapes"
  using assms
proof (induction sp arbitrary: dst)
  case (Cons ab sp)
  obtain a b where [simp]: "ab = (a, b)" by (cases ab)
  have ok: "slice_fits dst b" "length (read_slice src a) = rs_len b" using Cons.prems by (auto simp: span_ok_def length_read)
  have "list_all (span_ok src (write_slice (read_slice src a) b dst)) sp"
    using Cons.prems by (auto simp: list_all_iff span_ok_def fits_write [OF ok])
  then show ?case using Cons.IH mem_fits_write [OF Cons.prems(2) ok] by (simp add: copy_all_def)
qed (simp add: copy_all_def)

lemma slices_fit:
  assumes "worker_ok cw" "in_range cw e"
  shows "mem_fits dev (device_tensors cw) \<Longrightarrow> slice_fits dev (dev_slice e)"
    and "mem_fits cpu (cpu_tensors cw) \<Longrightarrow> slice_fits cpu (cpu_slice cw e)"
proof -
  define t where "t = nat (pe_tensor e)"
  have r: "t < length (device_tensors cw)" "t < length (cpu_tensors cw)" "0 \<le> pe_device e" "pe_device e < dim_rows (device_tensors cw ! t)"
    "0 \<le> pe_cpu e" "pe_cpu e < dim_rows (cpu_tensors cw ! t)" "0 < pe_size e" "pe_size e \<le> dim_cols (device_tensors cw ! t)"
    "0 \<le> pe_sub e" "pe_sub e < cw_factor cw"
    "dim_cols (cpu_tensors cw ! t) = dim_cols (device_tensors cw ! t) * cw_factor cw"
    using assms by (auto simp: in_range_def worker_ok_def Let_def t_def)
  show "slice_fits dev (dev_slice e)" if "mem_fits dev (device_tensors cw)"
    using mem_fitsD(1,2) [OF that r(1)] mem_fitsD(3) [OF that r(1) r(3,4)] r(3,4,7,8) unfolding slice_fits_def dev_slice_def row_slice.simps t_def [symmetric] by auto
  have "pe_sub e * dim_cols (device_tensors cw ! t) + pe_size e \<le> dim_cols (cpu_tensors cw ! t)"
    unfolding r(11) by (rule sub_page_fits) (use r in auto)
  moreover have "0 \<le> pe_sub e * dim_cols (device_tensors cw ! t)" using r by auto
  ultimately show "slice_fits cpu (cpu_slice cw e)" if "mem_fits cpu (cpu_tensors cw)"
    using mem_fitsD(1,2) [OF that r(2)] mem_fitsD(3) [OF that r(2) r(5,6)] r(5,6,7) unfolding slice_fits_def cpu_slice_def row_slice.simps t_def [symmetric] by auto
qed

lemma sorted_wrt_distinct_map:
  "distinct (map f xs) \<Longrightarrow> (\<And>x y. x \<in> set xs \<Longrightarrow> y \<in> set xs \<Longrightarrow> f x \<noteq> f y \<Longrightarrow> R x y) \<Longrightarrow> sorted_wrt R xs"
proof (induction xs)
  case (Cons x xs)
  have "R x y" if "y \<in> set xs" for y using Cons.prems that by force
  with Cons show ?case by simp
qed simp

lemma dev_slices_apart:
  assumes "list_all (in_range cw) plan" "distinct (map (\<lambda>e. (pe_tensor e, pe_device e)) plan)"
  shows "sorted_wrt (\<lambda>e e'. apart (dev_slice e) (dev_slice e')) plan"
  using assms(2)
proof (rule sorted_wrt_distinct_map)
  fix e e' assume a: "e \<in> set plan" "e' \<in> set plan" "(pe_tensor e, pe_device e) \<noteq> (pe_tensor e', pe_device e')"
  then have "in_range cw e" "in_range cw e'" using assms(1) by (auto simp: list_all_iff)
  with a(3) show "apart (dev_slice e) (dev_slice e')" by (auto simp: in_range_def Let_def apart_def dev_slice_def eq_nat_nat_iff)
qed

lemma sub_pages_apart:
  fixes a b page :: int
  assumes "0 \<le> a" "a < b" "0 \<le> n" "n \<le> page" shows "nat (a * page) + nat n \<le> nat (b * page)"
proof -
  have "(a + 1) * page \<le> b * page" using assms by (intro mult_right_mono) auto
  then have "a * page + n \<le> b * page" using assms(4) by (simp add: algebra_simps)
  moreover have "0 \<le> a * page" using assms by simp
  ultimately show ?thesis using assms(3) by linarith
qed

lemma cpu_slices_apart:
  assumes "list_all (in_range cw) plan" "distinct (map (\<lambda>e. (pe_tensor e, pe_cpu e, pe_sub e)) plan)"
  shows "sorted_wrt (\<lambda>e e'. apart (cpu_slice cw e) (cpu_slice cw e')) plan"
  using assms(2)
proof (rule sorted_wrt_distinct_map)
  fix e e' assume a: "e \<in> set plan" "e' \<in> set plan" "(pe_tensor e, pe_cpu e, pe_sub e) \<noteq> (pe_tensor e', pe_cpu e', pe_sub e')"
  then have r: "in_range cw e" "in_range cw e'" using assms(1) by (auto simp: list_all_iff)
  show "apart (cpu_slice cw e) (cpu_slice cw e')"
  proof (cases "pe_tensor e = pe_tensor e' \<and> pe_cpu e = pe_cpu e'")
    case False then show ?thesis using r by (auto simp: in_range_def Let_def apart_def cpu_slice_def eq_nat_nat_iff)
  next
    case True
    then have "pe_sub e < pe_sub e' \<or> pe_sub e' < pe_sub e" using a(3) by auto
    moreover have "apart (cpu_slice cw e) (cpu_slice cw e')" if "pe_sub e < pe_sub e'"
      using True r sub_pages_apart [OF _ that, of "pe_size e"] by (simp add: in_range_def Let_def apart_def cpu_slice_def)
    moreover have "apart (cpu_slice cw e) (cpu_slice cw e')" if "pe_sub e' < pe_sub e"
      using True r sub_pages_apart [OF _ that, of "pe_size e'"] by (simp add: in_range_def Let_def apart_def cpu_slice_def)
    ultimately show ?thesis by blast
  qed
qed

text \<open>Plans for the same metadata differ only in the device blocks.\<close>

definition same_place :: "plan_entry \<Rightarrow> plan_entry \<Rightarrow> bool" where
  "same_place e e' \<longleftrightarrow> pe_tensor e = pe_tensor e' \<and> pe_cpu e = pe_cpu e' \<and> pe_sub e = pe_sub e' \<and> pe_size e = pe_size e'"

lemma group_entries_same:
  "list_all2 same_place (group_entries factor gi ci go co n skip grp) (group_entries factor gi' ci go co n skip grp)"
  by (auto simp: group_entries_pos list.rel_map list_all2_same same_place_def entry_at_def)

lemma plan_groups_same:
  assumes "plan_groups factor gi ci szs lgs grps go co plan = Inr (p, x)" "plan_groups factor gi' ci szs lgs grps go co plan' = Inr (p', x')"
    "list_all2 same_place plan plan'"
  shows "list_all2 same_place p p'"
  using assms
proof (induction factor gi ci szs lgs grps go co plan arbitrary: plan' rule: plan_groups.induct)
  case (2 factor gi ci sz szs logical logicals grp grps go co plan)
  show ?case
  proof (cases "sz = 0")
    case True then show ?thesis using 2 by (auto split: if_splits)
  next
    case False
    let ?n = "(sz + logical mod factor + factor - 1) div factor"
    have neg: "\<not> (sz < 0 \<or> logical < 0)" using "2.prems"(1) by (auto split: if_splits)
    have fit: "\<not> (int (length gi) < go + sz \<or> int (length ci) < co + ?n)" using "2.prems"(1) False neg by (auto simp: Let_def split: if_splits)
    let ?q = "plan @ group_entries factor gi ci go co sz (logical mod factor) grp"
    let ?q' = "plan' @ group_entries factor gi' ci go co sz (logical mod factor) grp"
    have q: "list_all2 same_place ?q ?q'" using "2.prems"(3) group_entries_same by (rule list_all2_appendI)
    have r: "plan_groups factor gi ci szs logicals grps (go + sz) (co + ?n) ?q = Inr (p, x)"
      using "2.prems"(1) False neg fit by (auto simp: Let_def split: if_splits)
    have r': "plan_groups factor gi' ci szs logicals grps (go + sz) (co + ?n) ?q' = Inr (p', x')"
      using "2.prems"(2) False neg by (auto simp: Let_def split: if_splits)
    show ?thesis by (rule "2.IH"(2) [OF neg False refl refl fit r r' q])
  qed
qed simp_all

lemma copy_plan_same:
  assumes "copy_plan gpu ci refs factor = Inr plan" "copy_plan gpu' ci refs factor = Inr plan'"
    "group_sizes gpu' = group_sizes gpu" "block_indices gpu' = block_indices gpu"
  shows "list_all2 same_place plan plan'"
proof -
  have "\<exists>x. plan_groups factor (gpu_block_ids g) ci (group_sizes g) (block_indices g) refs 0 0 [] = Inr (p, x)"
    if "copy_plan g ci refs factor = Inr p" for g p
    using that by (auto simp: copy_plan_def bind_result_def split: if_splits sum.splits)
  then show ?thesis using assms plan_groups_same by (metis list.rel_inject(1))
qed

lemma copy_plan_ok:
  assumes "copy_plan gpu ci (cw_refs cw) (cw_factor cw) = Inr plan" "refs_ok (cw_refs cw)"
  shows "plan_ok cw plan"
    and "distinct (gpu_block_ids gpu) \<Longrightarrow> distinct (map (\<lambda>e. (pe_tensor e, pe_device e)) plan)"
    and "distinct ci \<Longrightarrow> distinct (map (\<lambda>e. (pe_tensor e, pe_cpu e, pe_sub e)) plan)"
    and "e \<in> set plan \<Longrightarrow> pe_device e \<in> set (gpu_block_ids gpu) \<and> pe_cpu e \<in> set ci"
proof -
  obtain ps where ps: "plan = map (entry_at (gpu_block_ids gpu) ci) ps"
    "pos_ok (cw_factor cw) (cw_refs cw) 0 0 (int (length (gpu_block_ids gpu))) (int (length ci)) ps"
    using copy_plan_positions(2) [OF assms(1)] by blast
  have d: "\<forall>grp \<in> set (cw_refs cw). distinct (map tensor_idx grp)" using assms(2) by (simp add: refs_ok_def)
  show "distinct (gpu_block_ids gpu) \<Longrightarrow> distinct (map (\<lambda>e. (pe_tensor e, pe_device e)) plan)"
    "distinct ci \<Longrightarrow> distinct (map (\<lambda>e. (pe_tensor e, pe_cpu e, pe_sub e)) plan)"
    using entry_at_distinct [OF ps(2) d] unfolding ps(1) by simp_all
  have "\<forall>r \<in> set (concat (cw_refs cw)). 0 \<le> tensor_idx r" using assms(2) by (auto simp: refs_ok_def)
  then show "plan_ok cw plan"
    using ps(2) unfolding ps(1) plan_ok_def list_all_iff pos_ok_def by (auto simp: entry_at_def)
  show "e \<in> set plan \<Longrightarrow> pe_device e \<in> set (gpu_block_ids gpu) \<and> pe_cpu e \<in> set ci"
    using ps(2) unfolding ps(1) pos_ok_def by (auto simp: entry_at_def)
qed

text \<open>What a successful submission issues.\<close>

lemma submit_spans:
  assumes "submit now j gpu ci store cw = Inr (copies, cw')" "worker_ok cw" "refs_ok (cw_refs cw)"
  obtains plan where "copy_plan gpu ci (cw_refs cw) (cw_factor cw) = Inr plan" "list_all (in_range cw) plan"
    "copies = map (\<lambda>e. if store then (dev_slice e, cpu_slice cw e) else (cpu_slice cw e, dev_slice e)) plan"
proof -
  obtain plan sp where p: "copy_plan gpu ci (cw_refs cw) (cw_factor cw) = Inr plan" "spans_of cw plan = Inr sp"
    "copies = map (\<lambda>(device, cpu). if store then (device, cpu) else (cpu, device)) sp"
    using assms(1) by (auto simp: submit_def submit_with_def bind_result_def split: if_splits sum.splits)
  with spans_of_slices [OF assms(2) copy_plan_ok(1) [OF p(1) assms(3)] p(2)] show thesis
    by (intro that) (auto simp: comp_def)
qed

definition same_caches :: "copy_worker \<Rightarrow> copy_worker \<Rightarrow> bool" where
  "same_caches cw cw' \<longleftrightarrow> cw_refs cw' = cw_refs cw \<and> cw_factor cw' = cw_factor cw \<and>
     device_tensors cw' = device_tensors cw \<and> cpu_tensors cw' = cpu_tensors cw"

text \<open>The bytes of the block that an entry names.\<close>

definition device_block :: "string list list \<Rightarrow> plan_entry \<Rightarrow> string" where
  "device_block mem e = take (nat (pe_size e)) (mem ! nat (pe_tensor e) ! nat (pe_device e))"

lemma device_block_slice: "device_block mem e = read_slice mem (dev_slice e)"
  by (simp add: device_block_def read_slice_def dev_slice_def)

lemma executed_store:
  assumes "submit now j gpu ci True cw = Inr (copies, cw')" "worker_ok cw" "refs_ok (cw_refs cw)" "distinct ci"
    "mem_fits (device_mem m) (device_tensors cw)" "mem_fits (cpu_mem m) (cpu_tensors cw)"
    "copy_plan gpu ci (cw_refs cw) (cw_factor cw) = Inr plan"
  shows "e \<in> set plan \<Longrightarrow> read_slice (cpu_mem (fold store_copy copies m)) (cpu_slice cw e) = device_block (device_mem m) e"
    and "int r \<notin> set ci \<Longrightarrow> cpu_mem (fold store_copy copies m) ! t ! r = cpu_mem m ! t ! r"
    and "slice_fits (cpu_mem (fold store_copy copies m)) d \<longleftrightarrow> slice_fits (cpu_mem m) d"
    and "length (cpu_mem (fold store_copy copies m) ! t ! r) = length (cpu_mem m ! t ! r)"
    and "\<forall>e \<in> set plan. \<not> slice_covers (cpu_slice cw e) t r i \<Longrightarrow>
      cpu_mem (fold store_copy copies m) ! t ! r ! i = cpu_mem m ! t ! r ! i"
proof -
  have r: "list_all (in_range cw) plan" and c: "copies = map (\<lambda>e. (dev_slice e, cpu_slice cw e)) plan"
    using submit_spans [OF assms(1-3)] assms(7) by auto
  have ok: "list_all (span_ok (device_mem m) (cpu_mem m)) copies"
    using r slices_fit [OF assms(2)] assms(5,6) unfolding c by (auto simp: list_all_iff span_ok_def dev_slice_def cpu_slice_def)
  have ap: "sorted_wrt (\<lambda>x y. apart (snd x) (snd y)) copies"
    using cpu_slices_apart [OF r copy_plan_ok(3) [OF assms(7,3,4)]] unfolding c by (simp add: sorted_wrt_map)
  show "e \<in> set plan \<Longrightarrow> read_slice (cpu_mem (fold store_copy copies m)) (cpu_slice cw e) = device_block (device_mem m) e"
    using copy_all_copies [OF ok ap] unfolding c store_copies device_block_slice by force
  show "cpu_mem (fold store_copy copies m) ! t ! r = cpu_mem m ! t ! r" if "int r \<notin> set ci"
  proof -
    have "rs_row (cpu_slice cw e) \<noteq> r" if "e \<in> set plan" for e
      using copy_plan_ok(4) [OF assms(7,3) that] r \<open>int r \<notin> set ci\<close> that by (auto simp: cpu_slice_def list_all_iff in_range_def Let_def)
    then show ?thesis unfolding store_copies by (simp add: copy_all_row c)
  qed
  show "slice_fits (cpu_mem (fold store_copy copies m)) d \<longleftrightarrow> slice_fits (cpu_mem m) d"
    using copy_all_fits [OF ok] by (simp add: store_copies)
  show "length (cpu_mem (fold store_copy copies m) ! t ! r) = length (cpu_mem m ! t ! r)"
    using copy_all_byte(1) [OF ok] by (simp add: store_copies)
  show "\<forall>e \<in> set plan. \<not> slice_covers (cpu_slice cw e) t r i \<Longrightarrow>
      cpu_mem (fold store_copy copies m) ! t ! r ! i = cpu_mem m ! t ! r ! i"
    using copy_all_byte(2) [OF ok, of t r i] by (simp add: store_copies c)
qed

lemma executed_load:
  assumes "submit now j gpu ci False cw = Inr (copies, cw')" "worker_ok cw" "refs_ok (cw_refs cw)" "distinct (gpu_block_ids gpu)"
    "mem_fits (device_mem m) (device_tensors cw)" "\<forall>e. in_range cw e \<longrightarrow> slice_fits (cpu_mem m) (cpu_slice cw e)"
    "copy_plan gpu ci (cw_refs cw) (cw_factor cw) = Inr plan"
  shows "e \<in> set plan \<Longrightarrow> device_block (device_mem (fold load_copy copies m)) e = read_slice (cpu_mem m) (cpu_slice cw e)"
    and "int r \<notin> set (gpu_block_ids gpu) \<Longrightarrow> device_mem (fold load_copy copies m) ! t ! r = device_mem m ! t ! r"
    and "length (device_mem (fold load_copy copies m) ! t ! r) = length (device_mem m ! t ! r)"
    and "\<forall>e \<in> set plan. \<not> slice_covers (dev_slice e) t r i \<Longrightarrow>
      device_mem (fold load_copy copies m) ! t ! r ! i = device_mem m ! t ! r ! i"
proof -
  have r: "list_all (in_range cw) plan" and c: "copies = map (\<lambda>e. (cpu_slice cw e, dev_slice e)) plan"
    using submit_spans [OF assms(1-3)] assms(7) by auto
  have ok: "list_all (span_ok (cpu_mem m) (device_mem m)) copies"
    using r slices_fit(1) [OF assms(2)] assms(5,6) unfolding c by (auto simp: list_all_iff span_ok_def dev_slice_def cpu_slice_def)
  have ap: "sorted_wrt (\<lambda>x y. apart (snd x) (snd y)) copies"
    using dev_slices_apart [OF r copy_plan_ok(2) [OF assms(7,3,4)]] unfolding c by (simp add: sorted_wrt_map)
  show "e \<in> set plan \<Longrightarrow> device_block (device_mem (fold load_copy copies m)) e = read_slice (cpu_mem m) (cpu_slice cw e)"
    using copy_all_copies [OF ok ap] unfolding c load_copies device_block_slice by force
  show "device_mem (fold load_copy copies m) ! t ! r = device_mem m ! t ! r" if "int r \<notin> set (gpu_block_ids gpu)"
  proof -
    have "rs_row (dev_slice e) \<noteq> r" if "e \<in> set plan" for e
      using copy_plan_ok(4) [OF assms(7,3) that] r \<open>int r \<notin> set (gpu_block_ids gpu)\<close> that by (auto simp: dev_slice_def list_all_iff in_range_def Let_def)
    then show ?thesis unfolding load_copies by (simp add: copy_all_row c)
  qed
  show "length (device_mem (fold load_copy copies m) ! t ! r) = length (device_mem m ! t ! r)"
    using copy_all_byte(1) [OF ok] by (simp add: load_copies)
  show "\<forall>e \<in> set plan. \<not> slice_covers (dev_slice e) t r i \<Longrightarrow>
      device_mem (fold load_copy copies m) ! t ! r ! i = device_mem m ! t ! r ! i"
    using copy_all_byte(2) [OF ok, of t r i] by (simp add: load_copies c)
qed

lemma transfer_roundtrip_parts:
  assumes wk: "worker_ok cw" "refs_ok (cw_refs cw)" and same: "same_caches cw cw2"
    "group_sizes gpu' = group_sizes gpu" "block_indices gpu' = block_indices gpu"
    and store: "submit_store now j gpu ci cw = Inr (copies, cw1)" "distinct ci"
    and load: "submit_load now' j' ci gpu' cw2 = Inr (loads, cw3)" "distinct (gpu_block_ids gpu')"
    and mem: "mem_fits (device_mem m) (device_tensors cw)" "mem_fits (cpu_mem m) (cpu_tensors cw)" "mem_fits dev (device_tensors cw)"
    and run: "m1 = fold store_copy copies m" "m2 = fold load_copy loads (m1\<lparr>device_mem := dev\<rparr>)"
  shows "\<exists>plan plan'. copy_plan gpu ci (cw_refs cw) (cw_factor cw) = Inr plan \<and> copy_plan gpu' ci (cw_refs cw) (cw_factor cw) = Inr plan' \<and>
           list_all2 (\<lambda>e e'. same_place e e' \<and> device_block (device_mem m2) e' = device_block (device_mem m) e) plan plan' \<and>
           (\<forall>t r i. (\<forall>e \<in> set plan. \<not> slice_covers (cpu_slice cw e) t r i) \<longrightarrow> cpu_mem m1 ! t ! r ! i = cpu_mem m ! t ! r ! i) \<and>
           (\<forall>t r i. (\<forall>e \<in> set plan'. \<not> slice_covers (dev_slice e) t r i) \<longrightarrow> device_mem m2 ! t ! r ! i = dev ! t ! r ! i)"
    and "length (cpu_mem m1 ! t ! r) = length (cpu_mem m ! t ! r)"
    and "length (device_mem m2 ! t ! r) = length (dev ! t ! r)"
    and "device_mem m1 = device_mem m \<and> cpu_mem m2 = cpu_mem m1"
    and "int r \<notin> set ci \<Longrightarrow> cpu_mem m1 ! t ! r = cpu_mem m ! t ! r"
    and "int r \<notin> set (gpu_block_ids gpu') \<Longrightarrow> device_mem m2 ! t ! r = dev ! t ! r"
proof -
  have sc: "cw_refs cw2 = cw_refs cw" "cw_factor cw2 = cw_factor cw" "device_tensors cw2 = device_tensors cw" "cpu_tensors cw2 = cpu_tensors cw"
    using same(1) by (simp_all add: same_caches_def)
  have wk2: "worker_ok cw2" "refs_ok (cw_refs cw2)" using wk by (simp_all add: worker_ok_def sc)
  note st = store(1) [unfolded submit_store_def] and ld = load(1) [unfolded submit_load_def]
  obtain plan where p: "copy_plan gpu ci (cw_refs cw) (cw_factor cw) = Inr plan" by (rule submit_spans [OF st wk])
  obtain plan' where p': "copy_plan gpu' ci (cw_refs cw2) (cw_factor cw2) = Inr plan'" by (rule submit_spans [OF ld wk2])
  note s = executed_store [OF st wk store(2) mem(1,2) p, folded run(1)]
  have slice: "cpu_slice cw2 e = cpu_slice cw e" "in_range cw2 e = in_range cw e" for e by (simp_all add: cpu_slice_def in_range_def sc)
  have fits: "\<forall>e. in_range cw2 e \<longrightarrow> slice_fits (cpu_mem (m1\<lparr>device_mem := dev\<rparr>)) (cpu_slice cw2 e)"
    using s(3) slices_fit(2) [OF wk(1) _ mem(2)] by (simp add: slice)
  have "mem_fits (device_mem (m1\<lparr>device_mem := dev\<rparr>)) (device_tensors cw2)" using mem(3) by (simp add: sc)
  note l = executed_load [OF ld wk2 load(2) this fits p', folded run(2)]
  have pp: "list_all2 same_place plan plan'" using copy_plan_same [OF p _ same(2,3)] p' by (simp add: sc)
  have "device_block (device_mem m2) e' = device_block (device_mem m) e" if "same_place e e'" "e \<in> set plan" "e' \<in> set plan'" for e e'
  proof -
    have "cpu_slice cw e' = cpu_slice cw e" using that(1) by (simp add: same_place_def cpu_slice_def)
    then show ?thesis using l(1) [OF that(3)] s(1) [OF that(2)] by (simp add: slice)
  qed
  then have "list_all2 (\<lambda>e e'. same_place e e' \<and> device_block (device_mem m2) e' = device_block (device_mem m) e) plan plan'"
    using pp by (auto simp: list_all2_conv_all_nth)
  moreover have "\<forall>t r i. (\<forall>e \<in> set plan. \<not> slice_covers (cpu_slice cw e) t r i) \<longrightarrow> cpu_mem m1 ! t ! r ! i = cpu_mem m ! t ! r ! i"
    using s(5) by blast
  moreover have "\<forall>t r i. (\<forall>e \<in> set plan'. \<not> slice_covers (dev_slice e) t r i) \<longrightarrow> device_mem m2 ! t ! r ! i = dev ! t ! r ! i"
    using l(4) by simp
  ultimately show "\<exists>plan plan'. copy_plan gpu ci (cw_refs cw) (cw_factor cw) = Inr plan \<and> copy_plan gpu' ci (cw_refs cw) (cw_factor cw) = Inr plan' \<and>
           list_all2 (\<lambda>e e'. same_place e e' \<and> device_block (device_mem m2) e' = device_block (device_mem m) e) plan plan' \<and>
           (\<forall>t r i. (\<forall>e \<in> set plan. \<not> slice_covers (cpu_slice cw e) t r i) \<longrightarrow> cpu_mem m1 ! t ! r ! i = cpu_mem m ! t ! r ! i) \<and>
           (\<forall>t r i. (\<forall>e \<in> set plan'. \<not> slice_covers (dev_slice e) t r i) \<longrightarrow> device_mem m2 ! t ! r ! i = dev ! t ! r ! i)"
    using p p' unfolding sc by blast
  show "length (cpu_mem m1 ! t ! r) = length (cpu_mem m ! t ! r)" by (rule s(4))
  show "length (device_mem m2 ! t ! r) = length (dev ! t ! r)" using l(3) by simp
  show "device_mem m1 = device_mem m \<and> cpu_mem m2 = cpu_mem m1" by (simp add: run store_copies load_copies)
  show "int r \<notin> set ci \<Longrightarrow> cpu_mem m1 ! t ! r = cpu_mem m ! t ! r" by (rule s(2))
  show "int r \<notin> set (gpu_block_ids gpu') \<Longrightarrow> device_mem m2 ! t ! r = dev ! t ! r" using l(2) by simp
qed

text \<open>C10: What a store job copied to CPU blocks, a later load job brings back byte for byte, into
the same or into other device blocks (whatever the device memory holds by then): each block of
the load's plan equals, after the copies ran, the block at its place in the store's plan when
the store ran. Nothing else changes: a store writes no device memory, and of the CPU memory no
byte outside the slices that its plan names (one sub-block of a row, without padding); a load
writes no CPU memory, and of a device row that its plan names only the first \<open>size\<close> bytes. So
rows of other blocks, other sub-blocks of a CPU row and all padding stay as they are, and rows
keep their length.\<close>

theorem transfer_roundtrip:
  assumes wk: "worker_ok cw" "refs_ok (cw_refs cw)" and same: "same_caches cw cw2"
    "group_sizes gpu' = group_sizes gpu" "block_indices gpu' = block_indices gpu"
    and store: "submit_store now j gpu ci cw = Inr (copies, cw1)" "distinct ci"
    and load: "submit_load now' j' ci gpu' cw2 = Inr (loads, cw3)" "distinct (gpu_block_ids gpu')"
    and mem: "mem_fits (device_mem m) (device_tensors cw)" "mem_fits (cpu_mem m) (cpu_tensors cw)" "mem_fits dev (device_tensors cw)"
    and run: "m1 = fold store_copy copies m" "m2 = fold load_copy loads (m1\<lparr>device_mem := dev\<rparr>)"
  shows "(\<exists>plan plan'. copy_plan gpu ci (cw_refs cw) (cw_factor cw) = Inr plan \<and> copy_plan gpu' ci (cw_refs cw) (cw_factor cw) = Inr plan' \<and>
           list_all2 (\<lambda>e e'. same_place e e' \<and> device_block (device_mem m2) e' = device_block (device_mem m) e) plan plan' \<and>
           (\<forall>t r i. (\<forall>e \<in> set plan. \<not> slice_covers (cpu_slice cw e) t r i) \<longrightarrow> cpu_mem m1 ! t ! r ! i = cpu_mem m ! t ! r ! i) \<and>
           (\<forall>t r i. (\<forall>e \<in> set plan'. \<not> slice_covers (dev_slice e) t r i) \<longrightarrow> device_mem m2 ! t ! r ! i = dev ! t ! r ! i)) \<and>
    (\<forall>t r. length (cpu_mem m1 ! t ! r) = length (cpu_mem m ! t ! r) \<and> length (device_mem m2 ! t ! r) = length (dev ! t ! r)) \<and>
    device_mem m1 = device_mem m \<and> cpu_mem m2 = cpu_mem m1 \<and>
    (\<forall>t r. int r \<notin> set ci \<longrightarrow> cpu_mem m1 ! t ! r = cpu_mem m ! t ! r) \<and>
    (\<forall>t r. int r \<notin> set (gpu_block_ids gpu') \<longrightarrow> device_mem m2 ! t ! r = dev ! t ! r)"
  using transfer_roundtrip_parts [OF assms] by blast

text \<open>A transfer of \<open>small_worker\<close>, loaded back into other device blocks.\<close>

definition round_gpu :: gpu_spec where
  "round_gpu = plan_gpu\<lparr>gpu_block_ids := [1, 4, 6, 2, 7]\<rparr>"

definition round_store :: "span list \<times> copy_worker" where
  "round_store = (case submit_store 0 1 plan_gpu [4, 9, 6] small_worker of Inr p \<Rightarrow> p | Inl _ \<Rightarrow> ([], small_worker))"

definition round_load :: "span list \<times> copy_worker" where
  "round_load = (case submit_load 1 2 [4, 9, 6] round_gpu (snd round_store) of Inr p \<Rightarrow> p | Inl _ \<Rightarrow> ([], small_worker))"

definition round_mem :: copy_memory where
  "round_mem = \<lparr>device_mem = [map (\<lambda>i. [char_of (65 + i), char_of (97 + i)]) [0..<8], replicate 8 ''xyz''],
     cpu_mem = [replicate 10 ''....'', replicate 10 ''......'']\<rparr>"

definition round_dev :: "string list list" where
  "round_dev = [replicate 8 ''--'', replicate 8 ''---'']"

theorem transfer_roundtrip_witness:
  "let m1 = fold store_copy (fst round_store) round_mem;
       m2 = fold load_copy (fst round_load) (m1\<lparr>device_mem := round_dev\<rparr>)
   in length (fst round_load) = 8 \<and> device_mem m2 ! 0 ! 0 = ''--'' \<and> device_mem m2 ! 0 ! 1 = device_mem round_mem ! 0 ! 7 \<and>
      (\<exists>plan'. list_all2 (\<lambda>e e'. device_block (device_mem m2) e' = device_block (device_mem round_mem) e) plan_witness plan')"
proof -
  define m1 where "m1 = fold store_copy (fst round_store) round_mem"
  define m2 where "m2 = fold load_copy (fst round_load) (m1\<lparr>device_mem := round_dev\<rparr>)"
  have store: "submit_store 0 1 plan_gpu [4, 9, 6] small_worker = Inr (fst round_store, snd round_store)" by code_simp
  have load: "submit_load 1 2 [4, 9, 6] round_gpu (snd round_store) = Inr (fst round_load, snd round_load)" by code_simp
  have wk: "worker_ok small_worker" by (rule make_copy_worker_ok [OF small_worker_ok]) simp
  have refs: "refs_ok (cw_refs small_worker)" by code_simp
  have same: "same_caches small_worker (snd round_store)" "group_sizes round_gpu = group_sizes plan_gpu" "block_indices round_gpu = block_indices plan_gpu"
    by code_simp+
  have dist: "distinct [4, 9, 6 :: int]" "distinct (gpu_block_ids round_gpu)" by code_simp+
  have mem: "mem_fits (device_mem round_mem) (device_tensors small_worker)" "mem_fits (cpu_mem round_mem) (cpu_tensors small_worker)"
    "mem_fits round_dev (device_tensors small_worker)" by code_simp+
  note t = transfer_roundtrip [OF wk refs same store dist(1) load dist(2) mem m1_def m2_def]
  have "copy_plan plan_gpu [4, 9, 6] (cw_refs small_worker) (cw_factor small_worker) = Inr plan_witness" by code_simp
  with t have "\<exists>plan'. list_all2 (\<lambda>e e'. device_block (device_mem m2) e' = device_block (device_mem round_mem) e) plan_witness plan'"
    by (auto elim!: list_all2_mono)
  moreover have "length (fst round_load) = 8" by code_simp
  moreover have "device_mem m2 ! 0 ! 0 = round_dev ! 0 ! 0" using t by (simp add: round_gpu_def)
  moreover have "round_dev ! 0 ! 0 = ''--''" by code_simp
  moreover have "device_mem m2 ! 0 ! 1 = device_mem round_mem ! 0 ! 7" unfolding m2_def m1_def by code_simp
  ultimately show ?thesis unfolding Let_def m1_def m2_def by simp
qed

end
