(* ===== verification/Ascend_Layout.thy ===== *)
theory Ascend_Layout
  imports Ascend_Transfer
begin

text \<open>
  \<open>ascend_layout.py\<close> and \<open>AscendLayoutWorker\<close> of \<open>ascend_worker.py\<close>: layers whose cache is
  several tensors (separate key and value, or recurrent state), packed one after the other
  into the page of their allocation. \<open>tensor.view(int8).view(count, -1)\<close> is torch's: it is
  the argument \<open>byte_rows\<close>, which gives the row view of a tensor or raises. Layers are
  appended in the order of the groups, and a layer is known by its position.
\<close>

section \<open>Building a layout\<close>

record row_view =
  rv_rows :: int
  rv_cols :: int
  rv_stride0 :: int
  rv_stride1 :: int
  rv_device :: "string \<times> int"

record cache_allocation =
  block_stride :: int
  alloc_size :: int
  shared_by :: "string list"

text \<open>The specifications that a layer can have, with their \<open>page_size_bytes\<close>.\<close>

datatype layer_spec = Attention_Spec int | Mamba_Spec int | Other_Spec
datatype group_cache_spec = One_Spec layer_spec | Uniform_Specs "(string \<times> layer_spec) list"

record cache_group =
  layer_names :: "string list"
  kv_cache_spec :: group_cache_spec

text \<open>What \<open>caches[name]\<close> can be.\<close>

datatype 't layer_cache = One_Tensor 't | Tensor_Seq "'t list" | Other_Value

type_synonym cache_layer = "nat \<times> row_view list"

record ascend_layout =
  page_sizes :: "int list"
  layout_layers :: "cache_layer list"
  group_data_refs :: "cache_ref list list"

fun place_layers :: "nat \<Rightarrow> string list \<Rightarrow> (string \<times> nat) list \<Rightarrow> (string \<times> nat) list result" where
  "place_layers index [] by_layer = Inr by_layer"
| "place_layers index (name # names) by_layer =
     (if map_of by_layer name \<noteq> None then Inl (ValueError ''layer belongs to multiple allocations'')
      else place_layers index names (AList.update name index by_layer))"

fun place_allocations :: "int \<Rightarrow> cache_allocation list \<Rightarrow> int list \<Rightarrow> (string \<times> nat) list \<Rightarrow> (int list \<times> (string \<times> nat) list) result" where
  "place_allocations n [] pages by_layer = Inr (pages, by_layer)"
| "place_allocations n (a # as) pages by_layer =
     (if block_stride a \<noteq> 0 \<or> alloc_size a mod n \<noteq> 0 then Inl (ValueError ''packed or uneven Ascend allocation is unsupported'')
      else bind_result (place_layers (length pages) (shared_by a) by_layer) (\<lambda>by_layer.
             place_allocations n as (pages @ [alloc_size a div n]) by_layer))"

definition spec_page_size :: "string \<Rightarrow> group_cache_spec \<Rightarrow> int result" where
  "spec_page_size name spec =
     bind_result
       (case spec of
          One_Spec s \<Rightarrow> Inr s
        | Uniform_Specs d \<Rightarrow> (case map_of d name of None \<Rightarrow> Inl KeyError | Some s \<Rightarrow> Inr s))
       (\<lambda>s. case s of Attention_Spec p \<Rightarrow> Inr p | Mamba_Spec p \<Rightarrow> Inr p
          | Other_Spec \<Rightarrow> Inl (ValueError ''unsupported Ascend cache spec''))"

definition checked_row :: "(int \<Rightarrow> 't \<Rightarrow> row_view result) \<Rightarrow> int \<Rightarrow> 't \<Rightarrow> row_view result" where
  "checked_row byte_rows n t =
     bind_result (byte_rows n t) (\<lambda>row.
       if rv_stride1 row \<noteq> 1 \<or> rv_stride0 row < rv_cols row
       then Inl (ValueError ''overlapping or non-contiguous byte rows'') else Inr row)"

definition layer_tensors :: "'t layer_cache \<Rightarrow> 't list result" where
  "layer_tensors c = (case c of
     One_Tensor t \<Rightarrow> Inr [t]
   | Tensor_Seq ts \<Rightarrow> if ts = [] then Inl (ValueError ''missing layer cache tensors'') else Inr ts
   | Other_Value \<Rightarrow> Inl (ValueError ''missing layer cache tensors''))"

text \<open>The loop over the layers of one group; \<open>used\<close> are the allocations of its layers so far.\<close>

fun add_layers :: "(int \<Rightarrow> 't \<Rightarrow> row_view result) \<Rightarrow> int \<Rightarrow> int list \<Rightarrow> (string \<times> nat) list \<Rightarrow> (string \<times> 't layer_cache) list \<Rightarrow>
    group_cache_spec \<Rightarrow> string list \<Rightarrow> nat list \<Rightarrow> cache_layer list \<Rightarrow> cache_ref list \<Rightarrow> (cache_layer list \<times> cache_ref list) result" where
  "add_layers byte_rows n pages by_layer caches spec [] used layers refs = Inr (layers, refs)"
| "add_layers byte_rows n pages by_layer caches spec (name # names) used layers refs =
     bind_result (spec_page_size name spec) (\<lambda>spec_page.
     (case map_of by_layer name of
        None \<Rightarrow> Inl KeyError
      | Some index \<Rightarrow>
          if index \<in> set used then Inl (ValueError ''multiple layers in one group share an allocation'')
          else (case map_of caches name of
              None \<Rightarrow> Inl KeyError
            | Some cache \<Rightarrow>
                bind_result (layer_tensors cache) (\<lambda>tensors.
                bind_result (map_result (checked_row byte_rows n) tensors) (\<lambda>rows.
                  let sz = sum_list (map rv_cols rows)
                  in if sz \<le> 0 \<or> pages ! index < sz \<or> spec_page < sz
                     then Inl (ValueError ''logical cache exceeds its allocation page'')
                     else add_layers byte_rows n pages by_layer caches spec names (used @ [index]) (layers @ [(index, rows)])
                            (refs @ [\<lparr>tensor_idx = int (length layers), page_size_bytes = sz\<rparr>]))))))"

fun add_groups :: "(int \<Rightarrow> 't \<Rightarrow> row_view result) \<Rightarrow> int \<Rightarrow> int list \<Rightarrow> (string \<times> nat) list \<Rightarrow> (string \<times> 't layer_cache) list \<Rightarrow>
    cache_group list \<Rightarrow> cache_layer list \<Rightarrow> cache_ref list list \<Rightarrow> (cache_layer list \<times> cache_ref list list) result" where
  "add_groups byte_rows n pages by_layer caches [] layers groups = Inr (layers, groups)"
| "add_groups byte_rows n pages by_layer caches (g # gs) layers groups =
     bind_result (add_layers byte_rows n pages by_layer caches (kv_cache_spec g) (layer_names g) [] layers []) (\<lambda>(layers, refs).
       add_groups byte_rows n pages by_layer caches gs layers (groups @ [refs]))"

definition build_layout :: "(int \<Rightarrow> 't \<Rightarrow> row_view result) \<Rightarrow> int \<Rightarrow> cache_allocation list \<Rightarrow> cache_group list \<Rightarrow>
    (string \<times> 't layer_cache) list \<Rightarrow> ascend_layout result" where
  "build_layout byte_rows n allocations cache_groups caches =
     (if n \<le> 0 then Inl (ValueError ''cache must contain blocks'')
      else bind_result (place_allocations n allocations [] []) (\<lambda>(pages, by_layer).
           bind_result (add_groups byte_rows n pages by_layer caches cache_groups [] []) (\<lambda>(layers, groups).
             Inr \<lparr>page_sizes = pages, layout_layers = layers, group_data_refs = groups\<rparr>)))"

section \<open>The layout worker\<close>

definition make_layout_worker :: "(int \<Rightarrow> tensor_shape) \<Rightarrow> ascend_layout \<Rightarrow> int \<Rightarrow> copy_worker result" where
  "make_layout_worker next_view layout factor =
     (let rows = concat (map snd (layout_layers layout))
      in if rows = [] \<or> (\<exists>row \<in> set rows. fst (rv_device row) \<noteq> ''npu'')
         then Inl (ValueError ''AscendLayoutWorker requires NPU cache views'')
         else if \<exists>row \<in> set rows. rv_device row \<noteq> rv_device (hd rows)
         then Inl (ValueError ''cache views span multiple devices'')
         else Inr \<lparr>cw_refs = group_data_refs layout, cw_factor = factor,
           device_tensors = map (\<lambda>row. \<lparr>dim_rows = rv_rows row, dim_cols = rv_cols row\<rparr>) rows,
           cpu_tensors = map (\<lambda>page. next_view (page * factor)) (page_sizes layout),
           completed_results = [], pending = {}, inflight = []\<rparr>)"

text \<open>The number, among all row views, of the first view of a layer.\<close>

definition first_row :: "cache_layer list \<Rightarrow> nat \<Rightarrow> nat" where
  "first_row layers layer = length (concat (map snd (take layer layers)))"

text \<open>The loop over the rows of a layer: whole device rows, packed from \<open>offset\<close> on.\<close>

fun row_spans :: "nat \<Rightarrow> int \<Rightarrow> int \<Rightarrow> nat \<Rightarrow> tensor_shape \<Rightarrow> row_view list \<Rightarrow> int \<Rightarrow> span list result" where
  "row_spans t block cpu_block u cpu [] offset = Inr []"
| "row_spans t block cpu_block u cpu (row # rows) offset =
     (if \<not> (0 \<le> block \<and> block < rv_rows row) then Inl (ValueError ''device block outside allocated cache'')
      else bind_result (row_spans (Suc t) block cpu_block u cpu rows (offset + rv_cols row)) (\<lambda>sp.
        Inr ((slice_of t block 0 (rv_cols row) (rv_cols row),
              slice_of u cpu_block offset (rv_cols row) (dim_cols cpu)) # sp)))"

definition layout_entry :: "ascend_layout \<Rightarrow> copy_worker \<Rightarrow> plan_entry \<Rightarrow> span list result" where
  "layout_entry layout cw e =
     bind_result (py_nth (layout_layers layout) (pe_tensor e)) (\<lambda>(layer, allocation, rows).
     bind_result (py_nth (cpu_tensors cw) (int allocation)) (\<lambda>(u, cpu).
       if \<not> (0 \<le> pe_cpu e \<and> pe_cpu e < dim_rows cpu) then Inl (ValueError ''CPU block outside allocated cache'')
       else if pe_size e \<noteq> sum_list (map rv_cols rows) then Inl (ValueError ''logical cache page size changed'')
       else row_spans (first_row (layout_layers layout) layer) (pe_device e) (pe_cpu e) u cpu rows
              (pe_sub e * (page_sizes layout ! allocation))))"

definition layout_spans :: "ascend_layout \<Rightarrow> copy_worker \<Rightarrow> plan_entry list \<Rightarrow> span list result" where
  "layout_spans layout cw plan = bind_result (map_result (layout_entry layout cw) plan) (\<lambda>sps. Inr (concat sps))"

definition layout_shutdown :: "ascend_layout \<Rightarrow> copy_worker \<Rightarrow> ascend_layout \<times> copy_worker" where
  "layout_shutdown layout cw = (layout\<lparr>layout_layers := []\<rparr>, worker_shutdown cw)"

end
