(* ===== verification/Ascend_Diagnostics.thy ===== *)
theory Ascend_Diagnostics
  imports Ascend_Layout Ascend_Worker_Props
begin

text \<open>
  The diagnostics of \<open>ascend_worker.py\<close> that an environment variable turns on: a job that has
  completed samples one entry of its plan for the first layer of each group. \<open>_finalize\<close> runs
  them before it builds the result, so an exception there would lose the result in
  \<open>get_finished\<close>, and report a completed job as failed in \<open>wait\<close>; they do not raise.
\<close>

section \<open>What is sampled\<close>

definition first_layers :: "cache_ref list list \<Rightarrow> int set" where
  "first_layers refs = (tensor_idx \<circ> hd) ` {grp \<in> set refs. grp \<noteq> []}"

fun sampled_entries :: "int set \<Rightarrow> int set \<Rightarrow> plan_entry list \<Rightarrow> plan_entry list" where
  "sampled_entries firsts seen [] = []"
| "sampled_entries firsts seen (e # plan) =
     (if pe_tensor e \<notin> firsts \<or> pe_tensor e \<in> seen then sampled_entries firsts seen plan
      else e # sampled_entries firsts (insert (pe_tensor e) seen) plan)"

text \<open>A log line: the layer, the device and CPU block, and for each span its digest and the number
  of its nonzero bytes. \<open>digest\<close> is SHA-256.\<close>

record copy_line =
  cl_job :: int
  cl_layer :: int
  cl_device :: int
  cl_cpu :: int
  cl_digests :: "string list"
  cl_nonzero :: "nat list"

definition diagnose :: "(copy_worker \<Rightarrow> plan_entry list \<Rightarrow> span list result) \<Rightarrow> (string \<Rightarrow> string) \<Rightarrow> string list list \<Rightarrow>
    int \<Rightarrow> plan_entry list \<Rightarrow> copy_worker \<Rightarrow> copy_line list result" where
  "diagnose spans digest cpu job_id plan cw =
     map_result (\<lambda>e. bind_result (spans cw [e]) (\<lambda>sampled.
        let views = map (\<lambda>(_, c). read_slice cpu c) sampled
        in Inr \<lparr>cl_job = job_id, cl_layer = pe_tensor e, cl_device = pe_device e, cl_cpu = pe_cpu e,
                cl_digests = map digest views, cl_nonzero = map (\<lambda>v. length (filter (\<lambda>c. c \<noteq> CHR 0x00) v)) views\<rparr>))
       (sampled_entries (first_layers (cw_refs cw)) {} plan)"

text \<open>\<open>_finalize\<close> as it is, with the diagnostics.\<close>

definition finalize_diagnosed :: "bool \<Rightarrow> (copy_worker \<Rightarrow> plan_entry list \<Rightarrow> span list result) \<Rightarrow> (string \<Rightarrow> string) \<Rightarrow> string list list \<Rightarrow>
    rat \<Rightarrow> int \<Rightarrow> bool \<Rightarrow> rat \<Rightarrow> int \<Rightarrow> plan_entry list \<Rightarrow> copy_worker \<Rightarrow> (transfer_result \<times> copy_worker) result" where
  "finalize_diagnosed diagnostics spans digest cpu now job_id success start sz plan cw =
     (let cw' = cw\<lparr>pending := pending cw - {job_id}\<rparr>
      in bind_result (if diagnostics \<and> success then diagnose spans digest cpu job_id plan cw' else Inr [])
           (\<lambda>_. Inr (\<lparr>tr_job_id = job_id, tr_success = success, tr_size = sz, tr_time = now - start\<rparr>, cw')))"

lemma sampled_entries_layers:
  "set (sampled_entries firsts seen plan) \<subseteq> set plan \<and> distinct (map pe_tensor (sampled_entries firsts seen plan)) \<and>
   pe_tensor ` set (sampled_entries firsts seen plan) = firsts \<inter> pe_tensor ` set plan - seen"
  by (induction plan arbitrary: seen) auto

lemma map_result_defined:
  "(\<And>x. x \<in> set xs \<Longrightarrow> \<exists>y. f x = Inr y \<and> g y = h x) \<Longrightarrow> \<exists>ys. map_result f xs = Inr ys \<and> map g ys = map h xs"
proof (induction xs)
  case (Cons x xs)
  from Cons.prems obtain y where "f x = Inr y" "g y = h x" by force
  moreover from Cons.IH Cons.prems obtain ys where "map_result f xs = Inr ys" "map g ys = map h xs" by force
  ultimately show ?case by (simp add: bind_result_def)
qed simp

section \<open>Resolving one entry of a plan\<close>

text \<open>Polling and waiting only take jobs away; the plans of the others stay resolvable.\<close>

definition resolved :: "(copy_worker \<Rightarrow> plan_entry list \<Rightarrow> span list result) \<Rightarrow> copy_worker \<Rightarrow> bool" where
  "resolved spans cw \<longleftrightarrow> (\<forall>(j, start, sz, plan) \<in> set (inflight cw). \<exists>sp. spans cw plan = Inr sp)"

definition fewer_jobs :: "copy_worker \<Rightarrow> copy_worker \<Rightarrow> bool" where
  "fewer_jobs cw cw' \<longleftrightarrow> device_tensors cw' = device_tensors cw \<and> cpu_tensors cw' = cpu_tensors cw \<and>
     set (inflight cw') \<subseteq> set (inflight cw)"

lemma fewer_jobs_fold:
  assumes "\<And>x s. fewer_jobs (g s) (g (f x s))"
  shows "fewer_jobs (g s) (g (fold f xs s))"
proof (induction xs arbitrary: s)
  case (Cons x xs)
  from assms [of s x] Cons.IH [of "f x s"] show ?case by (auto simp: fewer_jobs_def)
qed (simp add: fewer_jobs_def)

lemma set_delete_subset: "set (AList.delete k d) \<subseteq> set d"
  by (auto simp: AList.delete_eq)

lemma poll_fewer: "fewer_jobs cw (snd (worker_get_finished now query cw))"
proof -
  have "fewer_jobs (snd s) (snd (poll_job now query j s))" for j s
    using set_delete_subset [of j "inflight (snd s)"]
    by (cases s) (auto simp: poll_job_def finalize_def fewer_jobs_def Let_def split: option.splits)
  from fewer_jobs_fold [of snd, OF this, of "([], cw)"] show ?thesis
    by (simp add: worker_get_finished_def case_prod_beta fewer_jobs_def)
qed

lemma wait_fewer: "fewer_jobs cw (worker_wait now sync ids cw)"
proof -
  have "fewer_jobs cw (wait_job now sync j cw)" for j cw
    using set_delete_subset [of j "inflight cw"]
    by (auto simp: wait_job_def finalize_def fewer_jobs_def Let_def split: option.splits)
  from fewer_jobs_fold [of "\<lambda>x. x", OF this] show ?thesis by (simp add: worker_wait_def)
qed

text \<open>Both kinds of workers resolve a plan entry by entry, from their tensors only.\<close>

locale span_resolver =
  fixes spans :: "copy_worker \<Rightarrow> plan_entry list \<Rightarrow> span list result"
  assumes tensors_only: "device_tensors cw' = device_tensors cw \<Longrightarrow> cpu_tensors cw' = cpu_tensors cw \<Longrightarrow> spans cw' plan = spans cw plan"
    and single_entry: "spans cw plan = Inr sp \<Longrightarrow> e \<in> set plan \<Longrightarrow> \<exists>sp1. spans cw [e] = Inr sp1"
begin

lemma fewer_resolved: "resolved spans cw \<Longrightarrow> fewer_jobs cw cw' \<Longrightarrow> resolved spans cw'"
  using tensors_only [of cw' cw] unfolding resolved_def fewer_jobs_def by auto

lemma submit_resolved:
  assumes "resolved spans cw" "submit_with spans now j gpu cpu_ids store cw = Inr (copies, cw')"
  shows "resolved spans cw'"
proof -
  obtain plan sp start sz where p: "spans cw plan = Inr sp"
    "cw' = cw\<lparr>inflight := AList.update j (start, sz, plan) (inflight cw), pending := insert j (pending cw)\<rparr>"
    using assms(2) by (auto simp: submit_with_def bind_result_def split: if_splits sum.splits)
  have "set (AList.update j v d) \<subseteq> insert (j, v) (set d)" for v and d :: "(int \<times> rat \<times> int \<times> plan_entry list) list"
    by (induction d) auto
  from this [of "(start, sz, plan)" "inflight cw"]
  have "x = (j, start, sz, plan) \<or> x \<in> set (inflight cw)" if "x \<in> set (inflight cw')" for x
    using that by (auto simp: p(2))
  with assms(1) p(1) tensors_only [of cw' cw] p(2) show ?thesis unfolding resolved_def by fastforce
qed

lemma step_resolved: "resolved spans (fst s) \<Longrightarrow> resolved spans (fst (worker_step spans op s))"
  using fewer_resolved [OF _ poll_fewer] fewer_resolved [OF _ wait_fewer]
  by (cases op; cases s) (auto simp: case_prod_beta split: sum.splits intro: submit_resolved)

lemma run_resolved: "resolved spans (fst s) \<Longrightarrow> resolved spans (fst (fold (worker_step spans) ops s))"
  by (induction ops arbitrary: s) (simp_all add: step_resolved)

lemma diagnose_defined:
  assumes "spans cw plan = Inr sp"
  shows "\<exists>lines. diagnose spans digest cpu j plan cw = Inr lines \<and>
    map cl_layer lines = map pe_tensor (sampled_entries (first_layers (cw_refs cw)) {} plan)"
  unfolding diagnose_def
proof (rule map_result_defined)
  fix e assume "e \<in> set (sampled_entries (first_layers (cw_refs cw)) {} plan)"
  then have "e \<in> set plan" using sampled_entries_layers by blast
  from single_entry [OF assms this] show "\<exists>y. bind_result (spans cw [e]) (\<lambda>sampled. let views = map (\<lambda>(_, c). read_slice cpu c) sampled
        in Inr \<lparr>cl_job = j, cl_layer = pe_tensor e, cl_device = pe_device e, cl_cpu = pe_cpu e,
                cl_digests = map digest views, cl_nonzero = map (\<lambda>v. length (filter (\<lambda>c. c \<noteq> CHR 0x00) v)) views\<rparr>) = Inr y \<and>
      cl_layer y = pe_tensor e"
    by (auto simp: bind_result_def Let_def)
qed

text \<open>With the diagnostics or without, \<open>_finalize\<close> returns the same result.\<close>

lemma finalize_same:
  assumes "resolved spans cw" "map_of (inflight cw) j = Some (start, sz, plan)" "fewer_jobs cw cw'"
  shows "finalize_diagnosed diagnostics spans digest cpu now j success start sz plan cw' = Inr (finalize now j success start sz cw')"
proof -
  obtain sp where "spans cw plan = Inr sp" using assms(1) map_of_SomeD [OF assms(2)] by (auto simp: resolved_def)
  then have "spans (cw'\<lparr>pending := P\<rparr>) plan = Inr sp" for P
    using assms(3) tensors_only [of "cw'\<lparr>pending := P\<rparr>" cw] by (simp add: fewer_jobs_def)
  from diagnose_defined [OF this] obtain lines where
    "diagnose spans digest cpu j plan (cw'\<lparr>pending := pending cw' - {j}\<rparr>) = Inr lines" by blast
  then show ?thesis by (simp add: finalize_diagnosed_def finalize_def bind_result_def Let_def)
qed

end

lemma map_result_single: "map_result f xs = Inr ys \<Longrightarrow> x \<in> set xs \<Longrightarrow> \<exists>y. f x = Inr y"
  by (induction xs arbitrary: ys) (auto simp: bind_result_def split: sum.splits)

lemma spans_of_tensors:
  assumes "device_tensors cw' = device_tensors cw" "cpu_tensors cw' = cpu_tensors cw"
  shows "entry_span cw' = entry_span cw" "layout_entry layout cw' = layout_entry layout cw"
  using assms by (simp_all add: fun_eq_iff entry_span_def layout_entry_def)

interpretation copy_resolver: span_resolver spans_of
proof
  show "spans_of cw' plan = spans_of cw plan" if "device_tensors cw' = device_tensors cw" "cpu_tensors cw' = cpu_tensors cw" for cw' cw plan
    using spans_of_tensors(1) [OF that] by (simp add: spans_of_def)
  show "\<exists>sp1. spans_of cw [e] = Inr sp1" if "spans_of cw plan = Inr sp" "e \<in> set plan" for cw plan sp e
    using map_result_single [OF that [unfolded spans_of_def]] by (auto simp: spans_of_def bind_result_def)
qed

interpretation layout_resolver: span_resolver "layout_spans layout" for layout
proof
  show "layout_spans layout cw' plan = layout_spans layout cw plan"
    if "device_tensors cw' = device_tensors cw" "cpu_tensors cw' = cpu_tensors cw" for cw' cw plan
    using spans_of_tensors(2) [OF that, of layout] by (simp add: layout_spans_def)
  show "\<exists>sp1. layout_spans layout cw [e] = Inr sp1" if l: "layout_spans layout cw plan = Inr sp" "e \<in> set plan" for cw plan sp e
  proof -
    from l(1) obtain sps where "map_result (layout_entry layout cw) plan = Inr sps"
      by (auto simp: layout_spans_def bind_result_def split: sum.splits)
    from map_result_single [OF this l(2)] show ?thesis by (auto simp: layout_spans_def bind_result_def)
  qed
qed

section \<open>The diagnostics change no result\<close>

lemma fresh_resolved: "fresh_worker cw \<Longrightarrow> resolved spans cw"
  by (simp add: fresh_worker_def resolved_def)

text \<open>In any run of a new worker, of either kind, the result of a job that \<open>get_finished\<close> or \<open>wait\<close>
  has just taken from the table is the same with the diagnostics as without them, whatever
  bytes the CPU memory holds; and the samples are of the first layers of the groups, each
  that is in the plan once.\<close>

theorem diagnostics_harmless:
  assumes "fresh_worker cw0" "fold (worker_step spans) ops (cw0, subs0, reps0) = (cw, subs, reps)"
    and "map_of (inflight cw) j = Some (start, sz, plan)" "fewer_jobs cw cw'"
    and "spans = spans_of \<or> spans = layout_spans layout"
  shows "finalize_diagnosed diagnostics spans digest cpu now j success start sz plan cw' = Inr (finalize now j success start sz cw')"
  using assms copy_resolver.run_resolved [of "(cw0, subs0, reps0)" ops] layout_resolver.run_resolved [of layout "(cw0, subs0, reps0)" ops]
    copy_resolver.finalize_same layout_resolver.finalize_same [of layout]
  by (elim disjE) (simp_all add: fresh_resolved)

text \<open>Two groups of one layer each, of which the second is sampled at its first entry.\<close>

theorem diagnose_samples:
  "map pe_device (sampled_entries (first_layers [[\<lparr>tensor_idx = 0, page_size_bytes = 4\<rparr>], [], [\<lparr>tensor_idx = 2, page_size_bytes = 4\<rparr>]]) {}
     (map (\<lambda>(t, d). \<lparr>pe_tensor = t, pe_device = d, pe_cpu = 0, pe_sub = 0, pe_size = 4\<rparr>) [(1, 7), (2, 8), (0, 9), (2, 6)])) = [8, 9]"
  by code_simp

end
