(* ===== verification/Fs_Data.thy ===== *)
theory Fs_Data
  imports Fs_Healthy
begin

text \<open>
  The bytes of a run: as long as the framework pins the primary blocks of a store job, which
  \<open>base.py\<close> says it does, every indexed block has the bytes that the primary memory held when
  its store job was submitted.
\<close>

section \<open>Runs in which sources are pinned\<close>

text \<open>A step leaves the source blocks of the tasks that are still to be done as they are.\<close>

definition sources_pinned :: "fs_manager \<Rightarrow> bytes \<Rightarrow> bytes \<Rightarrow> bool" where
  "sources_pinned m view view' \<longleftrightarrow> (\<forall>(t, j) \<in> pending (fm_pool m). \<forall>e \<in> set (task_entries t).
     view_of (fm_block_size m) (sw_block_id e) view' = view_of (fm_block_size m) (sw_block_id e) view)"

text \<open>The primary memory at the submission of each job is remembered beside the run.\<close>

definition next_sources :: "(nat \<Rightarrow> bytes) \<Rightarrow> fs_manager \<Rightarrow> fs_world \<Rightarrow> nat \<Rightarrow> bytes" where
  "next_sources src m w = (\<lambda>j. if j < length (jobs (fm_pool m)) then src j else w_view w)"

inductive pinned_run :: "int option \<Rightarrow> fs_config \<Rightarrow> (string list \<Rightarrow> bool list) option \<Rightarrow> (offload_key \<Rightarrow> string) \<Rightarrow>
    (nat \<Rightarrow> bytes) \<Rightarrow> fs_run \<Rightarrow> bool"
  for cpu_count cfg c_lookup mapper where
  Start: "make_fs_manager cpu_count cfg = Inr m \<Longrightarrow> w_shared w = empty_shared \<Longrightarrow>
     pinned_run cpu_count cfg c_lookup mapper (\<lambda>_. []) ([], m, w)"
| Step: "pinned_run cpu_count cfg c_lookup mapper src (ls, m, w) \<Longrightarrow> fs_step c_lookup mapper (ls, m, w) (ls', m', w') \<Longrightarrow>
     sources_pinned m (w_view w) (w_view w') \<Longrightarrow>
     pinned_run cpu_count cfg c_lookup mapper (next_sources src m w) (ls', m', w')"

lemma pinned_reaches: "pinned_run cpu_count cfg c_lookup mapper src r \<Longrightarrow> fs_reaches cpu_count cfg c_lookup mapper r"
proof (induction rule: pinned_run.induct)
  case (Step src ls m w ls' m' w')
  then show ?case unfolding fs_reaches_def by (meson rtranclp.rtrancl_into_rtrancl)
qed (auto simp: fs_reaches_def)

section \<open>The invariant\<close>

text \<open>The row comes from a completed job, and its block is the source of that job.\<close>

definition stored_by :: "(nat \<Rightarrow> bytes) \<Rightarrow> nat \<Rightarrow> (fs_task, segment_write list) pool \<Rightarrow> (nat \<times> bytes) list \<Rightarrow> offload_key \<Rightarrow> segment_location \<Rightarrow> bool" where
  "stored_by src bs p files k l \<longleftrightarrow> (\<exists>j < length (jobs p). completed (jobs p ! j) = n_tasks (jobs p ! j) \<and>
     (\<exists>e \<in> set (job_plan (jobs p ! j)). sw_key e = k \<and> l = entry_location (bs, e) \<and> holds bs files (src j) e))"

definition data_inv :: "(nat \<Rightarrow> bytes) \<Rightarrow> fs_manager \<Rightarrow> fs_world \<Rightarrow> bool" where
  "data_inv src m w \<longleftrightarrow>
     (\<forall>(t, j) \<in> pending (fm_pool m). \<forall>e \<in> set (task_entries t).
        view_of (fm_block_size m) (sw_block_id e) (w_view w) = view_of (fm_block_size m) (sw_block_id e) (src j)) \<and>
     progress_ok (fm_pool m) (\<lambda>j. holds (fm_block_size m) (seg_files (w_shared w)) (src j)) \<and>
     (\<forall>k l. map_of (db_blocks (w_shared w)) k = Some l \<longrightarrow>
        stored_by src (fm_block_size m) (fm_pool m) (seg_files (w_shared w)) k l)"

lemma data_inv_row:
  "data_inv src m w \<Longrightarrow> map_of (db_blocks (w_shared w)) k = Some l \<Longrightarrow>
     stored_by src (fm_block_size m) (fm_pool m) (seg_files (w_shared w)) k l"
  by (simp add: data_inv_def)

lemma holds_source: "view_of bs (sw_block_id e) v = view_of bs (sw_block_id e) v' \<Longrightarrow> holds bs files v e = holds bs files v' e"
  by (simp add: holds_def)

lemma holds_kept: "holds bs files v e \<Longrightarrow> kept (sw_segment_id e) (sw_offset e) bs files files' \<Longrightarrow> holds bs files' v e"
  by (simp add: holds_def kept_def)

lemma pending_known: "pool_inv ls p \<Longrightarrow> (t, j) \<in> pending p \<Longrightarrow> j < length (jobs p)"
  using pending_unfinished [of t j p] pool_invD(1) [of ls p] by (auto simp: known_jobs_def unfinished_def)

lemma pinned_sources:
  assumes "data_inv src m w" "pool_inv ls (fm_pool m)" "sources_pinned m (w_view w) (w_view w')"
    "(t, j) \<in> pending (fm_pool m)" "e \<in> set (task_entries t)"
  shows "view_of (fm_block_size m) (sw_block_id e) (w_view w') = view_of (fm_block_size m) (sw_block_id e) (next_sources src m w j)"
  using assms(1,3-5) pending_known [OF assms(2,4)] by (fastforce simp: data_inv_def sources_pinned_def next_sources_def)

lemma data_quiet:
  assumes d: "data_inv src m w" and pool: "pool_inv ls (fm_pool m)" and pin: "sources_pinned m (w_view w) (w_view w')"
    and q: "quiet_step m w m' w'"
  shows "data_inv (next_sources src m w) m' w'"
proof -
  note f = quiet_stepD [OF q]
  have "progress_ok (fm_pool m) (\<lambda>j. holds (fm_block_size m) (seg_files (w_shared w)) (next_sources src m w j))"
    using d by (auto simp: data_inv_def progress_ok_def next_sources_def)
  then have "progress_ok (fm_pool m') (\<lambda>j. holds (fm_block_size m) (seg_files (w_shared w)) (next_sources src m w j))"
    by (rule quiet_progress [OF q pool])
  moreover have "stored_by (next_sources src m w) (fm_block_size m) (fm_pool m') (seg_files (w_shared w)) k l"
    if "map_of (db_blocks (w_shared w')) k = Some l" for k l
  proof -
    have "stored_by src (fm_block_size m) (fm_pool m) (seg_files (w_shared w)) k l"
      using that f(3) d by (auto simp: index_shrinks_def data_inv_def)
    then show ?thesis by (auto simp: stored_by_def f(6) next_sources_def)
  qed
  ultimately show ?thesis
    using pinned_sources [OF d pool pin] f(7) by (auto simp: data_inv_def f(2,4))
qed

lemma data_submit:
  assumes d: "data_inv src m w" and pool: "pool_inv ls (fm_pool m)" and s: "submit_step m w m' w' js tasks"
  shows "data_inv (next_sources src m w) m' w'"
proof -
  note f = submit_stepD [OF s]
  let ?p = "fm_pool m" and ?n = "length (jobs (fm_pool m))" and ?bs = "fm_block_size m" and ?src = "next_sources src m w"
  have "progress_ok (fm_pool m') (\<lambda>j. holds ?bs (seg_files (w_shared w)) (?src j))"
    by (rule submit_progress [OF s, of "\<lambda>j. holds ?bs (seg_files (w_shared w)) (src j)"])
      (use d in \<open>auto simp: data_inv_def next_sources_def\<close>)
  moreover have "stored_by ?src ?bs (fm_pool m') (seg_files (w_shared w)) k l" if row: "map_of (db_blocks (w_shared w)) k = Some l" for k l
  proof -
    obtain j e where j: "j < ?n" "completed (jobs ?p ! j) = n_tasks (jobs ?p ! j)" "e \<in> set (job_plan (jobs ?p ! j))" "sw_key e = k"
      "l = entry_location (?bs, e)" "holds ?bs (seg_files (w_shared w)) (src j) e"
      using data_inv_row [OF d row] unfolding stored_by_def by blast
    moreover have "j < length (jobs (fm_pool m'))" "jobs (fm_pool m') ! j = jobs ?p ! j" "?src j = src j"
      using j(1) by (simp_all add: f(6) nth_append next_sources_def)
    ultimately show ?thesis unfolding stored_by_def by metis
  qed
  moreover have "view_of ?bs (sw_block_id e) (w_view w) = view_of ?bs (sw_block_id e) (?src j)"
    if "(t, j) \<in> pending (fm_pool m')" "e \<in> set (task_entries t)" for t j e
  proof -
    from that(1) consider "(t, j) \<in> pending ?p" | "j = ?n" unfolding f(7) by auto
    then show ?thesis
      using that(2) d pending_known [OF pool, of t j] by cases (fastforce simp: data_inv_def next_sources_def)+
  qed
  ultimately show ?thesis by (auto simp: data_inv_def f(2-5))
qed

lemma data_done:
  assumes d: "data_inv src m w" and pool: "pool_inv ls (fm_pool m)" and pin: "sources_pinned m (w_view w) (w_view w')"
    and s: "done_step m w m' w' t j ok"
  shows "data_inv (next_sources src m w) m' w'"
proof -
  note ds = done_stepD [OF s] and f = countedD [OF done_stepD(1) [OF s]]
  let ?p = "fm_pool m" and ?p' = "fm_pool m'" and ?bs = "fm_block_size m" and ?src = "next_sources src m w"
  let ?files = "seg_files (w_shared w)" and ?files' = "seg_files (w_shared w')"
  have src: "?src k = src k" if "k < length (jobs ?p)" for k using that by (simp add: next_sources_def)
  have keep: "holds ?bs ?files' (?src k) e"
    if "holds ?bs ?files (src k) e" "k < length (jobs ?p)" "e \<in> set (job_plan (jobs ?p ! k))" "k \<noteq> j \<or> e \<notin> set (task_entries t)" for k e
    unfolding src [OF that(2)] using holds_kept [OF that(1) ds(8) [OF _ that(2-4)]] that(1) by (simp add: holds_def)
  have prog: "progress_ok ?p' (\<lambda>k. holds ?bs ?files' (?src k))"
  proof (rule counted_progress [OF ds(1), of "\<lambda>k. holds ?bs ?files (src k)"])
    show "progress_ok ?p (\<lambda>k. holds ?bs ?files (src k))" using d by (simp add: data_inv_def)
    show "holds ?bs ?files' (?src j) e" if e: "ok" "e \<in> set (task_entries t)" for e
    proof -
      have "view_of ?bs (sw_block_id e) (w_view w) = view_of ?bs (sw_block_id e) (src j)"
        using d f(1) e(2) by (fastforce simp: data_inv_def)
      with ds(7) [OF e] holds_source show ?thesis unfolding src [OF ds(2)] by blast
    qed
  qed (use keep in blast)
  have old: "stored_by ?src ?bs ?p' ?files' k l" if row: "map_of (db_blocks (w_shared w)) k = Some l" for k l
  proof -
    obtain i e where i: "i < length (jobs ?p)" "completed (jobs ?p ! i) = n_tasks (jobs ?p ! i)" "e \<in> set (job_plan (jobs ?p ! i))"
      "sw_key e = k" "l = entry_location (?bs, e)" "holds ?bs ?files (src i) e"
      using data_inv_row [OF d row] unfolding stored_by_def by blast
    have "i \<noteq> j"
      using job_okD(4) [OF pool_invD(2) [OF pool ds(2)]] i(2) pending_unfinished [OF f(1)] by (auto simp: unfinished_def)
    with keep [OF i(6,1,3)] i f(6,8,10) [OF i(1)] show ?thesis unfolding stored_by_def f(5) by (intro exI [of _ i]) auto
  qed
  have "stored_by ?src ?bs ?p' ?files' k l" if k: "map_of (db_blocks (w_shared w')) k = Some l" for k l
    using ds(9) [OF k]
  proof
    assume n: "completed (jobs ?p' ! j) = n_tasks (jobs ?p' ! j) \<and> js_success (jobs ?p' ! j) \<and>
        (\<exists>e \<in> set (job_plan (jobs ?p' ! j)). sw_key e = k \<and> l = entry_location (?bs, e))"
    then obtain e where e: "e \<in> set (job_plan (jobs ?p' ! j))" "sw_key e = k" "l = entry_location (?bs, e)" by blast
    have "holds ?bs ?files' (?src j) e" by (rule counted_completed(1) [OF ds(1) pool ds(2) prog]) (use n e in blast)+
    with n e ds(2) show ?thesis unfolding stored_by_def f(5) by blast
  qed (rule old)
  with prog pinned_sources [OF d pool pin] f(2) show ?thesis by (auto simp: data_inv_def ds(4))
qed

section \<open>The theorem\<close>

lemma data_step:
  assumes "fs_step c_lookup mapper (ls, m, w) (ls', m', w')" "rest_inv m w" "pool_inv ls (fm_pool m)" "data_inv src m w"
    "sources_pinned m (w_view w) (w_view w')"
  shows "data_inv (next_sources src m w) m' w'"
  using step_kinds [OF assms(1,2)] data_quiet [OF assms(4,3,5)] data_submit [OF assms(4,3)] data_done [OF assms(4,3,5)] by blast

lemma pinned_run_inv:
  assumes "pinned_run cpu_count cfg c_lookup mapper src (ls, m, w)" "sane ls" "cfg_storage_layout cfg = ''segment''"
  shows "rest_inv m w \<and> (\<exists>a b. pool_trace a b ls (fm_pool m)) \<and> data_inv src m w"
  using assms(1,2)
proof (induction src "(ls, m, w)" arbitrary: ls m w rule: pinned_run.induct)
  case (Start m w)
  obtain nr nw where t: "thread_counts cpu_count (cfg_read_threads cfg) (cfg_write_threads cfg) = (nr, nw)" by fastforce
  have "jobs (fm_pool m) = []" "pending (fm_pool m) = {}"
    by (auto simp: make_fs_manager_built(3) [OF Start(1) t] make_pool_def pending_def)
  then have "data_inv (\<lambda>_. []) m w" by (simp add: data_inv_def progress_ok_def Start(2)) (simp add: empty_shared_def)
  with rest_init [OF Start(1) assms(3) Start(2)] show ?case by blast
next
  case (Step src ls m w ls' m' w')
  have "sane ls" by (rule sane_step [OF Step(3,5)])
  with Step(2) obtain a b where i: "rest_inv m w" "pool_trace a b ls (fm_pool m)" "data_inv src m w" by blast
  have p: "pool_inv ls (fm_pool m)" by (rule pool_trace_inv [OF i(2) \<open>sane ls\<close>])
  show ?case
    using rest_step [OF Step(3) i(1) p] step_pool_trace [OF Step(3) i(2)] data_step [OF Step(3) i(1) p i(3) Step(4)] by blast
qed

text \<open>C3: What the tier holds is what was given to it. In every run of a new tier of the segment
  layout in which the source blocks of unfinished store jobs are pinned, each indexed key
  was stored by a job that is completed, from a primary block of the job, and the location
  in the index has exactly the bytes that this block had when the job was submitted -
  whatever other stores of the same or other keys, loads, deletions, failures and
  shutdowns came before, between or after. Every job is expected to have a task.\<close>

theorem fs_stored_bytes:
  assumes run: "pinned_run cpu_count cfg c_lookup mapper src (ls, m, w)" and layout: "cfg_storage_layout cfg = ''segment''" and sane: "sane ls"
    and key: "map_of (db_blocks (w_shared w)) k = Some l"
  shows "\<exists>j < length (jobs (fm_pool m)). completed (jobs (fm_pool m) ! j) = n_tasks (jobs (fm_pool m) ! j) \<and>
    (\<exists>e \<in> set (job_plan (jobs (fm_pool m) ! j)). sw_key e = k \<and> l = entry_location (fm_block_size m, e) \<and>
       content (seg_files (w_shared w)) (segment_id l) (offset l) (loc_length l) = view_of (fm_block_size m) (sw_block_id e) (src j))"
proof -
  have "data_inv src m w" using pinned_run_inv [OF run sane layout] by blast
  with key have "stored_by src (fm_block_size m) (fm_pool m) (seg_files (w_shared w)) k l" by (simp add: data_inv_def)
  then obtain j e where j: "j < length (jobs (fm_pool m))" "completed (jobs (fm_pool m) ! j) = n_tasks (jobs (fm_pool m) ! j)"
    "e \<in> set (job_plan (jobs (fm_pool m) ! j))" "sw_key e = k" "l = entry_location (fm_block_size m, e)"
    "holds (fm_block_size m) (seg_files (w_shared w)) (src j) e" by (auto simp: stored_by_def)
  have "content (seg_files (w_shared w)) (segment_id l) (offset l) (loc_length l) = view_of (fm_block_size m) (sw_block_id e) (src j)"
    using j(5,6) by (simp add: holds_def entry_location_def)
  with j(1-5) show ?thesis by blast
qed


section \<open>Example\<close>

lemma unchanged_pinned [simp]: "sources_pinned m view view"
  by (simp add: sources_pinned_def)

lemma fs_worker_done_jobs:
  assumes "fs_worker_done i env (m, w) = Some (ls', m', w')"
  shows "length (jobs (fm_pool m')) = length (jobs (fm_pool m))"
proof (rule fs_worker_doneE [OF assms])
  fix task j r m1 w1 raises call p m2
  assume "snd (threads (fm_pool m) ! i) = Running task j" "worker_done i (\<not> isl (r :: unit result)) raises (fm_pool m) = Some (j, call, p)"
    and m': "m' = m2\<lparr>fm_pool := p\<rparr>"
  from done_pending(5) [OF this(2,1)] show ?thesis by (auto simp: m')
qed

lemma pinned_turn:
  assumes run: "pinned_run cpu_count cfg c_lookup mapper src (ls, m, w)" and t: "turn i env (ls, m, w) = Some (ls', m', w')"
    and env: "0 < te_iov env" and view: "w_view w' = w_view w"
  shows "\<exists>src'. pinned_run cpu_count cfg c_lookup mapper src' (ls', m', w') \<and> (\<forall>j < length (jobs (fm_pool m)). src' j = src j)"
proof -
  obtain p ls1 m1 j s p2 where t: "worker_take i (fm_pool m) = Some p"
    "fs_worker_done i env (m\<lparr>fm_pool := p\<rparr>, w) = Some (ls1, m1, w')"
    "worker_report i (fm_pool m1) = Some (j, s, p2)" "ls' = Reported j s # ls1 @ ls" "m' = m1\<lparr>fm_pool := p2\<rparr>"
    using t by (auto simp: turn_def split: option.splits)
  let ?m = "m\<lparr>fm_pool := p\<rparr>"
  let ?s1 = "next_sources src m w"
  let ?s2 = "next_sources ?s1 ?m w"
  let ?s3 = "next_sources ?s2 m1 w'"
  have 1: "pinned_run cpu_count cfg c_lookup mapper ?s1 (ls, ?m, w)"
    by (rule pinned_run.Step [OF run fs_step.Take [OF t(1)]]) simp
  have 2: "pinned_run cpu_count cfg c_lookup mapper ?s2 (ls1 @ ls, m1, w')"
    by (rule pinned_run.Step [OF 1 fs_step.Done [OF env t(2)]]) (simp add: view)
  have 3: "pinned_run cpu_count cfg c_lookup mapper ?s3 (ls', m', w')"
    unfolding t(4,5) by (rule pinned_run.Step [OF 2 fs_step.Report [OF t(3)]]) simp
  have "length (jobs (fm_pool m1)) = length (jobs (fm_pool m))"
    using fs_worker_done_jobs [OF t(2)] take_unfinished(2) [OF t(1)] by simp
  then have "\<forall>j < length (jobs (fm_pool m)). ?s3 j = src j"
    using take_unfinished(2) [OF t(1)] by (simp add: next_sources_def)
  with 3 show ?thesis by blast
qed

text \<open>The primary memory is overwritten after the store has been reported.\<close>

definition run_changed :: fs_run where
  "run_changed = (let (ls, m, w) = run_stored in (ls, m, w\<lparr>w_view := ''........''\<rparr>))"

lemma run_changed_pinned: "\<exists>src. pinned_run (Some 2) run_config None sample_mapper src run_changed \<and> src 0 = ''ABCDEFGH''"
proof -
  obtain m w where start: "run_start = ([], m, w)" by (auto simp: run_start_def)
  have "\<not> isl (make_fs_manager (Some 2) run_config)" by code_simp
  then have m: "make_fs_manager (Some 2) run_config = Inr m" "w_shared w = empty_shared" "w_view w = ''ABCDEFGH''"
    using start by (auto simp: run_start_def isl_def split: sum.splits)
  have 0: "pinned_run (Some 2) run_config None sample_mapper (\<lambda>_. []) ([], m, w)" by (rule pinned_run.Start [OF m(1,2)])
  obtain ls2 m2 w2 where st: "run_stored = (ls2, m2, w2)" by (cases run_stored)
  have "store_turn sample_env 1 [''a'', ''b''] [3, 0] run_start \<noteq> None" by code_simp
  then have "store_turn sample_env 1 [''a'', ''b''] [3, 0] ([], m, w) = Some (ls2, m2, w2)"
    using st start by (auto simp: run_stored_def)
  then obtain u m1 w1 where s: "fs_submit_store True sample_mapper 1 [''a'', ''b''] [3, 0] (m, w) = (Inr u, m1, w1)"
    "\<forall>b \<in> set [3, 0]. block_in (fm_block_size m) (w_view w) b" "turn 1 sample_env (submit_label (fm_pool m) (fm_pool m1) # [], m1, w1) = Some (ls2, m2, w2)"
    by (auto simp: store_turn_def block_in_def list_all_iff split: sum.splits prod.splits if_splits)
  have v: "jobs (fm_pool (fst (snd run_start))) = []" "length (w_view (snd (snd run_stored))) = 8" "w_view (snd (snd run_stored)) = ''ABCDEFGH''"
    "load_q (fm_pool (fst (snd run_stored))) = []" "store_q (fm_pool (fst (snd run_stored))) = []"
    "map snd (threads (fm_pool (fst (snd run_stored)))) = [Idle, Idle]" by code_simp+
  have w1: "w_view w1 = w_view w" using s(1) by (auto simp: fs_submit_store_def Let_def split: option.splits prod.splits sum.splits)
  have "fs_step None sample_mapper ([], m, w) (submit_label (fm_pool m) (fm_pool m1) # [], m1, w1)"
    by (rule fs_step.Store [OF s(2)]) (use s(1) in simp)
  from pinned_run.Step [OF 0 this] have 1: "pinned_run (Some 2) run_config None sample_mapper (next_sources (\<lambda>_. []) m w) ([submit_label (fm_pool m) (fm_pool m1)], m1, w1)"
    by (simp add: w1)
  have env: "0 < te_iov sample_env" by (simp add: sample_env_def)
  have "w_view w2 = w_view w1" using v(3) by (simp add: st w1 m(3))
  from pinned_turn [OF 1 s(3) env this] obtain src where src: "pinned_run (Some 2) run_config None sample_mapper src (ls2, m2, w2)"
    "\<forall>j < length (jobs (fm_pool m1)). src j = next_sources (\<lambda>_. []) m w j" by blast
  have j1: "length (jobs (fm_pool m1)) = 1"
    using submit_store_pool [OF s(1)] v(1) by (auto simp: start enqueue_store_def)
  have s0: "src 0 = ''ABCDEFGH''" using src(2) j1 v(1) by (simp add: start next_sources_def m(3))
  have "snd ` set (threads (fm_pool m2)) = {Idle}"
    using v(6) by (simp add: st flip: set_map)
  then have "pending (fm_pool m2) = {}" using v(4,5) by (simp add: pending_def st)
  then have pin: "sources_pinned m2 (w_view w2) ''........''" by (simp add: sources_pinned_def)
  have "fs_step None sample_mapper (ls2, m2, w2) (ls2, m2, w2\<lparr>w_view := ''........''\<rparr>)"
    by (rule fs_step.Primary) (use v(2) in \<open>simp add: st\<close>)
  from pinned_run.Step [OF src(1) this] pin
  have "pinned_run (Some 2) run_config None sample_mapper (next_sources src m2 w2) run_changed" by (simp add: run_changed_def st)
  moreover have "length (jobs (fm_pool (fst (snd run_stored)))) = 1" by code_simp
  then have "next_sources src m2 w2 0 = ''ABCDEFGH''" by (simp add: next_sources_def st s0)
  ultimately show ?thesis by blast
qed

theorem fs_stored_bytes_witness:
  "\<exists>l. map_of (db_blocks (w_shared (snd (snd run_changed)))) ''b'' = Some l \<and> w_view (snd (snd run_changed)) = ''........'' \<and>
     content (seg_files (w_shared (snd (snd run_changed)))) (segment_id l) (offset l) (loc_length l) = ''AB''"
proof -
  obtain ls m w where r: "run_changed = (ls, m, w)" by (cases run_changed)
  obtain src where src: "pinned_run (Some 2) run_config None sample_mapper src (ls, m, w)" "src 0 = ''ABCDEFGH''"
    using run_changed_pinned unfolding r by blast
  have "fst run_changed = [Reported 0 True, CallbackRan 0 True False, TaskRan 0 True, Submitted 1 1]" by code_simp
  then have sane: "sane ls" by (simp add: r sane_def)
  have layout: "cfg_storage_layout run_config = ''segment''" by (simp add: run_config_def)
  have "map_of (db_blocks (w_shared (snd (snd run_changed)))) ''b'' \<noteq> None" by code_simp
  then obtain l where l: "map_of (db_blocks (w_shared w)) ''b'' = Some l" by (auto simp: r)
  have v: "length (jobs (fm_pool (fst (snd run_changed)))) = 1" "w_view (snd (snd run_changed)) = ''........''" "fm_block_size (fst (snd run_changed)) = 2"
    "map (\<lambda>e. (sw_key e, sw_block_id e)) (job_plan (jobs (fm_pool (fst (snd run_changed))) ! 0)) = [(''a'', 3), (''b'', 0)]" by code_simp+
  from fs_stored_bytes [OF src(1) layout sane l] obtain j e where e: "j < length (jobs (fm_pool m))" "e \<in> set (job_plan (jobs (fm_pool m) ! j))"
    "sw_key e = ''b''" "content (seg_files (w_shared w)) (segment_id l) (offset l) (loc_length l) = view_of (fm_block_size m) (sw_block_id e) (src j)" by blast
  have j: "j = 0" using e(1) v(1) by (simp add: r)
  have "(sw_key e, sw_block_id e) \<in> set (map (\<lambda>e. (sw_key e, sw_block_id e)) (job_plan (jobs (fm_pool m) ! 0)))" using e(2) j by simp
  then have "sw_block_id e = 0" using v(4) e(3) by (simp only: r fst_conv snd_conv) auto
  then have "content (seg_files (w_shared w)) (segment_id l) (offset l) (loc_length l) = ''AB''"
    using e(4) v(3) by (simp add: j src(2) r view_of_def)
  with l v(2) show ?thesis unfolding r by auto
qed

end
