(* ===== verification/Fs_Loads.thy ===== *)
theory Fs_Loads
  imports Fs_Healthy
begin

text \<open>
  Loads in progress: what a load job has located stays readable until its tasks run, although
  the keys may be deleted, stored again or evicted from the cache in between.
\<close>

definition loads_ok :: "fs_manager \<Rightarrow> fs_world \<Rightarrow> bool" where
  "loads_ok m w \<longleftrightarrow> (\<forall>t j. (t, j) \<in> pending (fm_pool m) \<longrightarrow>
     (\<forall>(k, b, l) \<in> load_entries_of t. at_rest (fm_block_size m) (fm_pool m) (seg_files (w_shared w)) l))"

lemma rests_at_rest:
  "rests (m, w) (m', w') \<Longrightarrow> at_rest (fm_block_size m) (fm_pool m) (seg_files (w_shared w)) l \<Longrightarrow>
     at_rest (fm_block_size m') (fm_pool m') (seg_files (w_shared w')) l"
  by (simp add: rests_def at_rest_def kept_def)

lemma loads_step:
  assumes step: "fs_step c_lookup mapper (ls, m, w) (ls', m', w')" and inv: "rest_inv m w" "pool_inv ls (fm_pool m)"
    and cache: "cache_ok m w" and ok: "loads_ok m w"
  shows "loads_ok m' w'"
proof -
  have r: "rests (m, w) (m', w')" using rest_step [OF step inv] by blast
  have old: "at_rest (fm_block_size m) (fm_pool m) (seg_files (w_shared w)) l"
    if "(t, j) \<in> pending (fm_pool m)" "(k, b, l) \<in> load_entries_of t" for t j k b l
    using ok that by (fastforce simp: loads_ok_def)
  have "at_rest (fm_block_size m) (fm_pool m) (seg_files (w_shared w)) l"
    if t: "(t, j) \<in> pending (fm_pool m')" "(k, b, l) \<in> load_entries_of t" for t j k b l
    using step_kinds [OF step inv(1)]
  proof (elim disjE exE)
    assume "quiet_step m w m' w'"
    with t old quiet_stepD(7) show ?thesis by blast
  next
    fix js tasks assume s: "submit_step m w m' w' js tasks"
    from t(1) consider "(t, j) \<in> pending (fm_pool m)" | "t \<in> set tasks" unfolding submit_stepD(7) [OF s] by auto
    then show ?thesis
    proof cases
      case 2
      from submit_stepD(12) [OF s this t(2)] obtain st where "fm_segment m = Some st" "locate (w_shared w) st k = Some l" by blast
      then have "map_of (db_blocks (w_shared w)) k = Some l"
        using cache locate_current by (auto simp: cache_ok_def)
      with inv(1) show ?thesis by (auto simp: rest_inv_def)
    qed (use old t(2) in blast)
  next
    fix t' j' ok' assume "done_step m w m' w' t' j' ok'"
    with t old countedD(2) [OF done_stepD(1)] show ?thesis by blast
  qed
  with rests_at_rest [OF r] show ?thesis by (fastforce simp: loads_ok_def)
qed

lemma loads_steps:
  assumes "(fs_step c_lookup mapper)\<^sup>*\<^sup>* (ls, m, w) (ls', m', w')" "sane ls'" "pool_trace a b ls (fm_pool m)" "rest_inv m w"
    "cache_ok m w" "loads_ok m w"
  shows "loads_ok m' w'"
  using assms(1,2)
proof (induction "(ls', m', w')" arbitrary: ls' m' w' rule: rtranclp_induct)
  case base
  with assms(6) show ?case by simp
next
  case (step r)
  obtain ls1 m1 w1 where r: "r = (ls1, m1, w1)" by (cases r)
  have one: "fs_step c_lookup mapper (ls1, m1, w1) (ls', m', w')" using step.hyps(2) r by simp
  have s1: "sane ls1" by (rule sane_step [OF one step.prems])
  note i = rest_steps [OF step.hyps(1) [unfolded r] s1 assms(3,4)]
  then have "pool_inv ls1 (fm_pool m1)" using pool_trace_inv s1 by blast
  with i show ?case
    using loads_step [OF one] healthy_steps [OF step.hyps(1) [unfolded r] s1 assms(3-5)] step.hyps(3) [OF r s1] by blast
qed

lemma reachable_rest:
  assumes run: "fs_reaches cpu_count cfg c_lookup mapper (ls, m, w)" and layout: "cfg_storage_layout cfg = ''segment''" and sane: "sane ls"
  shows "rest_inv m w \<and> cache_ok m w \<and> loads_ok m w \<and> (\<exists>a b. pool_trace a b ls (fm_pool m))"
proof -
  from run obtain m0 w0 where m0: "make_fs_manager cpu_count cfg = Inr m0" "w_shared w0 = empty_shared"
    "(fs_step c_lookup mapper)\<^sup>*\<^sup>* ([], m0, w0) (ls, m, w)" by (auto simp: fs_reaches_def)
  obtain a b where i: "rest_inv m0 w0" "pool_trace a b [] (fm_pool m0)" using rest_init [OF m0(1) layout m0(2)] by blast
  obtain nr nw where t: "thread_counts cpu_count (cfg_read_threads cfg) (cfg_write_threads cfg) = (nr, nw)" by fastforce
  have "pending (fm_pool m0) = {}"
    by (auto simp: make_fs_manager_built(3) [OF m0(1) t] make_pool_def pending_def)
  then have "loads_ok m0 w0" by (simp add: loads_ok_def)
  with rest_steps [OF m0(3) sane i(2,1)] healthy_steps [OF m0(3) sane i(2,1) cache_init [OF m0(1)]]
    loads_steps [OF m0(3) sane i(2,1) cache_init [OF m0(1)]] show ?thesis by blast
qed

text \<open>C4: A load delivers what its job located. Take any state of a run of a new tier of the
  segment layout in which a task of a load job waits or runs, and any later state in which it
  still does - in between, its keys may have been deleted, other blocks stored and loaded,
  writes failed. When the task then runs and its reads do not fail, it succeeds, and each
  of its primary blocks gets exactly the bytes that the located block had in the earlier
  state; no other primary block, no segment file and no index row changes. Every job is
  expected to have a task.\<close>

theorem fs_loads_deliver:
  assumes run: "fs_reaches cpu_count cfg c_lookup mapper (ls1, m1, w1)" and layout: "cfg_storage_layout cfg = ''segment''"
    and task: "(LoadMany chunk, j) \<in> pending (fm_pool m1)"
    and later: "(fs_step c_lookup mapper)\<^sup>*\<^sup>* (ls1, m1, w1) (ls2, m2, w2)" and sane: "sane ls2"
    and still: "(LoadMany chunk, j) \<in> pending (fm_pool m2)"
    and env: "te_io env = []" "te_sys env = []" "0 < te_iov env"
    and dst: "distinct (map (fst \<circ> snd) chunk)" "\<forall>(k, b, l) \<in> set chunk. block_in (fm_block_size m2) (w_view w2) b"
    and r: "run_task env (LoadMany chunk) (m2, w2) = (r, m3, w3)"
  shows "r = Inr () \<and> w_shared w3 = w_shared w2 \<and>
    (\<forall>(k, b, l) \<in> set chunk. view_of (fm_block_size m2) b (w_view w3) =
       content (seg_files (w_shared w1)) (segment_id l) (offset l) (loc_length l)) \<and>
    (\<forall>b. b \<notin> (fst \<circ> snd) ` set chunk \<longrightarrow> view_of (fm_block_size m2) b (w_view w3) = view_of (fm_block_size m2) b (w_view w2))"
proof -
  let ?bs = "fm_block_size m2" and ?files = "seg_files (w_shared w2)"
  have "sane ls" if "(fs_step c_lookup mapper)\<^sup>*\<^sup>* (ls, m, w) (ls2, m2, w2)" for ls m w
    using that by (induction "(ls, m, w)" arbitrary: ls m w rule: converse_rtranclp_induct) (use sane sane_step prod_cases3 in metis)+
  then have "sane ls1" using later by blast
  then obtain a b where i1: "rest_inv m1 w1" "loads_ok m1 w1" "pool_trace a b ls1 (fm_pool m1)" using reachable_rest [OF run layout] by blast
  have run2: "fs_reaches cpu_count cfg c_lookup mapper (ls2, m2, w2)"
    using run later unfolding fs_reaches_def by (meson rtranclp_trans)
  then have i2: "rest_inv m2 w2" "loads_ok m2 w2" using reachable_rest [OF run2 layout sane] by blast+
  have rs: "rests (m1, w1) (m2, w2)" using rest_steps [OF later sane i1(3,1)] by blast
  obtain s where s: "fm_segment m2 = Some s" "block_size s = ?bs" "0 < ?bs" "0 < fm_io_batch m2"
    using i2(1) by (auto simp: rest_inv_def tier_static_def)
  have loc: "loadable ?bs ?files l" "content ?files (segment_id l) (offset l) (loc_length l) = content (seg_files (w_shared w1)) (segment_id l) (offset l) (loc_length l)"
    if l: "(k, b, l) \<in> set chunk" for k b l
  proof -
    have 1: "at_rest (fm_block_size m1) (fm_pool m1) (seg_files (w_shared w1)) l" and 2: "at_rest ?bs (fm_pool m2) ?files l"
      using i1(2) i2(2) task still l by (fastforce simp: loads_ok_def load_entries_of_def)+
    have len: "loc_length l = ?bs" using 2 by (auto simp: at_rest_def settled_def entry_location_def)
    with 2 show "loadable ?bs ?files l" by (simp add: at_rest_def loadable_def)
    show "content ?files (segment_id l) (offset l) (loc_length l) = content (seg_files (w_shared w1)) (segment_id l) (offset l) (loc_length l)"
      using rs 1 len by (auto simp: rests_def kept_def)
  qed
  have ready: "load_ready m2 (w_shared w2) (w_files w2) (LoadMany chunk)"
    using s loc(1) by (auto simp: load_ready_def)
  let ?T = "load_targets (w_shared w2) (w_files w2) (LoadMany chunk)"
  have T: "?T = map (\<lambda>(k, b, l). (b, content ?files (segment_id l) (offset l) (loc_length l))) chunk" by (simp add: load_targets_def)
  have ids: "map fst ?T = map (fst \<circ> snd) chunk" by (simp add: T case_prod_beta)
  have "\<forall>b \<in> fst ` set ?T. block_in ?bs (w_view w2) b" using dst(2) by (auto simp: T)
  from run_load_task [OF env s(4,3) ready _ this] dst(1) obtain v where v: "run_task env (LoadMany chunk) (m2, w2) = (Inr (), m2, w2\<lparr>w_view := v\<rparr>)"
    "filled_blocks ?bs ?T (w_view w2) v" unfolding ids by blast
  note fb = filled_blocksD [OF v(2)]
  have out: "r = Inr ()" "w3 = w2\<lparr>w_view := v\<rparr>" using r v(1) by simp_all
  have "view_of ?bs b v = content (seg_files (w_shared w1)) (segment_id l) (offset l) (loc_length l)" if "(k, b, l) \<in> set chunk" for k b l
  proof -
    have "(\<lambda>(k, b, l). (b, content ?files (segment_id l) (offset l) (loc_length l))) (k, b, l) \<in> set ?T"
      unfolding T set_map by (rule imageI [OF that])
    then show ?thesis using fb(2) loc(2) [OF that] by simp
  qed
  moreover have "fst ` set ?T = (fst \<circ> snd) ` set chunk" using arg_cong [OF ids, of set] unfolding set_map by simp
  with fb(3) have "\<forall>b. b \<notin> (fst \<circ> snd) ` set chunk \<longrightarrow> view_of ?bs b v = view_of ?bs b (w_view w2)"
    by metis
  moreover have "w_view w3 = v" "w_shared w3 = w_shared w2" by (simp_all add: out(2))
  ultimately show ?thesis using out(1) by blast
qed


section \<open>Example\<close>

text \<open>A block is located by a load job; before its task runs, the key is deleted.\<close>

definition run_loading :: fs_run where
  "run_loading = (let (ls, m, w) = run_stored; (m', w') = fs_submit_load sample_mapper 2 [''b''] [2] (m, w)
     in (submit_label (fm_pool m) (fm_pool m') # ls, m', w'))"

definition run_gone :: fs_run where
  "run_gone = (let (ls, m, w) = run_loading; (_, m, w) = fs_delete True (\<lambda>_. False) sample_mapper [''b''] (m, w) in (ls, m, w))"

definition sample_chunk :: "(offload_key \<times> nat \<times> segment_location) list" where
  "sample_chunk = [(''b'', 2, \<lparr>segment_id = 0, offset = 2, loc_length = 2\<rparr>)]"

lemma run_loading_reached: "fs_reaches (Some 2) run_config None sample_mapper run_loading"
proof -
  obtain ls m w where st: "run_stored = (ls, m, w)" by (cases run_stored)
  obtain m' w' where l: "fs_submit_load sample_mapper 2 [''b''] [2] (m, w) = (m', w')" by fastforce
  have "fs_step None sample_mapper run_stored run_loading"
    unfolding st run_loading_def by (simp add: l fs_step.Load [OF l])
  with run_stored_reached show ?thesis unfolding fs_reaches_def by (meson rtranclp.rtrancl_into_rtrancl)
qed

lemma run_gone_later: "(fs_step None sample_mapper)\<^sup>*\<^sup>* run_loading run_gone"
proof -
  obtain ls m w where f: "run_loading = (ls, m, w)" by (cases run_loading)
  obtain r m' w' where d: "fs_delete True (\<lambda>_. False) sample_mapper [''b''] (m, w) = (r, m', w')" by (metis prod_cases3)
  have "fs_step None sample_mapper run_loading run_gone" unfolding run_gone_def f by (simp add: d fs_step.Delete [OF d])
  then show ?thesis by blast
qed

theorem fs_loads_deliver_witness:
  "map_of (db_blocks (w_shared (snd (snd run_gone)))) ''b'' = None \<and>
   view_of 2 2 (w_view (snd (snd (run_task sample_env (LoadMany sample_chunk) (snd run_gone))))) = ''AB''"
proof -
  obtain ls1 m1 w1 where 1: "run_loading = (ls1, m1, w1)" by (cases run_loading)
  obtain ls2 m2 w2 where 2: "run_gone = (ls2, m2, w2)" by (cases run_gone)
  obtain r m3 w3 where r: "run_task sample_env (LoadMany sample_chunk) (m2, w2) = (r, m3, w3)" by (metis prod_cases3)
  have v: "load_q (fm_pool (fst (snd run_loading))) = [(LoadMany sample_chunk, 1)]" "load_q (fm_pool (fst (snd run_gone))) = [(LoadMany sample_chunk, 1)]"
    "fst run_gone = [Submitted 1 1, Reported 0 True, CallbackRan 0 True False, TaskRan 0 True, Submitted 1 1]"
    "fm_block_size (fst (snd run_gone)) = 2" "length (w_view (snd (snd run_gone))) = 8"
    "map_of (db_blocks (w_shared (snd (snd run_gone)))) ''b'' = None"
    "content (seg_files (w_shared (snd (snd run_loading)))) 0 2 2 = ''AB''" by code_simp+
  have p: "(LoadMany sample_chunk, 1) \<in> pending (fm_pool m1)" "(LoadMany sample_chunk, 1) \<in> pending (fm_pool m2)"
    using v(1,2) by (simp_all add: 1 2 pending_def)
  have sane: "sane ls2" using v(3) by (simp add: 2 sane_def)
  have layout: "cfg_storage_layout run_config = ''segment''" by (simp add: run_config_def)
  have dst: "distinct (map (fst \<circ> snd) sample_chunk)" "\<forall>(k, b, l) \<in> set sample_chunk. block_in (fm_block_size m2) (w_view w2) b"
    using v(4,5) by (simp_all add: sample_chunk_def block_in_def 2)
  have env: "te_io sample_env = []" "te_sys sample_env = []" "0 < te_iov sample_env" by (simp_all add: sample_env_def)
  from fs_loads_deliver [OF run_loading_reached [unfolded 1] layout p(1) run_gone_later [unfolded 1 2] sane p(2) env dst r]
  have "view_of 2 2 (w_view w3) = ''AB''" using v(4,7) by (simp add: sample_chunk_def 1 2)
  with v(6) r show ?thesis by (simp add: 2)
qed

end
