(* ===== verification/Ascend_Layout_Props.thy ===== *)
theory Ascend_Layout_Props
  imports Ascend_Layout
begin

text \<open>
  A layout gives every layer its own reference, within the page of its allocation, and never
  two layers of a group the same allocation; transfers of a layout worker bring back whole
  device rows.
\<close>

section \<open>What build_layout accepts\<close>

definition layer_bytes :: "cache_layer \<Rightarrow> int" where
  "layer_bytes l = sum_list (map rv_cols (snd l))"

fun refs_from :: "nat \<Rightarrow> cache_layer list \<Rightarrow> cache_ref list" where
  "refs_from k [] = []"
| "refs_from k (l # ls) = \<lparr>tensor_idx = int k, page_size_bytes = layer_bytes l\<rparr> # refs_from (Suc k) ls"

fun refs_groups :: "nat \<Rightarrow> cache_layer list list \<Rightarrow> cache_ref list list" where
  "refs_groups k [] = []"
| "refs_groups k (ls # lss) = refs_from k ls # refs_groups (k + length ls) lss"

lemma refs_from_append: "refs_from k (ls @ ls') = refs_from k ls @ refs_from (k + length ls) ls'"
  by (induction ls arbitrary: k) simp_all

lemma concat_refs_groups: "concat (refs_groups k lss) = refs_from k (concat lss)"
  by (induction lss arbitrary: k) (simp_all add: refs_from_append)

lemma refs_from_nth: "r \<in> set (refs_from k ls) \<Longrightarrow>
    \<exists>i < length ls. tensor_idx r = int (k + i) \<and> page_size_bytes r = layer_bytes (ls ! i)"
proof (induction ls arbitrary: k)
  case (Cons l ls)
  show ?case
  proof (cases "r \<in> set (refs_from (Suc k) ls)")
    case True
    then obtain i where "i < length ls" "tensor_idx r = int (Suc k + i)" "page_size_bytes r = layer_bytes (ls ! i)" using Cons.IH by blast
    then show ?thesis by (intro exI [of _ "Suc i"]) simp
  next
    case False
    then show ?thesis using Cons.prems by (intro exI [of _ 0]) simp
  qed
qed simp

lemma tensor_idx_refs_from: "map tensor_idx (refs_from k ls) = map int [k..<k + length ls]"
  by (induction ls arbitrary: k) (simp_all add: upt_conv_Cons del: upt_Suc)

text \<open>What the views of torch give: \<open>n\<close> rows of a length.\<close>

definition views_ok :: "(int \<Rightarrow> 't \<Rightarrow> row_view result) \<Rightarrow> bool" where
  "views_ok byte_rows \<longleftrightarrow> (\<forall>n t row. byte_rows n t = Inr row \<longrightarrow> rv_rows row = n \<and> 0 \<le> rv_cols row)"

definition layer_ok :: "int \<Rightarrow> int list \<Rightarrow> cache_layer \<Rightarrow> bool" where
  "layer_ok n pages = (\<lambda>(a, rows). 0 < layer_bytes (a, rows) \<and> layer_bytes (a, rows) \<le> pages ! a \<and>
     list_all (\<lambda>row. rv_rows row = n \<and> 0 \<le> rv_cols row \<and> rv_stride1 row = 1 \<and> rv_cols row \<le> rv_stride0 row) rows)"

lemma checked_rows_ok:
  assumes "views_ok byte_rows" "map_result (checked_row byte_rows n) ts = Inr rows"
  shows "list_all (\<lambda>row. rv_rows row = n \<and> 0 \<le> rv_cols row \<and> rv_stride1 row = 1 \<and> rv_cols row \<le> rv_stride0 row) rows"
proof -
  have "list_all2 (\<lambda>t row. checked_row byte_rows n t = Inr row) ts rows" using map_result_Inr assms(2) .
  then show ?thesis
    using assms(1)
    by (induction rule: list_all2_induct) (auto simp: checked_row_def views_ok_def bind_result_def split: if_splits sum.splits)
qed

lemma add_layers_ok:
  assumes "views_ok byte_rows" "add_layers byte_rows n pages by_layer caches spec names used layers refs = Inr (layers', refs')"
  shows "\<exists>new. layers' = layers @ new \<and> refs' = refs @ refs_from (length layers) new \<and> distinct (map fst new) \<and>
           set (map fst new) \<inter> set used = {} \<and>
           list_all2 (\<lambda>name l. map_of by_layer name = Some (fst l) \<and> layer_ok n pages l) names new"
  using assms(2)
proof (induction names arbitrary: used layers refs)
  case (Cons name names)
  obtain index tensors rows where s: "map_of by_layer name = Some index" "index \<notin> set used"
    "map_result (checked_row byte_rows n) tensors = Inr rows"
    "0 < layer_bytes (index, rows)" "layer_bytes (index, rows) \<le> pages ! index"
    "add_layers byte_rows n pages by_layer caches spec names (used @ [index]) (layers @ [(index, rows)])
       (refs @ [\<lparr>tensor_idx = int (length layers), page_size_bytes = layer_bytes (index, rows)\<rparr>]) = Inr (layers', refs')"
    using Cons.prems by (auto simp: bind_result_def Let_def layer_bytes_def split: sum.splits option.splits if_splits)
  obtain new where new: "layers' = (layers @ [(index, rows)]) @ new"
    "refs' = (refs @ [\<lparr>tensor_idx = int (length layers), page_size_bytes = layer_bytes (index, rows)\<rparr>]) @ refs_from (length (layers @ [(index, rows)])) new"
    "distinct (map fst new)" "set (map fst new) \<inter> set (used @ [index]) = {}"
    "list_all2 (\<lambda>name l. map_of by_layer name = Some (fst l) \<and> layer_ok n pages l) names new"
    using Cons.IH [OF s(6)] by blast
  have "layer_ok n pages (index, rows)" using s(4,5) checked_rows_ok [OF assms(1) s(3)] by (simp add: layer_ok_def)
  then show ?case using new s by (intro exI [of _ "(index, rows) # new"]) auto
qed simp

lemma add_groups_ok:
  assumes "views_ok byte_rows" "add_groups byte_rows n pages by_layer caches gs layers groups = Inr (layers', groups')"
  shows "\<exists>news. layers' = layers @ concat news \<and> groups' = groups @ refs_groups (length layers) news \<and>
           list_all2 (\<lambda>g new. distinct (map fst new) \<and>
             list_all2 (\<lambda>name l. map_of by_layer name = Some (fst l) \<and> layer_ok n pages l) (layer_names g) new) gs news"
  using assms(2)
proof (induction gs arbitrary: layers groups)
  case (Cons g gs)
  obtain l1 refs where a: "add_layers byte_rows n pages by_layer caches (kv_cache_spec g) (layer_names g) [] layers [] = Inr (l1, refs)"
    "add_groups byte_rows n pages by_layer caches gs l1 (groups @ [refs]) = Inr (layers', groups')"
    using Cons.prems by (auto simp: bind_result_def split: sum.splits)
  obtain new where new: "l1 = layers @ new" "refs = refs_from (length layers) new" "distinct (map fst new)"
    "list_all2 (\<lambda>name l. map_of by_layer name = Some (fst l) \<and> layer_ok n pages l) (layer_names g) new"
    using add_layers_ok [OF assms(1) a(1)] by auto
  obtain news where news: "layers' = l1 @ concat news" "groups' = (groups @ [refs]) @ refs_groups (length l1) news"
    "list_all2 (\<lambda>g new. distinct (map fst new) \<and>
       list_all2 (\<lambda>name l. map_of by_layer name = Some (fst l) \<and> layer_ok n pages l) (layer_names g) new) gs news"
    using Cons.IH [OF a(2)] by blast
  show ?case using new news by (intro exI [of _ "new # news"]) simp
qed simp

definition placed :: "cache_allocation list \<Rightarrow> (string \<times> nat) list \<Rightarrow> bool" where
  "placed as by_layer \<longleftrightarrow> (\<forall>name i. map_of by_layer name = Some i \<longleftrightarrow> i < length as \<and> name \<in> set (shared_by (as ! i)))"

lemma place_layers_ok:
  assumes "place_layers index names by_layer = Inr by_layer'"
  shows "map_of by_layer' name = (if name \<in> set names then Some index else map_of by_layer name)"
    and "name \<in> set names \<Longrightarrow> map_of by_layer name = None"
  using assms
proof (induction names arbitrary: by_layer)
  case (Cons a names)
  case 1
  show ?case using Cons.IH(1) 1 by (auto simp: AList.update_conv' split: if_splits)
  case 2
  show ?case
  proof (cases "name = a")
    case True then show ?thesis using 2 by (auto split: if_splits)
  next
    case False
    then show ?thesis using Cons.IH(2) [of "AList.update a index by_layer"] 2 by (auto simp: AList.update_conv' split: if_splits)
  qed
qed simp_all

lemma place_allocations_ok:
  assumes "place_allocations n as pages by_layer = Inr (pages', by_layer')" "placed pref by_layer" "length pages = length pref"
  shows "pages' = pages @ map (\<lambda>a. alloc_size a div n) as \<and> placed (pref @ as) by_layer'"
  using assms
proof (induction as arbitrary: pages by_layer pref)
  case (Cons a as)
  obtain bl where b: "place_layers (length pages) (shared_by a) by_layer = Inr bl"
    "place_allocations n as (pages @ [alloc_size a div n]) bl = Inr (pages', by_layer')"
    using Cons.prems(1) by (auto simp: bind_result_def split: if_splits sum.splits)
  have "placed (pref @ [a]) bl"
    unfolding placed_def
  proof (intro allI)
    fix name i
    have p: "map_of by_layer name = Some i \<longleftrightarrow> i < length pref \<and> name \<in> set (shared_by (pref ! i))" for i
      using Cons.prems(2) unfolding placed_def by blast
    show "map_of bl name = Some i \<longleftrightarrow> i < length (pref @ [a]) \<and> name \<in> set (shared_by ((pref @ [a]) ! i))"
    proof (cases "name \<in> set (shared_by a)")
      case True
      then have "\<not> (i < length pref \<and> name \<in> set (shared_by (pref ! i)))" using p [of i] place_layers_ok(2) [OF b(1)] by simp
      with True show ?thesis using place_layers_ok(1) [OF b(1), of name] Cons.prems(3)
        by (auto simp: nth_append less_Suc_eq)
    next
      case False
      then show ?thesis using place_layers_ok(1) [OF b(1), of name] p [of i] by (auto simp: nth_append less_Suc_eq)
    qed
  qed
  from Cons.IH [OF b(2) this] Cons.prems(3) show ?case by simp
qed simp

lemma build_layout_facts:
  assumes "views_ok byte_rows" "build_layout byte_rows n allocations cache_groups caches = Inr layout"
  shows "page_sizes layout = map (\<lambda>a. alloc_size a div n) allocations"
    and "list_all2 (\<lambda>name l. fst l < length allocations \<and> name \<in> set (shared_by (allocations ! fst l)) \<and> layer_ok n (page_sizes layout) l)
           (concat (map layer_names cache_groups)) (layout_layers layout)"
    and "\<exists>news. layout_layers layout = concat news \<and> group_data_refs layout = refs_groups 0 news \<and>
           (\<forall>new \<in> set news. distinct (map fst new))"
proof -
  obtain pages by_layer where a: "place_allocations n allocations [] [] = Inr (pages, by_layer)"
    "add_groups byte_rows n pages by_layer caches cache_groups [] [] = Inr (layout_layers layout, group_data_refs layout)"
    "page_sizes layout = pages"
    using assms(2) by (auto simp: build_layout_def bind_result_def split: if_splits sum.splits)
  have p: "pages = map (\<lambda>a. alloc_size a div n) allocations" "placed allocations by_layer"
    using place_allocations_ok [OF a(1), of "[]"] by (auto simp: placed_def)
  show "page_sizes layout = map (\<lambda>a. alloc_size a div n) allocations" using a(3) p(1) by simp
  obtain news where news: "layout_layers layout = concat news" "group_data_refs layout = refs_groups 0 news"
    "list_all2 (\<lambda>g new. distinct (map fst new) \<and>
       list_all2 (\<lambda>name l. map_of by_layer name = Some (fst l) \<and> layer_ok n pages l) (layer_names g) new) cache_groups news"
    using add_groups_ok [OF assms(1) a(2)] by auto
  have "list_all2 (\<lambda>name l. map_of by_layer name = Some (fst l) \<and> layer_ok n pages l) (concat (map layer_names cache_groups)) (concat news)"
    using news(3) by (induction rule: list_all2_induct) (auto intro: list_all2_appendI)
  then show "list_all2 (\<lambda>name l. fst l < length allocations \<and> name \<in> set (shared_by (allocations ! fst l)) \<and> layer_ok n (page_sizes layout) l)
           (concat (map layer_names cache_groups)) (layout_layers layout)"
    unfolding news(1) a(3) by (rule list_all2_mono) (use p(2) in \<open>auto simp: placed_def\<close>)
  have "\<forall>new \<in> set news. distinct (map fst new)"
    using news(3) by (induction rule: list_all2_induct) auto
  with news show "\<exists>news. layout_layers layout = concat news \<and> group_data_refs layout = refs_groups 0 news \<and>
           (\<forall>new \<in> set news. distinct (map fst new))" by blast
qed

text \<open>C27: A layout that \<open>build_layout\<close> accepts has one page for each allocation and one layer for
each named layer of the groups, in their order; each layer lies in the allocation that is
shared by its name, its rows are contiguous, one for each block, and together fit its page;
its reference carries its position and its size; and the layers of one group lie in
different allocations.\<close>

theorem build_layout_correct:
  assumes "views_ok byte_rows" "build_layout byte_rows n allocations cache_groups caches = Inr layout"
  shows "page_sizes layout = map (\<lambda>a. alloc_size a div n) allocations \<and>
    list_all2 (\<lambda>name l. fst l < length allocations \<and> name \<in> set (shared_by (allocations ! fst l)) \<and> layer_ok n (page_sizes layout) l)
      (concat (map layer_names cache_groups)) (layout_layers layout) \<and>
    (\<exists>news. layout_layers layout = concat news \<and> group_data_refs layout = refs_groups 0 news \<and>
       (\<forall>new \<in> set news. distinct (map fst new)))"
  using build_layout_facts [OF assms] by blast

text \<open>Two allocations; layers \<open>k0\<close> and \<open>m0\<close>, of different groups, share the first one.\<close>

definition sample_rows :: "int \<Rightarrow> nat \<Rightarrow> row_view result" where
  "sample_rows n cols = Inr \<lparr>rv_rows = n, rv_cols = int cols, rv_stride0 = int cols, rv_stride1 = 1, rv_device = (''npu'', 0)\<rparr>"

definition sample_allocations :: "cache_allocation list" where
  "sample_allocations = [\<lparr>block_stride = 0, alloc_size = 32, shared_by = [''k0'', ''m0'']\<rparr>, \<lparr>block_stride = 0, alloc_size = 24, shared_by = [''k1'']\<rparr>]"

definition sample_groups :: "cache_group list" where
  "sample_groups = [\<lparr>layer_names = [''k0'', ''k1''], kv_cache_spec = Uniform_Specs [(''k0'', Attention_Spec 4), (''k1'', Attention_Spec 3)]\<rparr>,
     \<lparr>layer_names = [''m0''], kv_cache_spec = One_Spec (Mamba_Spec 4)\<rparr>]"

definition sample_caches :: "(string \<times> nat layer_cache) list" where
  "sample_caches = [(''k0'', Tensor_Seq [2, 2]), (''k1'', One_Tensor 3), (''m0'', Tensor_Seq [1, 2])]"

definition sample_layout :: ascend_layout where
  "sample_layout = (case build_layout sample_rows 8 sample_allocations sample_groups sample_caches of
     Inr l \<Rightarrow> l | Inl _ \<Rightarrow> \<lparr>page_sizes = [], layout_layers = [], group_data_refs = []\<rparr>)"

lemma sample_layout_ok: "build_layout sample_rows 8 sample_allocations sample_groups sample_caches = Inr sample_layout"
  by code_simp

lemma sample_views: "views_ok sample_rows"
  by (auto simp: views_ok_def sample_rows_def)

theorem build_layout_correct_witness:
  "page_sizes sample_layout = [4, 3] \<and> map fst (layout_layers sample_layout) = [0, 1, 0] \<and>
   list_all2 (\<lambda>name l. fst l < 2 \<and> name \<in> set (shared_by (sample_allocations ! fst l)) \<and> layer_ok 8 [4, 3] l)
     [''k0'', ''k1'', ''m0''] (layout_layers sample_layout)"
proof -
  note b = build_layout_correct [OF sample_views sample_layout_ok]
  have v: "concat (map layer_names sample_groups) = [''k0'', ''k1'', ''m0'']" "length sample_allocations = 2"
    "map (\<lambda>a. alloc_size a div 8) sample_allocations = [4, 3]" "map fst (layout_layers sample_layout) = [0, 1, 0]" by code_simp+
  show ?thesis using b v(4) unfolding v(1-3) by metis
qed

section \<open>Plans over a layout\<close>

text \<open>Renaming the tensors of the references renames them in the plan.\<close>

definition retag :: "(int \<Rightarrow> int) \<Rightarrow> cache_ref \<Rightarrow> cache_ref" where
  "retag h r = r\<lparr>tensor_idx := h (tensor_idx r)\<rparr>"

definition retag_entry :: "(int \<Rightarrow> int) \<Rightarrow> plan_entry \<Rightarrow> plan_entry" where
  "retag_entry h e = e\<lparr>pe_tensor := h (pe_tensor e)\<rparr>"

lemma group_entries_retag:
  "group_entries factor gi ci go co n skip (map (retag h) grp) = map (retag_entry h) (group_entries factor gi ci go co n skip grp)"
  by (simp add: group_entries_def map_concat comp_def retag_def retag_entry_def)

lemma plan_groups_retag:
  "plan_groups factor gi ci szs lgs grps go co plan = Inr (p, x) \<Longrightarrow>
     plan_groups factor gi ci szs lgs (map (map (retag h)) grps) go co (map (retag_entry h) plan) = Inr (map (retag_entry h) p, x)"
  by (induction factor gi ci szs lgs grps go co plan rule: plan_groups.induct)
    (auto simp: Let_def group_entries_retag split: if_splits)

lemma copy_plan_retag:
  "copy_plan gpu ci refs factor = Inr plan \<Longrightarrow> copy_plan gpu ci (map (map (retag h)) refs) factor = Inr (map (retag_entry h) plan)"
proof -
  assume a: "copy_plan gpu ci refs factor = Inr plan"
  then have f: "\<not> (factor < 1 \<or> length (group_sizes gpu) \<noteq> length refs)" by (auto simp: copy_plan_def split: if_splits)
  obtain go co where p: "plan_groups factor (gpu_block_ids gpu) ci (group_sizes gpu) (block_indices gpu) refs 0 0 [] = Inr (plan, go, co)"
    "go = int (length (gpu_block_ids gpu)) \<and> co = int (length ci)"
    using a by (auto simp: copy_plan_def bind_result_def split: if_splits sum.splits)
  from plan_groups_retag [OF p(1), of h] p(2) f show ?thesis by (simp add: copy_plan_def bind_result_def)
qed

text \<open>What the references of a layout give for its plans.\<close>

definition layout_good :: "int \<Rightarrow> ascend_layout \<Rightarrow> bool" where
  "layout_good n layout \<longleftrightarrow>
     list_all (\<lambda>l. fst l < length (page_sizes layout) \<and> layer_ok n (page_sizes layout) l) (layout_layers layout) \<and>
     (\<exists>news. layout_layers layout = concat news \<and> group_data_refs layout = refs_groups 0 news \<and> (\<forall>new \<in> set news. distinct (map fst new)))"

lemma build_layout_good:
  assumes "views_ok byte_rows" "build_layout byte_rows n allocations cache_groups caches = Inr layout"
  shows "layout_good n layout"
proof -
  note f = build_layout_facts [OF assms]
  have "list_all (\<lambda>l. fst l < length (page_sizes layout) \<and> layer_ok n (page_sizes layout) l) (layout_layers layout)"
    using f(2) by (auto simp: list_all2_conv_all_nth list_all_length f(1))
  with f(3) show ?thesis by (simp add: layout_good_def)
qed

lemma refs_groups_groups:
  assumes "grp \<in> set (refs_groups k news)" "\<forall>new \<in> set news. distinct (map fst new)"
  shows "\<exists>k' new. new \<in> set news \<and> grp = refs_from k' new \<and> k \<le> k' \<and> k' + length new \<le> k + length (concat news) \<and>
           (\<forall>i < length new. concat news ! (k' - k + i) = new ! i)"
  using assms
proof (induction news arbitrary: k)
  case (Cons new news)
  show ?case
  proof (cases "grp \<in> set (refs_groups (k + length new) news)")
    case True
    then obtain k' new' where k': "new' \<in> set news" "grp = refs_from k' new'" "k + length new \<le> k'"
      "k' + length new' \<le> k + length new + length (concat news)" "\<forall>i < length new'. concat news ! (k' - (k + length new) + i) = new' ! i"
      using Cons.IH Cons.prems(2) by fastforce
    have "concat (new # news) ! (k' - k + i) = new' ! i" if "i < length new'" for i
    proof -
      have "k' - k + i = length new + (k' - (k + length new) + i)" using k'(3) by simp
      then show ?thesis using k'(5) that by (simp add: nth_append)
    qed
    with k' show ?thesis by (intro exI [of _ k'] exI [of _ new']) auto
  next
    case False
    then have "grp = refs_from k new" using Cons.prems(1) by simp
    then show ?thesis by (intro exI [of _ k] exI [of _ new]) (simp add: nth_append)
  qed
qed simp

definition layer_alloc :: "ascend_layout \<Rightarrow> int \<Rightarrow> int" where
  "layer_alloc layout t = int (fst (layout_layers layout ! nat t))"

lemma map_int_distinct: "distinct (map int xs) = distinct xs"
  by (simp add: distinct_map)

lemma tensor_refs_from_alloc:
  assumes "\<forall>i < length new. layout_layers layout ! (k + i) = new ! i"
  shows "map (layer_alloc layout \<circ> tensor_idx) (refs_from k new) = map (int \<circ> fst) new"
  using assms
proof (induction new arbitrary: k)
  case (Cons l new)
  have "layout_layers layout ! k = l" using Cons.prems by force
  moreover have "\<forall>i < length new. layout_layers layout ! (Suc k + i) = new ! i" using Cons.prems by force
  ultimately show ?case using Cons.IH by (simp add: layer_alloc_def)
qed simp

lemma layout_plan_facts:
  assumes "layout_good n layout" "copy_plan gpu ci (group_data_refs layout) factor = Inr plan"
  shows "e \<in> set plan \<Longrightarrow> 0 \<le> pe_tensor e \<and> nat (pe_tensor e) < length (layout_layers layout) \<and>
           pe_size e = layer_bytes (layout_layers layout ! nat (pe_tensor e)) \<and> 0 \<le> pe_sub e \<and> pe_sub e < factor \<and>
           pe_device e \<in> set (gpu_block_ids gpu) \<and> pe_cpu e \<in> set ci"
    and "distinct (gpu_block_ids gpu) \<Longrightarrow> distinct (map (\<lambda>e. (pe_tensor e, pe_device e)) plan)"
    and "distinct ci \<Longrightarrow> distinct (map (\<lambda>e. (layer_alloc layout (pe_tensor e), pe_cpu e, pe_sub e)) plan)"
proof -
  let ?refs = "group_data_refs layout"
  obtain news where news: "layout_layers layout = concat news" "?refs = refs_groups 0 news" "\<forall>new \<in> set news. distinct (map fst new)"
    using assms(1) by (auto simp: layout_good_def)
  obtain ps where ps: "plan = map (entry_at (gpu_block_ids gpu) ci) ps"
    "pos_ok factor ?refs 0 0 (int (length (gpu_block_ids gpu))) (int (length ci)) ps"
    using copy_plan_positions(2) [OF assms(2)] by blast
  have grp: "\<exists>k' new. new \<in> set news \<and> grp = refs_from k' new \<and> (\<forall>i < length new. layout_layers layout ! (k' + i) = new ! i)"
    if "grp \<in> set ?refs" for grp
    using refs_groups_groups [OF that [unfolded news(2)] news(3)] by (auto simp: news(1))
  have d: "\<forall>grp \<in> set ?refs. distinct (map tensor_idx grp)"
    using grp by (metis distinct_upt map_int_distinct tensor_idx_refs_from)
  show "distinct (gpu_block_ids gpu) \<Longrightarrow> distinct (map (\<lambda>e. (pe_tensor e, pe_device e)) plan)"
    using entry_at_distinct(1) [OF ps(2) d] unfolding ps(1) .
  have d': "\<forall>grp \<in> set (map (map (retag (layer_alloc layout))) ?refs). distinct (map tensor_idx grp)"
  proof clarsimp
    fix g assume "g \<in> set ?refs"
    then obtain k' new where g: "new \<in> set news" "g = refs_from k' new" "\<forall>i < length new. layout_layers layout ! (k' + i) = new ! i"
      using grp by blast
    have "distinct (map (layer_alloc layout \<circ> tensor_idx) g)"
      unfolding g(2) tensor_refs_from_alloc [OF g(3)] using news(3) g(1) by (simp add: map_int_distinct flip: map_map)
    then show "distinct (map (tensor_idx \<circ> retag (layer_alloc layout)) g)" by (simp add: retag_def comp_def)
  qed
  obtain qs where qs: "map (retag_entry (layer_alloc layout)) plan = map (entry_at (gpu_block_ids gpu) ci) qs"
    "pos_ok factor (map (map (retag (layer_alloc layout))) ?refs) 0 0 (int (length (gpu_block_ids gpu))) (int (length ci)) qs"
    using copy_plan_positions(2) [OF copy_plan_retag [OF assms(2)]] by blast
  show "distinct (map (\<lambda>e. (layer_alloc layout (pe_tensor e), pe_cpu e, pe_sub e)) plan)" if "distinct ci"
    using entry_at_distinct(2) [OF qs(2) d' that] unfolding qs(1) [symmetric] by (simp add: retag_entry_def comp_def)
  assume "e \<in> set plan"
  then obtain r g c s where e: "(r, g, c, s) \<in> set ps" "e = entry_at (gpu_block_ids gpu) ci (r, g, c, s)" unfolding ps(1) by auto
  then have p: "r \<in> set (concat ?refs)" "0 \<le> g" "g < int (length (gpu_block_ids gpu))" "0 \<le> c" "c < int (length ci)" "0 \<le> s" "s < factor"
    using ps(2) by (auto simp: pos_ok_def)
  obtain i where "i < length (layout_layers layout)" "tensor_idx r = int i" "page_size_bytes r = layer_bytes (layout_layers layout ! i)"
    using refs_from_nth [of r 0 "concat news"] p(1) by (auto simp: news concat_refs_groups)
  then show "0 \<le> pe_tensor e \<and> nat (pe_tensor e) < length (layout_layers layout) \<and>
           pe_size e = layer_bytes (layout_layers layout ! nat (pe_tensor e)) \<and> 0 \<le> pe_sub e \<and> pe_sub e < factor \<and>
           pe_device e \<in> set (gpu_block_ids gpu) \<and> pe_cpu e \<in> set ci"
    using p e(2) by (simp add: entry_at_def)
qed

end
