(* ===== verification/Ascend_Layout_Transfer.thy ===== *)
theory Ascend_Layout_Transfer
  imports Ascend_Layout_Props
begin

text \<open>
  Transfers of a layout worker: the rows of a layer are packed into its sub-block of the CPU
  page without overlap, and a load brings back every byte that a store has saved.
\<close>

section \<open>The spans of a layer\<close>

fun packed :: "nat \<Rightarrow> int \<Rightarrow> int \<Rightarrow> nat \<Rightarrow> row_view list \<Rightarrow> int \<Rightarrow> span list" where
  "packed t block cpu_block u [] offset = []"
| "packed t block cpu_block u (row # rows) offset =
     (\<lparr>rs_tensor = t, rs_row = nat block, rs_start = 0, rs_len = nat (rv_cols row)\<rparr>,
      \<lparr>rs_tensor = u, rs_row = nat cpu_block, rs_start = nat offset, rs_len = nat (rv_cols row)\<rparr>)
     # packed (Suc t) block cpu_block u rows (offset + rv_cols row)"

lemma row_spans_packed:
  assumes "row_spans t block cpu_block u cpu rows offset = Inr sp" "0 \<le> offset" "\<forall>row \<in> set rows. 0 \<le> rv_cols row"
    "offset + sum_list (map rv_cols rows) \<le> dim_cols cpu"
  shows "sp = packed t block cpu_block u rows offset \<and> (\<forall>row \<in> set rows. 0 \<le> block \<and> block < rv_rows row)"
  using assms
proof (induction rows arbitrary: t offset sp)
  case (Cons row rows)
  obtain sp' where sp': "row_spans (Suc t) block cpu_block u cpu rows (offset + rv_cols row) = Inr sp'"
    "sp = (slice_of t block 0 (rv_cols row) (rv_cols row), slice_of u cpu_block offset (rv_cols row) (dim_cols cpu)) # sp'"
    "0 \<le> block" "block < rv_rows row"
    using Cons.prems(1) by (auto simp: bind_result_def split: if_splits sum.splits)
  have nn: "0 \<le> sum_list (map rv_cols rows)" using Cons.prems(3) by (intro sum_list_nonneg) auto
  have "offset + rv_cols row \<le> dim_cols cpu" "offset \<le> dim_cols cpu" using Cons.prems nn by auto
  then show ?case using Cons.IH [OF sp'(1)] Cons.prems sp' by (simp add: slice_of_def)
qed simp

lemma packed_spans:
  assumes "(d, c) \<in> set (packed t block cpu_block u rows offset)" "0 \<le> offset" "\<forall>row \<in> set rows. 0 \<le> rv_cols row"
  shows "rs_len d = rs_len c \<and> rs_tensor c = u \<and> rs_row c = nat cpu_block \<and> nat offset \<le> rs_start c \<and>
           rs_start c + rs_len c \<le> nat (offset + sum_list (map rv_cols rows)) \<and>
           rs_row d = nat block \<and> rs_start d = 0 \<and> t \<le> rs_tensor d \<and> rs_tensor d < t + length rows \<and>
           rs_len d = nat (rv_cols (rows ! (rs_tensor d - t)))"
  using assms
proof (induction rows arbitrary: t offset)
  case (Cons row rows)
  have nn: "0 \<le> sum_list (map rv_cols rows)" using Cons.prems(3) by (intro sum_list_nonneg) auto
  show ?case
  proof (cases "(d, c) \<in> set (packed (Suc t) block cpu_block u rows (offset + rv_cols row))")
    case True
    then have i: "rs_len d = rs_len c \<and> rs_tensor c = u \<and> rs_row c = nat cpu_block \<and> nat (offset + rv_cols row) \<le> rs_start c \<and>
           rs_start c + rs_len c \<le> nat (offset + rv_cols row + sum_list (map rv_cols rows)) \<and>
           rs_row d = nat block \<and> rs_start d = 0 \<and> Suc t \<le> rs_tensor d \<and> rs_tensor d < Suc t + length rows \<and>
           rs_len d = nat (rv_cols (rows ! (rs_tensor d - Suc t)))"
      using Cons.IH [OF True] Cons.prems(2,3) by simp
    then have "rs_tensor d - t = Suc (rs_tensor d - Suc t)" by linarith
    moreover have "nat offset \<le> nat (offset + rv_cols row)" using Cons.prems(3) by (intro nat_mono) simp
    ultimately show ?thesis using i Cons.prems(2,3) by (simp add: algebra_simps)
  next
    case False
    then show ?thesis using Cons.prems nn by auto
  qed
qed simp

lemma packed_later:
  assumes "(d, c) \<in> set (packed (Suc t) block cpu_block u rows (offset + rv_cols row))" "0 \<le> offset"
    "\<forall>row \<in> set (row # rows). 0 \<le> rv_cols row"
  shows "nat offset + nat (rv_cols row) \<le> rs_start c \<and> Suc t \<le> rs_tensor d"
  using packed_spans [OF assms(1)] assms(2,3) by (simp add: nat_add_distrib)

lemma packed_apart:
  assumes "0 \<le> offset" "\<forall>row \<in> set rows. 0 \<le> rv_cols row"
  shows "sorted_wrt (\<lambda>x y. apart (snd x) (snd y) \<and> apart (fst x) (fst y)) (packed t block cpu_block u rows offset)"
  using assms
proof (induction rows arbitrary: t offset)
  case (Cons row rows)
  have "0 \<le> offset + rv_cols row" using Cons.prems by simp
  then show ?case
    using Cons.IH Cons.prems packed_later [OF _ Cons.prems] by (fastforce simp: apart_def)
qed simp

section \<open>The spans of a plan\<close>

definition entry_spans :: "ascend_layout \<Rightarrow> plan_entry \<Rightarrow> span list" where
  "entry_spans layout e =
     (let i = nat (pe_tensor e); (a, rows) = layout_layers layout ! i
      in packed (first_row (layout_layers layout) i) (pe_device e) (pe_cpu e) a rows (pe_sub e * (page_sizes layout ! a)))"

definition layout_worker :: "int \<Rightarrow> ascend_layout \<Rightarrow> copy_worker \<Rightarrow> bool" where
  "layout_worker n layout cw \<longleftrightarrow> layout_good n layout \<and> cw_refs cw = group_data_refs layout \<and>
     device_tensors cw = map (\<lambda>row. \<lparr>dim_rows = rv_rows row, dim_cols = rv_cols row\<rparr>) (concat (map snd (layout_layers layout))) \<and>
     map dim_cols (cpu_tensors cw) = map (\<lambda>page. page * cw_factor cw) (page_sizes layout)"

lemma make_layout_worker_ok:
  assumes "make_layout_worker next_view layout factor = Inr cw" "layout_good n layout" "\<And>n. dim_cols (next_view n) = n"
  shows "layout_worker n layout cw \<and> fresh_worker cw"
  using assms by (auto simp: make_layout_worker_def layout_worker_def fresh_worker_def Let_def split: if_splits)

definition layout_range :: "ascend_layout \<Rightarrow> copy_worker \<Rightarrow> plan_entry \<Rightarrow> bool" where
  "layout_range layout cw e \<longleftrightarrow>
     (let i = nat (pe_tensor e); (a, rows) = layout_layers layout ! i
      in 0 \<le> pe_tensor e \<and> i < length (layout_layers layout) \<and> 0 \<le> pe_cpu e \<and> pe_cpu e < dim_rows (cpu_tensors cw ! a) \<and>
         0 \<le> pe_device e \<and> (\<forall>row \<in> set rows. pe_device e < rv_rows row) \<and> 0 \<le> pe_sub e \<and> pe_sub e < cw_factor cw)"

lemma layout_layerD:
  assumes "layout_good n layout" "i < length (layout_layers layout)" "layout_layers layout ! i = (a, rows)"
  shows "a < length (page_sizes layout)" "0 < sum_list (map rv_cols rows)" "sum_list (map rv_cols rows) \<le> page_sizes layout ! a"
    "\<forall>row \<in> set rows. 0 \<le> rv_cols row" "\<forall>row \<in> set rows. rv_rows row = n" "rows \<noteq> []"
proof -
  have "fst (a, rows) < length (page_sizes layout) \<and> layer_ok n (page_sizes layout) (a, rows)"
    using assms(1,2) unfolding layout_good_def list_all_length assms(3) [symmetric] by blast
  then show "a < length (page_sizes layout)" "0 < sum_list (map rv_cols rows)" "sum_list (map rv_cols rows) \<le> page_sizes layout ! a"
    "\<forall>row \<in> set rows. 0 \<le> rv_cols row" "\<forall>row \<in> set rows. rv_rows row = n" "rows \<noteq> []"
    by (auto simp: layer_ok_def layer_bytes_def list_all_iff)
qed

lemma layout_entry_spans:
  assumes "layout_worker n layout cw" "0 \<le> pe_tensor e" "nat (pe_tensor e) < length (layout_layers layout)"
    "0 \<le> pe_sub e" "pe_sub e < cw_factor cw" "layout_entry layout cw e = Inr sp"
  shows "sp = entry_spans layout e \<and> layout_range layout cw e"
proof -
  define i where "i = nat (pe_tensor e)"
  obtain a rows where l: "layout_layers layout ! i = (a, rows)" by (cases "layout_layers layout ! i")
  have g: "layout_good n layout" using assms(1) by (simp add: layout_worker_def)
  note L = layout_layerD [OF g assms(3) [folded i_def] l]
  have m: "map dim_cols (cpu_tensors cw) = map (\<lambda>page. page * cw_factor cw) (page_sizes layout)"
    using assms(1) by (simp add: layout_worker_def)
  have cpu: "a < length (cpu_tensors cw)" using L(1) arg_cong [OF m, of length] by simp
  have cpu_a: "dim_cols (cpu_tensors cw ! a) = page_sizes layout ! a * cw_factor cw"
    using arg_cong [OF m, of "\<lambda>xs. xs ! a"] cpu L(1) by simp
  have d: "py_nth (layout_layers layout) (pe_tensor e) = Inr (i, a, rows)" "py_nth (cpu_tensors cw) (int a) = Inr (a, cpu_tensors cw ! a)"
    using assms(2,3) l cpu by (auto simp: py_nth_def Let_def i_def)
  have r: "row_spans (first_row (layout_layers layout) i) (pe_device e) (pe_cpu e) a (cpu_tensors cw ! a) rows (pe_sub e * (page_sizes layout ! a)) = Inr sp"
    "0 \<le> pe_cpu e" "pe_cpu e < dim_rows (cpu_tensors cw ! a)"
    using assms(6) unfolding layout_entry_def d bind_result_def sum.case prod.case by (auto split: if_splits)
  have fit: "pe_sub e * (page_sizes layout ! a) + sum_list (map rv_cols rows) \<le> dim_cols (cpu_tensors cw ! a)"
    using sub_page_fits [of "e\<lparr>pe_size := sum_list (map rv_cols rows)\<rparr>" "cw_factor cw" "page_sizes layout ! a"] L(2,3) assms(5)
    by (simp add: cpu_a)
  have "0 \<le> pe_sub e * (page_sizes layout ! a)" using assms(4) L(2,3) by simp
  note s = row_spans_packed [OF r(1) this L(4) fit]
  then show ?thesis
    using assms(2-5) r(2,3) l L(6) unfolding entry_spans_def layout_range_def Let_def i_def [symmetric]
    by (cases rows) auto
qed

lemma layout_spans_entries:
  assumes "layout_worker n layout cw" "copy_plan gpu ci (cw_refs cw) (cw_factor cw) = Inr plan" "layout_spans layout cw plan = Inr sp"
  shows "sp = concat (map (entry_spans layout) plan) \<and> list_all (layout_range layout cw) plan"
proof -
  have g: "layout_good n layout" "cw_refs cw = group_data_refs layout" using assms(1) by (auto simp: layout_worker_def)
  obtain sps where sps: "map_result (layout_entry layout cw) plan = Inr sps" "sp = concat sps"
    using assms(3) by (auto simp: layout_spans_def bind_result_def split: sum.splits)
  have e: "layout_entry layout cw e = Inr x \<Longrightarrow> x = entry_spans layout e \<and> layout_range layout cw e" if "e \<in> set plan" for e x
    using layout_plan_facts(1) [OF g(1) assms(2) [unfolded g(2)] that] layout_entry_spans [OF assms(1), of e x] by simp
  have "list_all2 (\<lambda>e s. layout_entry layout cw e = Inr s) plan sps" using map_result_Inr sps(1) .
  then have "sps = map (entry_spans layout) plan \<and> list_all (layout_range layout cw) plan"
    using e by (induction rule: list_all2_induct) auto
  with sps(2) show ?thesis by simp
qed

lemma first_row_fits:
  assumes "i < length layers" "layers ! i = (a, rows)" "k < length rows"
  shows "first_row layers i + k < length (concat (map snd layers)) \<and> concat (map snd layers) ! (first_row layers i + k) = rows ! k"
proof -
  have "layers = take i layers @ (a, rows) # drop (Suc i) layers" using assms(1,2) by (metis id_take_nth_drop)
  then have "concat (map snd layers) = concat (map snd (take i layers)) @ rows @ concat (map snd (drop (Suc i) layers))"
    by (metis concat.simps(2) concat_append list.simps(9) map_append snd_conv)
  then show ?thesis using assms(3) by (simp add: first_row_def nth_append)
qed

lemma first_row_mono: "i < j \<Longrightarrow> j < length layers \<Longrightarrow> first_row layers i + length (snd (layers ! i)) \<le> first_row layers j"
proof -
  assume a: "i < j" "j < length layers"
  have "first_row layers (Suc i) \<le> first_row layers j"
    unfolding first_row_def using a(1) take_add [of "Suc i" "j - Suc i" layers] by simp
  moreover have "first_row layers (Suc i) = first_row layers i + length (snd (layers ! i))"
    using a by (simp add: first_row_def take_Suc_conv_app_nth)
  ultimately show ?thesis by simp
qed

lemma entry_spans_facts:
  assumes "layout_worker n layout cw" "layout_range layout cw e" "(d, c) \<in> set (entry_spans layout e)"
    "layout_layers layout ! nat (pe_tensor e) = (a, rows)"
  shows "rs_len d = rs_len c" "rs_tensor c = a" "rs_row c = nat (pe_cpu e)"
    "nat (pe_sub e * (page_sizes layout ! a)) \<le> rs_start c" "rs_start c + rs_len c \<le> nat ((pe_sub e + 1) * (page_sizes layout ! a))"
    "rs_row d = nat (pe_device e)" "rs_start d = 0"
    "first_row (layout_layers layout) (nat (pe_tensor e)) \<le> rs_tensor d"
    "rs_tensor d < first_row (layout_layers layout) (nat (pe_tensor e)) + length rows"
    "rs_len d = nat (rv_cols (rows ! (rs_tensor d - first_row (layout_layers layout) (nat (pe_tensor e)))))"
proof -
  have g: "layout_good n layout" using assms(1) by (simp add: layout_worker_def)
  have i: "nat (pe_tensor e) < length (layout_layers layout)" and s0: "0 \<le> pe_sub e" using assms(2,4) by (auto simp: layout_range_def Let_def)
  note L = layout_layerD [OF g i assms(4)]
  have o: "0 \<le> pe_sub e * (page_sizes layout ! a)" using s0 L(2,3) by simp
  have "(d, c) \<in> set (packed (first_row (layout_layers layout) (nat (pe_tensor e))) (pe_device e) (pe_cpu e) a rows (pe_sub e * (page_sizes layout ! a)))"
    using assms(3,4) by (simp add: entry_spans_def Let_def)
  note p = packed_spans [OF this o L(4)]
  have "nat (pe_sub e * (page_sizes layout ! a) + sum_list (map rv_cols rows)) \<le> nat ((pe_sub e + 1) * (page_sizes layout ! a))"
    using L(3) by (intro nat_mono) (simp add: algebra_simps)
  with p show "rs_len d = rs_len c" "rs_tensor c = a" "rs_row c = nat (pe_cpu e)"
    "nat (pe_sub e * (page_sizes layout ! a)) \<le> rs_start c" "rs_start c + rs_len c \<le> nat ((pe_sub e + 1) * (page_sizes layout ! a))"
    "rs_row d = nat (pe_device e)" "rs_start d = 0"
    "first_row (layout_layers layout) (nat (pe_tensor e)) \<le> rs_tensor d"
    "rs_tensor d < first_row (layout_layers layout) (nat (pe_tensor e)) + length rows"
    "rs_len d = nat (rv_cols (rows ! (rs_tensor d - first_row (layout_layers layout) (nat (pe_tensor e)))))"
    by auto
qed

lemma sorted_wrt_concat:
  assumes "\<forall>xs \<in> set xss. sorted_wrt R xs" "sorted_wrt (\<lambda>xs ys. \<forall>x \<in> set xs. \<forall>y \<in> set ys. R x y) xss"
  shows "sorted_wrt R (concat xss)"
  using assms by (induction xss) (auto simp: sorted_wrt_append)

lemma entry_spans_apart:
  assumes "layout_worker n layout cw" "layout_range layout cw e"
  shows "sorted_wrt (\<lambda>x y. apart (snd x) (snd y) \<and> apart (fst x) (fst y)) (entry_spans layout e)"
proof -
  obtain a rows where l: "layout_layers layout ! nat (pe_tensor e) = (a, rows)" by (cases "layout_layers layout ! nat (pe_tensor e)")
  have i: "nat (pe_tensor e) < length (layout_layers layout)" and s0: "0 \<le> pe_sub e" using assms(2) l by (auto simp: layout_range_def Let_def)
  have g: "layout_good n layout" using assms(1) by (simp add: layout_worker_def)
  note L = layout_layerD [OF g i l]
  have "0 \<le> pe_sub e * (page_sizes layout ! a)" using s0 L(2,3) by simp
  from packed_apart [OF this L(4)] show ?thesis using l by (simp add: entry_spans_def Let_def)
qed

text \<open>Two entries at different places have spans apart, on either side.\<close>

lemma entries_apart_cpu:
  assumes "layout_worker n layout cw" "layout_range layout cw e" "layout_range layout cw e'"
    "(layer_alloc layout (pe_tensor e), pe_cpu e, pe_sub e) \<noteq> (layer_alloc layout (pe_tensor e'), pe_cpu e', pe_sub e')"
    "(d, c) \<in> set (entry_spans layout e)" "(d', c') \<in> set (entry_spans layout e')"
  shows "apart c c'"
proof -
  obtain a rows where l: "layout_layers layout ! nat (pe_tensor e) = (a, rows)" by (cases "layout_layers layout ! nat (pe_tensor e)")
  obtain a' rows' where l': "layout_layers layout ! nat (pe_tensor e') = (a', rows')" by (cases "layout_layers layout ! nat (pe_tensor e')")
  note f = entry_spans_facts [OF assms(1,2,5) l] and f' = entry_spans_facts [OF assms(1,3,6) l']
  have c0: "0 \<le> pe_cpu e" "0 \<le> pe_cpu e'" "0 \<le> pe_sub e" "0 \<le> pe_sub e'" "nat (pe_tensor e) < length (layout_layers layout)"
    using assms(2,3) l l' by (auto simp: layout_range_def Let_def)
  show ?thesis
  proof (cases "a = a' \<and> pe_cpu e = pe_cpu e'")
    case False
    then show ?thesis using f(2,3) f'(2,3) c0(1,2) by (auto simp: apart_def eq_nat_nat_iff)
  next
    case True
    then have ne: "pe_sub e \<noteq> pe_sub e'" using assms(4) l l' by (simp add: layer_alloc_def)
    have g: "layout_good n layout" using assms(1) by (simp add: layout_worker_def)
    have p: "0 \<le> page_sizes layout ! a" using layout_layerD(2,3) [OF g c0(5) l] by simp
    have mono: "nat ((x + 1) * (page_sizes layout ! a)) \<le> nat (y * (page_sizes layout ! a))" if "x < y" for x y
      using that p by (intro nat_mono mult_right_mono) auto
    show ?thesis
    proof (cases "pe_sub e < pe_sub e'")
      case True
      with mono [OF this] f(5) f'(4) \<open>a = a' \<and> pe_cpu e = pe_cpu e'\<close> show ?thesis by (simp add: apart_def)
    next
      case False
      then have "pe_sub e' < pe_sub e" using ne by simp
      with mono [OF this] f(4) f'(5) \<open>a = a' \<and> pe_cpu e = pe_cpu e'\<close> show ?thesis by (simp add: apart_def)
    qed
  qed
qed

lemma entries_apart_dev:
  assumes "layout_worker n layout cw" "layout_range layout cw e" "layout_range layout cw e'"
    "(pe_tensor e, pe_device e) \<noteq> (pe_tensor e', pe_device e')"
    "(d, c) \<in> set (entry_spans layout e)" "(d', c') \<in> set (entry_spans layout e')"
  shows "apart d d'"
proof -
  obtain a rows where l: "layout_layers layout ! nat (pe_tensor e) = (a, rows)" by (cases "layout_layers layout ! nat (pe_tensor e)")
  obtain a' rows' where l': "layout_layers layout ! nat (pe_tensor e') = (a', rows')" by (cases "layout_layers layout ! nat (pe_tensor e')")
  note f = entry_spans_facts [OF assms(1,2,5) l] and f' = entry_spans_facts [OF assms(1,3,6) l']
  have c0: "0 \<le> pe_tensor e" "0 \<le> pe_tensor e'" "0 \<le> pe_device e" "0 \<le> pe_device e'"
    "nat (pe_tensor e) < length (layout_layers layout)" "nat (pe_tensor e') < length (layout_layers layout)"
    using assms(2,3) l l' by (auto simp: layout_range_def Let_def)
  show ?thesis
  proof (cases "pe_tensor e = pe_tensor e'")
    case True
    then show ?thesis using assms(4) f(6) f'(6) c0 by (auto simp: apart_def eq_nat_nat_iff)
  next
    case False
    then have "nat (pe_tensor e) < nat (pe_tensor e') \<or> nat (pe_tensor e') < nat (pe_tensor e)" using c0 by linarith
    then have "rs_tensor d \<noteq> rs_tensor d'"
      using first_row_mono [of "nat (pe_tensor e)" "nat (pe_tensor e')" "layout_layers layout"]
        first_row_mono [of "nat (pe_tensor e')" "nat (pe_tensor e)" "layout_layers layout"] f(8,9) f'(8,9) c0 l l' by auto
    then show ?thesis by (simp add: apart_def)
  qed
qed

section \<open>Round trip\<close>

lemma layout_fits:
  assumes "layout_worker n layout cw" "layout_range layout cw e" "(d, c) \<in> set (entry_spans layout e)"
  shows "mem_fits dev (device_tensors cw) \<Longrightarrow> slice_fits dev d \<and> rs_len d = length (dev ! rs_tensor d ! rs_row d)"
    and "mem_fits cpu (cpu_tensors cw) \<Longrightarrow> slice_fits cpu c"
proof -
  obtain a rows where l: "layout_layers layout ! nat (pe_tensor e) = (a, rows)" by (cases "layout_layers layout ! nat (pe_tensor e)")
  define i where "i = nat (pe_tensor e)"
  define t where "t = rs_tensor d"
  define k where "k = t - first_row (layout_layers layout) i"
  note f = entry_spans_facts [OF assms l, folded i_def t_def, folded k_def]
  have r: "i < length (layout_layers layout)" "0 \<le> pe_device e" "\<forall>row \<in> set rows. pe_device e < rv_rows row"
    "0 \<le> pe_cpu e" "pe_cpu e < dim_rows (cpu_tensors cw ! a)" "0 \<le> pe_sub e" "pe_sub e < cw_factor cw"
    using assms(2) l by (auto simp: layout_range_def Let_def i_def)
  have g: "layout_good n layout" using assms(1) by (simp add: layout_worker_def)
  note L = layout_layerD [OF g r(1) l [folded i_def]]
  have k: "k < length rows" "first_row (layout_layers layout) i + k = t" using f(8,9) by (auto simp: k_def)
  have row: "t < length (device_tensors cw) \<and> device_tensors cw ! t = \<lparr>dim_rows = rv_rows (rows ! k), dim_cols = rv_cols (rows ! k)\<rparr>"
    using first_row_fits [OF r(1) l [folded i_def] k(1)] assms(1) unfolding k(2) by (simp add: layout_worker_def)
  have cols: "0 \<le> rv_cols (rows ! k)" "pe_device e < rv_rows (rows ! k)" using L(4) r(3) k(1) by auto
  show "slice_fits dev d \<and> rs_len d = length (dev ! rs_tensor d ! rs_row d)" if "mem_fits dev (device_tensors cw)"
    using mem_fitsD(1,2) [OF that, of t] mem_fitsD(3) [OF that, of t "pe_device e"] row cols r(2) f(6,7,10)
    unfolding slice_fits_def t_def [symmetric] by auto
  have m: "map dim_cols (cpu_tensors cw) = map (\<lambda>page. page * cw_factor cw) (page_sizes layout)"
    using assms(1) by (simp add: layout_worker_def)
  have cpu: "a < length (cpu_tensors cw)" using L(1) arg_cong [OF m, of length] by simp
  have cpu_a: "dim_cols (cpu_tensors cw ! a) = page_sizes layout ! a * cw_factor cw"
    using arg_cong [OF m, of "\<lambda>xs. xs ! a"] cpu L(1) by simp
  have "(pe_sub e + 1) * (page_sizes layout ! a) \<le> cw_factor cw * (page_sizes layout ! a)"
    using r(7) L(2,3) by (intro mult_right_mono) auto
  then have fit: "rs_start c + rs_len c \<le> nat (dim_cols (cpu_tensors cw ! a))"
    using f(5) by (simp add: cpu_a mult.commute)
  show "slice_fits cpu c" if "mem_fits cpu (cpu_tensors cw)"
    using mem_fitsD(1,2) [OF that cpu] mem_fitsD(3) [OF that cpu r(4,5)] fit r(4,5) f(2,3)
    unfolding slice_fits_def by auto
qed

lemma packed_nth:
  "k < length rows \<Longrightarrow> packed t block cpu_block u rows offset ! k =
     (\<lparr>rs_tensor = t + k, rs_row = nat block, rs_start = 0, rs_len = nat (rv_cols (rows ! k))\<rparr>,
      \<lparr>rs_tensor = u, rs_row = nat cpu_block, rs_start = nat (offset + sum_list (map rv_cols (take k rows))),
       rs_len = nat (rv_cols (rows ! k))\<rparr>)"
  by (induction rows arbitrary: t offset k) (auto simp: nth_Cons algebra_simps split: nat.splits)

lemma length_packed [simp]: "length (packed t block cpu_block u rows offset) = length rows"
  by (induction rows arbitrary: t offset) simp_all

text \<open>The device rows of the block of an entry, one for each tensor of its layer.\<close>

definition layer_rows :: "ascend_layout \<Rightarrow> string list list \<Rightarrow> plan_entry \<Rightarrow> string list" where
  "layer_rows layout mem e =
     (let i = nat (pe_tensor e)
      in map (\<lambda>k. mem ! (first_row (layout_layers layout) i + k) ! nat (pe_device e)) [0..<length (snd (layout_layers layout ! i))])"

lemma layer_rows_eq:
  assumes "layout_worker n layout cw" "layout_range layout cw e" "layout_range layout cw e'" "same_place e e'"
    "mem_fits dev (device_tensors cw)" "mem_fits dev' (device_tensors cw)"
    "\<And>d c d'. (d, c) \<in> set (entry_spans layout e) \<Longrightarrow> (d', c) \<in> set (entry_spans layout e') \<Longrightarrow> read_slice dev' d' = read_slice dev d"
  shows "layer_rows layout dev' e' = layer_rows layout dev e"
proof -
  obtain a rows where l: "layout_layers layout ! nat (pe_tensor e) = (a, rows)" by (cases "layout_layers layout ! nat (pe_tensor e)")
  have t: "pe_tensor e' = pe_tensor e" "pe_cpu e' = pe_cpu e" "pe_sub e' = pe_sub e" using assms(4) by (simp_all add: same_place_def)
  let ?t = "first_row (layout_layers layout) (nat (pe_tensor e))"
  have "dev' ! (?t + k) ! nat (pe_device e') = dev ! (?t + k) ! nat (pe_device e)" if k: "k < length rows" for k
  proof -
    define d c d' where def: "d = fst (entry_spans layout e ! k)" "c = snd (entry_spans layout e ! k)" "d' = fst (entry_spans layout e' ! k)"
    have "length (entry_spans layout e) = length rows" "length (entry_spans layout e') = length rows" "snd (entry_spans layout e' ! k) = c"
      using k l t by (simp_all add: entry_spans_def Let_def packed_nth def)
    then have s: "(d, c) \<in> set (entry_spans layout e)" "(d', c) \<in> set (entry_spans layout e')"
      using nth_mem [of k "entry_spans layout e"] nth_mem [of k "entry_spans layout e'"] k
      by (metis def prod.collapse)+
    have p: "rs_tensor d = ?t + k" "rs_row d = nat (pe_device e)" "rs_start d = 0" "rs_tensor d' = ?t + k" "rs_row d' = nat (pe_device e')" "rs_start d' = 0"
      using k l t by (simp_all add: entry_spans_def Let_def packed_nth def)
    have "read_slice dev d = dev ! (?t + k) ! nat (pe_device e)"
      using layout_fits(1) [OF assms(1,2) s(1) assms(5)] p by (simp add: read_slice_def)
    moreover have "read_slice dev' d' = dev' ! (?t + k) ! nat (pe_device e')"
      using layout_fits(1) [OF assms(1,3) s(2) assms(6)] p by (simp add: read_slice_def)
    ultimately show ?thesis using assms(7) [OF s(1,2)] by simp
  qed
  then show ?thesis using l t by (simp add: layer_rows_def Let_def)
qed

lemma layout_sorted:
  assumes "layout_worker n layout cw" "list_all (layout_range layout cw) plan"
  shows "distinct (map (\<lambda>e. (layer_alloc layout (pe_tensor e), pe_cpu e, pe_sub e)) plan) \<Longrightarrow>
           sorted_wrt (\<lambda>x y. apart (snd x) (snd y)) (concat (map (entry_spans layout) plan))"
    and "distinct (map (\<lambda>e. (pe_tensor e, pe_device e)) plan) \<Longrightarrow>
           sorted_wrt (\<lambda>x y. apart (fst x) (fst y)) (concat (map (entry_spans layout) plan))"
proof -
  have r: "layout_range layout cw e" if "e \<in> set plan" for e using assms(2) that by (auto simp: list_all_iff)
  have w: "\<forall>xs \<in> set (map (entry_spans layout) plan). sorted_wrt (\<lambda>x y. apart (snd x) (snd y)) xs \<and> sorted_wrt (\<lambda>x y. apart (fst x) (fst y)) xs"
    using entry_spans_apart [OF assms(1) r] by (auto intro: sorted_wrt_mono_rel [rotated])
  show "sorted_wrt (\<lambda>x y. apart (snd x) (snd y)) (concat (map (entry_spans layout) plan))"
    if "distinct (map (\<lambda>e. (layer_alloc layout (pe_tensor e), pe_cpu e, pe_sub e)) plan)"
  proof (rule sorted_wrt_concat)
    show "sorted_wrt (\<lambda>xs ys. \<forall>x \<in> set xs. \<forall>y \<in> set ys. apart (snd x) (snd y)) (map (entry_spans layout) plan)"
      unfolding sorted_wrt_map using that
      by (rule sorted_wrt_distinct_map) (use entries_apart_cpu [OF assms(1) r r] in \<open>metis prod.collapse\<close>)
  qed (use w in blast)
  show "sorted_wrt (\<lambda>x y. apart (fst x) (fst y)) (concat (map (entry_spans layout) plan))"
    if "distinct (map (\<lambda>e. (pe_tensor e, pe_device e)) plan)"
  proof (rule sorted_wrt_concat)
    show "sorted_wrt (\<lambda>xs ys. \<forall>x \<in> set xs. \<forall>y \<in> set ys. apart (fst x) (fst y)) (map (entry_spans layout) plan)"
      unfolding sorted_wrt_map using that
      by (rule sorted_wrt_distinct_map) (use entries_apart_dev [OF assms(1) r r] in \<open>metis prod.collapse\<close>)
  qed (use w in blast)
qed

lemma submit_layout_spans:
  assumes "submit_with (layout_spans layout) now j gpu ci store cw = Inr (copies, cw')" "layout_worker n layout cw"
  obtains plan where "copy_plan gpu ci (cw_refs cw) (cw_factor cw) = Inr plan" "list_all (layout_range layout cw) plan"
    "copies = map (\<lambda>(d, c). if store then (d, c) else (c, d)) (concat (map (entry_spans layout) plan))"
proof -
  obtain plan sp where p: "copy_plan gpu ci (cw_refs cw) (cw_factor cw) = Inr plan" "layout_spans layout cw plan = Inr sp"
    "copies = map (\<lambda>(device, cpu). if store then (device, cpu) else (cpu, device)) sp"
    using assms(1) by (auto simp: submit_with_def bind_result_def split: if_splits sum.splits)
  with layout_spans_entries [OF assms(2) p(1,2)] show thesis by (intro that) auto
qed

lemma layout_roundtrip_parts:
  assumes views: "views_ok byte_rows" and build: "build_layout byte_rows n allocations cache_groups caches = Inr layout"
    and made: "make_layout_worker next_view layout factor = Inr cw0" "\<forall>len. dim_cols (next_view len) = len"
    and same: "same_caches cw0 cw" "same_caches cw0 cw2" "group_sizes gpu' = group_sizes gpu" "block_indices gpu' = block_indices gpu"
    and store: "submit_with (layout_spans layout) now j gpu ci True cw = Inr (copies, cw1)" "distinct ci"
    and load: "submit_with (layout_spans layout) now' j' gpu' ci False cw2 = Inr (loads, cw3)" "distinct (gpu_block_ids gpu')"
    and mem: "mem_fits (device_mem m) (device_tensors cw0)" "mem_fits (cpu_mem m) (cpu_tensors cw0)" "mem_fits dev (device_tensors cw0)"
    and run: "m1 = fold store_copy copies m" "m2 = fold load_copy loads (m1\<lparr>device_mem := dev\<rparr>)"
  shows "\<exists>plan plan'. copy_plan gpu ci (group_data_refs layout) factor = Inr plan \<and> copy_plan gpu' ci (group_data_refs layout) factor = Inr plan' \<and>
           list_all2 (\<lambda>e e'. same_place e e' \<and> layer_rows layout (device_mem m2) e' = layer_rows layout (device_mem m) e) plan plan'"
    and "device_mem m1 = device_mem m \<and> cpu_mem m2 = cpu_mem m1"
proof -
  have good: "layout_good n layout" by (rule build_layout_good [OF views build])
  have lw0: "layout_worker n layout cw0" using make_layout_worker_ok [OF made(1) good] made(2) by blast
  have sc: "cw_refs cw = group_data_refs layout" "cw_factor cw = factor" "cw_refs cw2 = group_data_refs layout" "cw_factor cw2 = factor"
    using same(1,2) lw0 made(1) by (auto simp: same_caches_def layout_worker_def make_layout_worker_def Let_def split: if_splits)
  have lw: "layout_worker n layout cw" "layout_worker n layout cw2" using lw0 same(1,2) by (auto simp: same_caches_def layout_worker_def)
  obtain plan where p: "copy_plan gpu ci (group_data_refs layout) factor = Inr plan" "list_all (layout_range layout cw) plan"
    "copies = concat (map (entry_spans layout) plan)"
    using submit_layout_spans [OF store(1) lw(1)] sc by auto
  obtain plan' where p': "copy_plan gpu' ci (group_data_refs layout) factor = Inr plan'" "list_all (layout_range layout cw2) plan'"
    "loads = map (\<lambda>p. (snd p, fst p)) (concat (map (entry_spans layout) plan'))"
    using submit_layout_spans [OF load(1) lw(2)] sc by (auto simp: split_def)
  have rng: "layout_range layout cw2 = layout_range layout cw0" "layout_range layout cw = layout_range layout cw0"
    using same(1,2) by (auto simp: same_caches_def layout_range_def fun_eq_iff)
  note r = p(2) [unfolded rng list_all_iff] and r' = p'(2) [unfolded rng list_all_iff]
  have ok: "list_all (span_ok (device_mem m) (cpu_mem m)) copies"
    unfolding p(3) list_all_iff span_ok_def
    using layout_fits [OF lw0] entry_spans_facts(1) [OF lw0] r mem by fastforce
  have ap: "sorted_wrt (\<lambda>x y. apart (snd x) (snd y)) copies"
    unfolding p(3) by (rule layout_sorted(1) [OF lw(1) p(2) layout_plan_facts(3) [OF good p(1) store(2)]])
  have ok': "list_all (span_ok (cpu_mem m1) dev) loads"
    unfolding p'(3) list_all_iff span_ok_def run(1) store_copies
    using layout_fits [OF lw0] entry_spans_facts(1) [OF lw0] r' mem copy_all_fits [OF ok] by fastforce
  have ap': "sorted_wrt (\<lambda>x y. apart (snd x) (snd y)) loads"
    unfolding p'(3) sorted_wrt_map
    using layout_sorted(2) [OF lw(2) p'(2) layout_plan_facts(2) [OF good p'(1) load(2)]] by simp
  have stored: "read_slice (cpu_mem m1) c = read_slice (device_mem m) d" if "e \<in> set plan" "(d, c) \<in> set (entry_spans layout e)" for e d c
    using copy_all_copies [OF ok ap, of d c] that unfolding run(1) store_copies p(3) by auto
  have loaded: "read_slice (device_mem m2) d = read_slice (cpu_mem m1) c" if "e \<in> set plan'" "(d, c) \<in> set (entry_spans layout e)" for e d c
    using copy_all_copies [OF ok' ap', of c d] that unfolding run(2) load_copies p'(3) by force
  have fits: "mem_fits (device_mem m2) (device_tensors cw0)"
    using copy_all_mem_fits [OF ok' mem(3)] unfolding run(2) load_copies by simp
  have pp: "list_all2 same_place plan plan'" by (rule copy_plan_same [OF p(1) p'(1) same(3,4)])
  have "layer_rows layout (device_mem m2) e' = layer_rows layout (device_mem m) e" if e: "same_place e e'" "e \<in> set plan" "e' \<in> set plan'" for e e'
    by (rule layer_rows_eq [OF lw0 _ _ e(1) mem(1) fits]) (use r r' e stored loaded in auto)
  then have "list_all2 (\<lambda>e e'. same_place e e' \<and> layer_rows layout (device_mem m2) e' = layer_rows layout (device_mem m) e) plan plan'"
    using pp by (auto simp: list_all2_conv_all_nth)
  with p(1) p'(1) show "\<exists>plan plan'. copy_plan gpu ci (group_data_refs layout) factor = Inr plan \<and> copy_plan gpu' ci (group_data_refs layout) factor = Inr plan' \<and>
           list_all2 (\<lambda>e e'. same_place e e' \<and> layer_rows layout (device_mem m2) e' = layer_rows layout (device_mem m) e) plan plan'" by blast
  show "device_mem m1 = device_mem m \<and> cpu_mem m2 = cpu_mem m1" by (simp add: run store_copies load_copies)
qed


text \<open>A transfer over the sample layout, loaded back into other device blocks.\<close>

definition next_view10 :: "int \<Rightarrow> tensor_shape" where
  "next_view10 len = \<lparr>dim_rows = 10, dim_cols = len\<rparr>"

definition packed_worker :: copy_worker where
  "packed_worker = (case make_layout_worker next_view10 sample_layout 2 of Inr cw \<Rightarrow> cw | Inl _ \<Rightarrow> small_worker)"

definition packed_store :: "span list \<times> copy_worker" where
  "packed_store = (case submit_with (layout_spans sample_layout) 0 1 plan_gpu [4, 9, 6] True packed_worker of Inr p \<Rightarrow> p | Inl _ \<Rightarrow> ([], small_worker))"

definition packed_load :: "span list \<times> copy_worker" where
  "packed_load = (case submit_with (layout_spans sample_layout) 1 2 round_gpu [4, 9, 6] False (snd packed_store) of Inr p \<Rightarrow> p | Inl _ \<Rightarrow> ([], small_worker))"

definition packed_mem :: copy_memory where
  "packed_mem = \<lparr>device_mem = map (\<lambda>(c, w). map (\<lambda>i. replicate w (char_of (c + i :: nat))) [0..<8]) [(48, 2), (65, 2), (80, 3), (97, 1), (112, 2)],
     cpu_mem = [replicate 10 ''........'', replicate 10 ''......'']\<rparr>"

definition packed_dev :: "string list list" where
  "packed_dev = map (\<lambda>w. replicate 8 (replicate w (CHR ''-''))) [2, 2, 3, 1, 2]"


end
