(* ===== verification/Tiering_Plugin.thy ===== *)
theory Tiering_Plugin
  imports Ascend_Layout_Transfer
begin

text \<open>
  How the plugin enters its host (\<open>__init__.py\<close>, \<open>spec.py\<close>, \<open>ascend_connector.py\<close>) and the
  job metadata of \<open>base.py\<close>. The host's tier registry is a dictionary; loading a registered
  class, the host's own \<open>get_worker\<close> and the creation of the shared CPU region are arguments.
\<close>

section \<open>Jobs\<close>

record job_metadata =
  jm_job_id :: int
  jm_keys :: "offload_key list"
  jm_block_ids :: "nat list"
  jm_is_promotion :: bool
  jm_evict_primary_on_success :: bool
  jm_reclaim_reason :: "string option"
  jm_started_at :: instant

definition job_post_init :: "instant \<Rightarrow> job_metadata \<Rightarrow> job_metadata" where
  "job_post_init now j = (if jm_started_at j = 0 then j\<lparr>jm_started_at := now\<rparr> else j)"

section \<open>Registration\<close>

type_synonym tier_entry = "string \<times> string"

definition hust_fs_entry :: tier_entry where
  "hust_fs_entry = (''vllm_hust_kv_tiering.fs.manager'', ''SegmentFileSystemTier'')"

definition register :: "(string \<times> tier_entry) list \<Rightarrow> (string \<times> tier_entry) list" where
  "register registry =
     (if map_of registry ''hust_fs'' = None then AList.update ''hust_fs'' hust_fs_entry registry else registry)"

definition register_storage :: "(tier_entry \<Rightarrow> 'c result) \<Rightarrow> 'c \<Rightarrow> (string \<times> tier_entry) list \<Rightarrow>
    unit result \<times> (string \<times> tier_entry) list" where
  "register_storage load_class segment_tier registry =
     (let registry = register registry
      in (case map_of registry ''hust_fs'' of
            None \<Rightarrow> (Inl KeyError, registry)
          | Some entry \<Rightarrow>
              (bind_result (load_class entry) (\<lambda>c.
                 if c \<noteq> segment_tier then Inl (ValueError ''hust_fs is already registered by another implementation'') else Inr ()),
               registry)))"

datatype plugin_export = Tiering_Spec_Class | Segment_Tier_Class

definition module_getattr :: "string \<Rightarrow> plugin_export result" where
  "module_getattr name =
     (if name = ''HustTieringOffloadingSpec'' then Inr Tiering_Spec_Class
      else if name = ''SegmentFileSystemTier'' then Inr Segment_Tier_Class
      else Inl AttributeError)"

section \<open>The worker of a specification\<close>

text \<open>The caches that the host passes: canonical tensors, or a layout of this plugin.\<close>

datatype worker_caches =
    Canonical_Caches "(bool \<times> int \<times> int) list" "cache_ref list list"
  | Layout_Caches ascend_layout

datatype transfer_worker = Copy_Worker copy_worker | Layout_Worker ascend_layout copy_worker

text \<open>\<open>open_regions\<close> counts the shared regions that were created and not cleaned up.\<close>

record tiering_spec =
  extra_config :: "(string \<times> py_value) list"
  block_size_factor :: int
  spec_worker :: "transfer_worker option"
  open_regions :: nat

definition ascend_copy_enabled :: "tiering_spec \<Rightarrow> bool" where
  "ascend_copy_enabled s \<longleftrightarrow> map_of (extra_config s) ''ascend_copy_backend'' = Some (PStr ''torch_sync'')"

definition make_worker :: "(int \<Rightarrow> tensor_shape) \<Rightarrow> int \<Rightarrow> worker_caches \<Rightarrow> transfer_worker result" where
  "make_worker next_view factor caches = (case caches of
     Layout_Caches l \<Rightarrow> bind_result (make_layout_worker next_view l factor) (\<lambda>cw. Inr (Layout_Worker l cw))
   | Canonical_Caches tensors refs \<Rightarrow> bind_result (make_copy_worker next_view tensors refs factor) (\<lambda>cw. Inr (Copy_Worker cw)))"

text \<open>
  \<open>region\<close>: what creating the shared region does, the shapes of its views or an error.
  \<open>Inl\<close> of the second result is the worker of the host's own \<open>get_worker\<close>.
\<close>

definition get_worker :: "(worker_caches \<Rightarrow> 'w result) \<Rightarrow> bool \<Rightarrow> (int \<Rightarrow> tensor_shape) result \<Rightarrow> worker_caches \<Rightarrow>
    tiering_spec \<Rightarrow> ('w + transfer_worker) result \<times> tiering_spec" where
  "get_worker host_get_worker has_npu region caches s =
     (if \<not> ascend_copy_enabled s then (bind_result (host_get_worker caches) (\<lambda>w. Inr (Inl w)), s)
      else if \<not> has_npu then (Inl (ValueError ''torch_sync requires the Ascend runtime''), s)
      else (case spec_worker s of
          Some w \<Rightarrow> (Inr (Inr w), s)
        | None \<Rightarrow>
            (case region of
               Inl e \<Rightarrow> (Inl e, s)
             | Inr next_view \<Rightarrow>
                 let s = s\<lparr>open_regions := Suc (open_regions s)\<rparr>
                 in (case make_worker next_view (block_size_factor s) caches of
                       Inl e \<Rightarrow> (Inl e, s\<lparr>open_regions := open_regions s - 1\<rparr>)
                     | Inr w \<Rightarrow> (Inr (Inr w), s\<lparr>spec_worker := Some w\<rparr>)))))"

text \<open>\<open>register_kv_caches\<close>: \<open>init_worker\<close> is the host's \<open>_init_worker\<close> of the connector's worker.\<close>

definition register_kv_caches :: "(int \<Rightarrow> 't \<Rightarrow> row_view result) \<Rightarrow> int \<Rightarrow> cache_allocation list \<Rightarrow> cache_group list \<Rightarrow>
    (string \<times> 't layer_cache) list \<Rightarrow> (ascend_layout \<Rightarrow> tiering_spec \<Rightarrow> unit result \<times> tiering_spec) \<Rightarrow>
    tiering_spec option \<Rightarrow> unit result \<times> tiering_spec option" where
  "register_kv_caches byte_rows n allocations cache_groups caches init_worker worker =
     (case worker of
        None \<Rightarrow> (Inl (ValueError ''Ascend tiering requires the explicit torch_sync profile''), None)
      | Some s \<Rightarrow>
          if \<not> ascend_copy_enabled s then (Inl (ValueError ''Ascend tiering requires the explicit torch_sync profile''), Some s)
          else (case build_layout byte_rows n allocations cache_groups caches of
              Inl e \<Rightarrow> (Inl e, Some s)
            | Inr layout \<Rightarrow> map_prod id Some (init_worker layout s)))"

section \<open>One region, one worker\<close>

text \<open>A call of \<open>get_worker\<close>: whether the runtime is there, what the region does, the caches.\<close>

type_synonym get_worker_call = "bool \<times> (int \<Rightarrow> tensor_shape) result \<times> worker_caches"

definition call_get_worker :: "(worker_caches \<Rightarrow> 'w result) \<Rightarrow> get_worker_call \<Rightarrow> tiering_spec \<Rightarrow> tiering_spec" where
  "call_get_worker host = (\<lambda>(has_npu, region, caches) s. snd (get_worker host has_npu region caches s))"

definition spec_inv :: "tiering_spec \<Rightarrow> bool" where
  "spec_inv s \<longleftrightarrow> open_regions s = (if spec_worker s = None then 0 else 1)"

lemma get_worker_inv: "spec_inv s \<Longrightarrow> spec_inv (snd (get_worker host has_npu region caches s))"
  by (auto simp: get_worker_def spec_inv_def Let_def split: option.splits sum.splits)

interpretation spec_run: guarded_component "call_get_worker host" spec_inv "\<lambda>_. True" for host
  by unfold_locales (auto simp: call_get_worker_def get_worker_inv)

lemma get_worker_kept:
  assumes "spec_worker s = Some w"
  shows "get_worker host has_npu region caches s =
           (if \<not> ascend_copy_enabled s then bind_result (host caches) (\<lambda>w. Inr (Inl w))
            else if \<not> has_npu then Inl (ValueError ''torch_sync requires the Ascend runtime'') else Inr (Inr w), s)"
  using assms by (simp add: get_worker_def)

lemma worker_kept_run: "spec_worker s = Some w \<Longrightarrow> fold (call_get_worker host) calls s = s"
  by (induction calls) (auto simp: call_get_worker_def get_worker_kept)

lemma get_worker_one_region_parts:
  assumes "spec_worker s0 = None" "open_regions s0 = 0" "s = fold (call_get_worker host) calls s0"
  shows "open_regions s = (if spec_worker s = None then 0 else 1)"
    and "spec_worker s = Some w \<Longrightarrow> get_worker host has_npu region caches (fold (call_get_worker host) later s) = (Inr (Inr w'), s') \<Longrightarrow>
           w' = w \<and> s' = s"
proof -
  have "spec_inv s0" using assms(1,2) by (simp add: spec_inv_def)
  from spec_run.run_inv [OF this, of calls host] show "open_regions s = (if spec_worker s = None then 0 else 1)"
    by (simp add: assms(3) list_all_iff spec_inv_def)
  show "w' = w \<and> s' = s" if "spec_worker s = Some w"
    "get_worker host has_npu region caches (fold (call_get_worker host) later s) = (Inr (Inr w'), s')"
    using that worker_kept_run [OF that(1), of host later] get_worker_kept [OF that(1), of host has_npu region caches]
    by (auto simp: bind_result_def split: if_splits sum.splits)
qed

text \<open>C40: However often and with whatever outcomes the host asks a fresh specification for its
worker: a shared region stays open only together with the one worker that uses it, so a
constructor that raises leaks none; once a worker exists, every later call that returns one of
the plugin's workers returns this one and creates nothing.\<close>

theorem get_worker_one_region:
  assumes "spec_worker s0 = None" "open_regions s0 = 0" "s = fold (call_get_worker host) calls s0"
  shows "open_regions s = (if spec_worker s = None then 0 else 1) \<and>
    (\<forall>w w' has_npu region caches later s'. spec_worker s = Some w \<and>
       get_worker host has_npu region caches (fold (call_get_worker host) later s) = (Inr (Inr w'), s') \<longrightarrow> w' = w \<and> s' = s)"
  using get_worker_one_region_parts [OF assms] by blast

definition fresh_spec :: tiering_spec where
  "fresh_spec = \<lparr>extra_config = [(''ascend_copy_backend'', PStr ''torch_sync'')], block_size_factor = 2, spec_worker = None, open_regions = 0\<rparr>"

text \<open>The first call fails (no tensors), the second succeeds.\<close>

definition sample_calls :: "get_worker_call list" where
  "sample_calls = [(True, Inr next_view10, Canonical_Caches [] plan_refs), (True, Inr next_view10, Layout_Caches sample_layout)]"

definition sample_spec :: tiering_spec where
  "sample_spec = fold (call_get_worker (\<lambda>_. Inr ())) sample_calls fresh_spec"

theorem get_worker_one_region_witness:
  "open_regions sample_spec = 1 \<and>
   get_worker (\<lambda>_. Inr ()) True (Inr next_view10) (Canonical_Caches [(True, 8, 2)] plan_refs) sample_spec =
     (Inr (Inr (Layout_Worker sample_layout packed_worker)), sample_spec)"
proof -
  have w: "spec_worker sample_spec = Some (Layout_Worker sample_layout packed_worker)" by code_simp
  have s: "spec_worker fresh_spec = None" "open_regions fresh_spec = 0" by (simp_all add: fresh_spec_def)
  note t = get_worker_one_region [OF s sample_spec_def]
  have e: "ascend_copy_enabled sample_spec" by code_simp
  then obtain w' s' where g: "get_worker (\<lambda>_. Inr ()) True (Inr next_view10) (Canonical_Caches [(True, 8, 2)] plan_refs) sample_spec = (Inr (Inr w'), s')"
    by (simp add: get_worker_kept [OF w])
  then show ?thesis using conjunct1 [OF t] conjunct2 [OF t, THEN spec, THEN spec [of _ w'], THEN spec [of _ True], THEN spec [of _ "Inr next_view10"],
        THEN spec [of _ "Canonical_Caches [(True, 8, 2)] plan_refs"], THEN spec [of _ "[]"], THEN spec [of _ s']] w by simp
qed

end
