(* ===== verification/Tiering_Metrics.thy ===== *)
theory Tiering_Metrics
  imports Tiering_Prelude
begin

text \<open>
  The metric definitions of \<open>residency.py\<close>: a dictionary from the names of \<open>TieringMetrics\<close>
  to their metadata. Bucket bounds are rationals.
\<close>

datatype metric_kind = Gauge | Counter | Histogram "rat list"

record metric_metadata =
  metric_kind :: metric_kind
  documentation :: string
  labelnames :: "string list"

definition build_tiering_metric_definitions :: "(string \<times> metric_metadata) list" where
  "build_tiering_metric_definitions =
    [
     (''vllm:kv_tiering_resident_blocks'', \<lparr>metric_kind = Gauge,
        documentation = ''Number of KV blocks observed in each offload tier.'', labelnames = [''tier'']\<rparr>),
     (''vllm:kv_tiering_sessions'', \<lparr>metric_kind = Gauge,
        documentation = ''Number of lifecycle sessions in each state.'', labelnames = [''state'']\<rparr>),
     (''vllm:kv_tiering_tracked_blocks'', \<lparr>metric_kind = Gauge,
        documentation = ''Number of block residency entries tracked by tiering.'', labelnames = []\<rparr>),
     (''vllm:kv_tiering_shared_blocks'', \<lparr>metric_kind = Gauge,
        documentation = ''Number of KV blocks referenced by multiple sessions.'', labelnames = []\<rparr>),
     (''vllm:kv_tiering_active_blocks'', \<lparr>metric_kind = Gauge,
        documentation = ''Number of tracked KV blocks referenced by active sessions.'', labelnames = []\<rparr>),
     (''vllm:kv_tiering_lookups'', \<lparr>metric_kind = Counter,
        documentation = ''Tiering lookup outcomes grouped by tier and result.'', labelnames = [''tier'', ''result'']\<rparr>),
     (''vllm:kv_tiering_migration_blocks'', \<lparr>metric_kind = Counter,
        documentation = ''Number of KV blocks migrated between storage tiers.'', labelnames = [''source'', ''target'']\<rparr>),
     (''vllm:kv_tiering_migration_bytes'', \<lparr>metric_kind = Counter,
        documentation = ''Bytes of KV data migrated between storage tiers.'', labelnames = [''source'', ''target'']\<rparr>),
     (''vllm:kv_tiering_migration_latency_seconds'', \<lparr>metric_kind = Histogram [1/1000, 1/200, 1/100, 1/20, 1/10, 1/2, 1, 5, 10],
        documentation = ''KV migration latency between storage tiers in seconds.'', labelnames = [''source'', ''target'']\<rparr>),
     (''vllm:kv_tiering_expired_sessions'', \<lparr>metric_kind = Counter,
        documentation = ''Number of idle KV lifecycle sessions that expired.'', labelnames = []\<rparr>),
     (''vllm:kv_tiering_pruned_sessions'', \<lparr>metric_kind = Counter,
        documentation = ''Number of oldest idle lifecycle sessions removed to bound metadata.'', labelnames = []\<rparr>),
     (''vllm:kv_tiering_deleted_blocks'', \<lparr>metric_kind = Counter,
        documentation = ''Number of expired KV block copies deleted from a tier.'', labelnames = [''tier'']\<rparr>),
     (''vllm:kv_tiering_primary_reclaimed_blocks'', \<lparr>metric_kind = Counter,
        documentation = ''Number of idle CPU-primary blocks reclaimed after a secondary copy became durable.'', labelnames = [''reason'']\<rparr>),
     (''vllm:kv_tiering_pruned_tracking_entries'', \<lparr>metric_kind = Counter,
        documentation = ''Number of stale residency metadata entries pruned.'', labelnames = []\<rparr>),
     (''vllm:kv_tiering_device_cache_usage'', \<lparr>metric_kind = Gauge,
        documentation = ''Fraction of scheduler-managed device KV cache blocks in use.'', labelnames = []\<rparr>),
     (''vllm:kv_tiering_pressure_state'', \<lparr>metric_kind = Gauge,
        documentation = ''Whether a tier is currently above its pressure threshold.'', labelnames = [''tier'']\<rparr>),
     (''vllm:kv_tiering_store_decisions'', \<lparr>metric_kind = Counter,
        documentation = ''Pressure-policy decisions for newly computed KV blocks.'', labelnames = [''decision'', ''reason'']\<rparr>),
     (''vllm:kv_tiering_migration_budget_blocks'', \<lparr>metric_kind = Gauge,
        documentation = ''Current device-to-CPU migration budget consumption.'', labelnames = [''scope'']\<rparr>),
     (''vllm:kv_tiering_reuse_signals'', \<lparr>metric_kind = Gauge,
        documentation = ''Current lifecycle heat and external reuse observations.'', labelnames = [''signal'']\<rparr>),
     (''vllm:kv_tiering_transfer_submit_to_complete_seconds'', \<lparr>metric_kind = Histogram [1/10000, 1/1000, 1/200, 1/100, 1/20, 1/10, 1/2, 1, 5],
        documentation = ''Wall-clock time from asynchronous KV transfer submission to completion observation.'', labelnames = [''direction'', ''phase'', ''path'']\<rparr>),
     (''vllm:kv_tiering_transfer_ops'', \<lparr>metric_kind = Counter,
        documentation = ''Number of DMA/D2D operations used by KV transfers.'', labelnames = [''direction'', ''phase'', ''path'', ''op'']\<rparr>),
     (''vllm:kv_tiering_worker_wait_seconds'', \<lparr>metric_kind = Histogram [1/10000, 1/1000, 1/200, 1/100, 1/20, 1/10, 1/2, 1, 5],
        documentation = ''Time spent blocked in worker.wait() fences.'', labelnames = []\<rparr>),
     (''vllm:kv_tiering_h2d_submit_to_admitted_seconds'', \<lparr>metric_kind = Histogram [1/10000, 1/1000, 1/200, 1/100, 1/20, 1/10, 1/2, 1, 5],
        documentation = ''Time from H2D submission until request admission.'', labelnames = []\<rparr>)
    ]"

definition buckets_ok :: "metric_kind \<Rightarrow> bool" where
  "buckets_ok k = (case k of Histogram bs \<Rightarrow> sorted_wrt (<) (0 # bs) | _ \<Rightarrow> True)"

text \<open>No definition overwrites another one, labels are distinct and buckets positive and increasing.\<close>

lemma metric_definitions_ok:
  "distinct (map fst build_tiering_metric_definitions)"
  "list_all (\<lambda>(_, d). distinct (labelnames d) \<and> buckets_ok (metric_kind d)) build_tiering_metric_definitions"
  by code_simp+

end
