(* ===== verification/Spec2Isabelle.thy ===== *)
theory Spec2Isabelle
  imports Lifecycle_Policy Async_Lookup_Policy Thread_Pool_Policy Segment_Durable Fs_Shutdown Fs_Setup Tier_Base Ascend_Diagnostics Fs_Data Fs_Loads Block_IO_Props Tiering_Plugin Tiering_Metrics
begin

text \<open>
  Verification of \<open>vllm_hust_kv_tiering\<close>, a plugin that moves KV-cache blocks between device
  memory, CPU memory and a file system. File names below are relative to
  \<open>src/vllm_hust_kv_tiering\<close>.

  \<^bold>\<open>The parts and how they interact.\<close> The lifecycle manager (\<open>lifecycle.py\<close>) follows the
  sessions of the scheduler and owns a block residency tracker (\<open>residency.py\<close>), which records
  for every block the tiers that hold it, its owners and its transfers. The file system
  tier (\<open>fs/manager.py\<close>) stores and loads blocks in the background: jobs become tasks of a
  thread pool with two queues (\<open>fs/thread_pool.py\<close>); the tasks write and read segment files
  with an SQLite index (\<open>fs/segment_store.py\<close>) or one file for each block (\<open>fs/io.py\<close>); the
  question whether a block is stored is answered by an asynchronous lookup thread
  (\<open>async_lookup.py\<close>). The copy workers (\<open>ascend_worker.py\<close>, with \<open>ascend_layout.py\<close> for
  layers of several tensors) copy between device and CPU memory on a stream of their own.
  \<open>spec.py\<close>, \<open>ascend_connector.py\<close> and \<open>__init__.py\<close> connect all this to the host.

  \<^bold>\<open>Theories.\<close> For each part, the first theory named holds its model and the others its
  properties; a class is a record, a method a definition of the same name (with a prefix
  where two classes share a name) that takes and returns the state.
  \<^item> \<open>Tiering_Prelude\<close>: exceptions as \<open>py_error\<close>, results as sums, dictionaries as association
    lists, and the interfaces: \<open>guarded_component\<close> and \<open>fallible_component\<close> (every operation keeps
    the invariant, and raises nothing), \<open>finishing_machine\<close> (every step lowers a bound on the
    work left), \<open>ownership_index\<close> (two-way indexes of owners).
  \<^item> \<open>Residency\<close>, \<open>Residency_Policy\<close>: \<open>BlockResidencyTracker\<close>; both directions of the ownership
    index agree in every reachable state; pruning, idle and pressure candidates.
  \<^item> \<open>Lifecycle\<close>, \<open>Lifecycle_Props\<close>, \<open>Lifecycle_Policy\<close>: the configuration and the lifecycle
    manager; no reachable operation raises, the expiry deadline loses no session, expiry and
    pruning remove exactly the sessions they should.
  \<^item> \<open>Async_Lookup\<close>, \<open>_Props\<close>, \<open>_Policy\<close>: callers and lookup thread as interleaved steps; clean-up
    never raises, flushed look-ups are answered, shutdown ends.
  \<^item> \<open>Thread_Pool\<close>, \<open>_Props\<close>, \<open>_Policy\<close>: the pool as traces of labelled steps of callers and
    threads; each job reported once with the right flag, progress, soundness of \<open>wait_idle\<close>, and
    two situations in which \<open>wait_idle\<close> does not return.
  \<^item> \<open>Segment_Store\<close>, \<open>Segment_Index\<close>, \<open>Segment_Alloc\<close>, \<open>Segment_Policy\<close>, \<open>Segment_IO\<close>,
    \<open>Segment_Roundtrip\<close>, \<open>Segment_Durable\<close>: index tables and segment files shared by processes,
    a location cache for each; space is never handed out twice, a failing or short read
    or write raises and harms no other block, stored blocks are loaded back. \<open>Segment_Failures\<close>:
    with any outcomes of its reads, \<open>load_many\<close> delivers all blocks or raises and forgets them.
  \<^item> \<open>Block_IO\<close>, \<open>Block_IO_Props\<close>: \<open>store_block\<close> and \<open>load_block\<close> as sequences of system calls that
    interleave; a block file is never partial.
  \<^item> \<open>Fs_Manager\<close>, \<open>Fs_Manager_Props\<close>, \<open>Fs_Tier\<close>: the composition; its abstraction \<open>tier_block\<close>
    (the bytes that the tier holds for a key) is what jobs, look-ups and deletion refine.
  \<^item> \<open>Fs_Execution\<close>, \<open>Fs_Effects\<close>, \<open>Fs_Stable\<close>, \<open>Fs_Healthy\<close>, \<open>Fs_Data\<close>, \<open>Fs_Loads\<close>, \<open>Fs_Contract\<close>, \<open>Fs_Progress\<close>,
    \<open>Fs_Shutdown\<close>: whole runs of the tier, in which the calls of the scheduler, the moves of the
    pool threads and of the lookup thread and the changes of the primary memory interleave as steps
    (\<open>fs_step\<close>; a task and its callback are one step). A run of the tier is a run of its
    parts; an indexed block is complete, never changes again and has the bytes it was
    submitted with; every reachable tier is as healthy as the theorems on single jobs ask;
    loads deliver what they located, even if it is deleted meanwhile; the contract of
    \<open>drain_jobs\<close> in \<open>base.py\<close>, the interface \<open>secondary_tier\<close>, is met; the pool threads
    finish every submitted job that has tasks in a bounded number of moves; and both joins of \<open>shutdown\<close> return.
  \<^item> \<open>Fs_Setup\<close>: the constructor of the tier with the files it writes; ranks have segment stores of
    their own, an existing run configuration stays. \<open>Tier_Base\<close>: the result classes and inherited
    methods of \<open>base.py\<close>, and the contract of \<open>delete\<close>, the interface \<open>deleting_tier\<close>.
  \<^item> \<open>Ascend_Worker\<close>, \<open>Ascend_Worker_Props\<close>, \<open>Ascend_Transfer\<close>: transfer plans and spans without
    aliasing, jobs reported exactly once, and the bytes that the copies move.
  \<^item> \<open>Ascend_Layout\<close>, \<open>Ascend_Layout_Props\<close>, \<open>Ascend_Layout_Transfer\<close>: what \<open>build_layout\<close>
    accepts, and the round trip of whole layers over it.
  \<^item> \<open>Ascend_Diagnostics\<close>: the samples of completed copies that an environment variable turns on;
    they change no result.
  \<^item> \<open>Tiering_Plugin\<close>: registration, the worker of a specification and its shared region, job
    metadata. \<open>Tiering_Metrics\<close>: the table of metric definitions.

  \<^bold>\<open>Bounds.\<close> A call of \<open>store_block\<close> makes at most six system calls and \<open>load_block\<close> at most
  three; the models run exactly as many steps, and the finished states are proved to be
  reached. The I/O loops of the segment store take the outcomes of their calls from a list; when it
  is used up, the remaining calls succeed. Index queries take 500 keys at a time. All
  recursion is structural or on the length of a list that shrinks. Thread and process
  interleavings are unbounded lists of steps.

  \<^bold>\<open>Assumptions on callers.\<close> Results about whole runs of the pool or the tier ask that every submitted
  job has as many tasks as it announces and at least one (\<open>sane\<close>) where they say so:
  \<open>store_submits_sane\<close> and \<open>load_submits_sane\<close> show which calls submit such jobs, \<open>empty_job_hangs\<close>
  what happens otherwise. The joins of \<open>shutdown\<close> return without it.

  \<^bold>\<open>Wider than the code.\<close> In three places the models allow more behaviour than the code has: a closed
  segment store still takes calls; an outcome \<open>Raises\<close> of \<open>WriteTemp\<close> stands for any failure between
  opening and closing the temporary file, and a write to a temporary file that other code has
  unlinked makes it again; the answers to one batch of look-ups come from the state before it.

  \<^bold>\<open>Not modelled.\<close> Log lines write no state; only those of the copy diagnostics are modelled. The
  host's classes, \<open>FileMapper\<close>, the C look-up extension, torch and the device runtime are other packages: what they return is an argument of the definitions, and
  whether a system call or a transaction succeeds is one too. SQLite is modelled as the
  tables it keeps, a committed transaction as one step. The rounding of floating-point clock
  readings is left out. The abstract methods of \<open>base.py\<close> have no body (the documented contracts
  of \<open>drain_jobs\<close> and \<open>delete\<close> are interfaces here); tests, packaging and documents are not part of
  the model.
\<close>

end
